(* ===== verification/Prelude.thy ===== *)
theory Prelude
  imports Main "HOL-Library.Word" "HOL-Library.Monad_Syntax"
begin

text \<open>
  Shared vocabulary of the development: the machine integers the C++ code uses, byte
  buffers with checked accesses, the little-endian reading of bytes (the code targets
  little-endian Linux hosts), and the list, option and arithmetic facts the components
  share.

  A buffer is the list of the bytes of one C++ object. An access outside the object is
  undefined behaviour in C++; every access of the model goes through \<open>rd8\<close>, \<open>wr8\<close>,
  \<open>rdBlk\<close> or \<open>wrBlk\<close>, which return \<open>None\<close> there. A theorem that a routine returns
  \<open>Some\<close> therefore includes its memory safety.
\<close>

unbundle bit_operations_syntax

type_synonym u8 = "8 word"
type_synonym u16 = "16 word"
type_synonym u32 = "32 word"
type_synonym u64 = "64 word"
type_synonym i32 = "32 word"
type_synonym bytes = "u8 list"

named_theorems mem_simps \<open>evaluation of checked memory accesses inside their bounds\<close>

section \<open>Checked memory accesses\<close>

definition rd8 :: "bytes \<Rightarrow> nat \<Rightarrow> u8 option" where
  "rd8 b i = (if i < length b then Some (b ! i) else None)"

definition wr8 :: "bytes \<Rightarrow> nat \<Rightarrow> u8 \<Rightarrow> bytes option" where
  "wr8 b i v = (if i < length b then Some (b[i := v]) else None)"

definition splice :: "bytes \<Rightarrow> nat \<Rightarrow> bytes \<Rightarrow> bytes" where
  "splice b off xs = take off b @ xs @ drop (off + length xs) b"

definition rdBlk :: "bytes \<Rightarrow> nat \<Rightarrow> nat \<Rightarrow> bytes option" where
  "rdBlk b off n = (if off + n \<le> length b then Some (take n (drop off b)) else None)"

definition wrBlk :: "bytes \<Rightarrow> nat \<Rightarrow> bytes \<Rightarrow> bytes option" where
  "wrBlk b off xs = (if off + length xs \<le> length b then Some (splice b off xs) else None)"

text \<open>\<open>size_t\<close> subtraction: it wraps around below zero.\<close>

definition sizeSub :: "nat \<Rightarrow> nat \<Rightarrow> nat" where
  "sizeSub a b = (if b \<le> a then a - b else 2 ^ 64 - (b - a))"

lemma sizeSub_le [simp]: "b \<le> a \<Longrightarrow> sizeSub a b = a - b"
  by (simp add: sizeSub_def)

lemma rd8_Some [mem_simps]: "i < length b \<Longrightarrow> rd8 b i = Some (b ! i)"
  by (simp add: rd8_def)

lemma wr8_Some [mem_simps]: "i < length b \<Longrightarrow> wr8 b i v = Some (b[i := v])"
  by (simp add: wr8_def)

lemma rdBlk_Some [mem_simps]:
  "off + n \<le> length b \<Longrightarrow> rdBlk b off n = Some (take n (drop off b))"
  by (simp add: rdBlk_def)

lemma wrBlk_Some [mem_simps]:
  "off + length xs \<le> length b \<Longrightarrow> wrBlk b off xs = Some (splice b off xs)"
  by (simp add: wrBlk_def)

lemma rdBlk_None: "length b < off + n \<Longrightarrow> rdBlk b off n = None"
  by (simp add: rdBlk_def)

lemma wrBlk_None: "length b < off + length xs \<Longrightarrow> wrBlk b off xs = None"
  by (simp add: wrBlk_def)

lemma wr8_length: "wr8 b i v = Some b' \<Longrightarrow> length b' = length b"
  by (auto simp: wr8_def split: if_splits)

lemma length_splice [simp]:
  "off + length xs \<le> length b \<Longrightarrow> length (splice b off xs) = length b"
  by (simp add: splice_def)

lemma wrBlk_length: "wrBlk b off xs = Some b' \<Longrightarrow> length b' = length b"
  by (auto simp: wrBlk_def split: if_splits)

lemma nth_splice:
  "off + length xs \<le> length b \<Longrightarrow> i < length b \<Longrightarrow>
   splice b off xs ! i = (if off \<le> i \<and> i < off + length xs then xs ! (i - off) else b ! i)"
  by (auto simp: splice_def nth_append)

lemma take_splice_0: "take (length xs) (splice b 0 xs) = xs"
  by (simp add: splice_def)

lemma splice_0: "splice b 0 xs = xs @ drop (length xs) b"
  by (simp add: splice_def)

lemma splice_append:
  "length p = off \<Longrightarrow> splice (p @ q) off xs = p @ xs @ drop (length xs) q"
  by (simp add: splice_def)

section \<open>Little-endian bytes\<close>

text \<open>
  \<open>leNat\<close> reads bytes as the number a little-endian load gives, \<open>leWord\<close> as the machine
  word of that load; \<open>leBytes n x\<close> are the \<open>n\<close> low bytes of a word in memory order.
\<close>

fun leNat :: "bytes \<Rightarrow> nat" where
  "leNat [] = 0"
| "leNat (b # bs) = unat b + 256 * leNat bs"

fun leBytes :: "nat \<Rightarrow> 'a::len word \<Rightarrow> bytes" where
  "leBytes 0 x = []"
| "leBytes (Suc n) x = ucast x # leBytes n (drop_bit 8 x)"

fun leWord :: "bytes \<Rightarrow> 'a::len word" where
  "leWord [] = 0"
| "leWord (b # bs) = ucast b + 256 * leWord bs"

lemma leWord_leNat: "leWord bs = word_of_nat (leNat bs)"
  by (induction bs) simp_all

lemma length_leBytes [simp]: "length (leBytes n x) = n"
  by (induction n x rule: leBytes.induct) auto

lemma unat_u8_less [simp]: "unat (b :: u8) < 256"
  using unsigned_less [of b] by simp

lemma leNat_less: "leNat bs < 256 ^ length bs"
proof (induction bs)
  case (Cons b bs)
  have "unat b < 256" by simp
  moreover have "leNat bs + 1 \<le> 256 ^ length bs" using Cons by simp
  ultimately have "unat b + 256 * leNat bs < 256 * 256 ^ length bs" by linarith
  then show ?case by simp
qed simp

lemma leNat_append: "leNat (xs @ ys) = leNat xs + 256 ^ length xs * leNat ys"
  by (induction xs) (auto simp: algebra_simps)

lemma unat_ucast_mod:
  "unat (ucast (x :: 'a::len word) :: 'b::len word) = unat x mod 2 ^ LENGTH('b)"
  unfolding unsigned_ucast_eq unsigned_take_bit_eq by (rule take_bit_eq_mod)

lemma unat_ucast_up:
  "LENGTH('a) \<le> LENGTH('b) \<Longrightarrow>
   unat (ucast (x :: 'a::len word) :: 'b::len word) = unat x"
proof -
  assume "LENGTH('a) \<le> LENGTH('b)"
  then have "(2::nat) ^ LENGTH('a) \<le> 2 ^ LENGTH('b)" by (intro power_increasing) auto
  moreover have "unat x < 2 ^ LENGTH('a)" by (rule unsigned_less)
  ultimately show ?thesis unfolding unat_ucast_mod by (intro mod_less) linarith
qed

lemma unat_drop_bit_div: "unat (drop_bit n (x :: 'a::len word)) = unat x div 2 ^ n"
  unfolding unat_drop_bit_eq by (rule drop_bit_eq_div)

lemma unat_take_bit_mod: "unat (take_bit n (x :: 'a::len word)) = unat x mod 2 ^ n"
  unfolding unsigned_take_bit_eq by (rule take_bit_eq_mod)

lemma unat_ucast_u8: "unat (ucast (x :: 'a::len word) :: u8) = unat x mod 256"
  by (simp add: unat_ucast_mod)

lemma unat_drop_bit8: "unat (drop_bit 8 (x :: 'a::len word)) = unat x div 256"
  using unat_drop_bit_div [of 8 x] by simp

lemma leNat_leBytes: "leNat (leBytes n x) = unat x mod 256 ^ n"
proof (induction n x rule: leBytes.induct)
  case (2 n x)
  have "leNat (leBytes (Suc n) x) = unat x mod 256 + 256 * ((unat x div 256) mod 256 ^ n)"
    using 2 by (simp add: unat_ucast_u8 unat_drop_bit8)
  also have "\<dots> = unat x mod (256 * 256 ^ n)"
    by (simp add: mod_mult2_eq)
  finally show ?case by simp
qed simp

lemma unat_leNat:
  "8 * length bs \<le> LENGTH('a) \<Longrightarrow> unat (word_of_nat (leNat bs) :: 'a::len word) = leNat bs"
proof -
  assume "8 * length bs \<le> LENGTH('a)"
  then have "(2::nat) ^ (8 * length bs) \<le> 2 ^ LENGTH('a)" by (intro power_increasing) auto
  then have "(256::nat) ^ length bs \<le> 2 ^ LENGTH('a)" by (simp add: power_mult)
  with leNat_less [of bs] have "leNat bs < 2 ^ LENGTH('a)" by linarith
  then show ?thesis by (simp add: unat_of_nat)
qed

lemma leBytes_leNat:
  "8 * length bs \<le> LENGTH('a) \<Longrightarrow>
   leBytes (length bs) (word_of_nat (leNat bs) :: 'a::len word) = bs"
proof (induction bs)
  case (Cons b bs)
  have "unat (word_of_nat (leNat (b # bs)) :: 'a word) = leNat (b # bs)"
    by (rule unat_leNat [OF Cons.prems])
  moreover have "unat (word_of_nat (leNat bs) :: 'a word) = leNat bs"
    using Cons.prems by (intro unat_leNat) simp
  ultimately have "drop_bit 8 (word_of_nat (leNat (b # bs)) :: 'a word) = word_of_nat (leNat bs)"
    and "ucast (word_of_nat (leNat (b # bs)) :: 'a word) = b"
    by (auto simp: word_unat_eq_iff unat_drop_bit8 unat_ucast_u8)
  with Cons show ?case by simp
qed simp

section \<open>Big-endian words of a byte pair\<close>

definition be16 :: "u8 \<Rightarrow> u8 \<Rightarrow> nat" where
  "be16 hi lo = 256 * unat hi + unat lo"

lemma be16_less [simp]: "be16 hi lo < 65536"
proof -
  have "unat hi < 256" "unat lo < 256" by simp_all
  then show ?thesis unfolding be16_def by linarith
qed

text \<open>The two bytes of a 16-bit word in network order.\<close>

definition hiByte :: "u16 \<Rightarrow> u8" where
  "hiByte v = ucast (drop_bit 8 v)"

definition loByte :: "u16 \<Rightarrow> u8" where
  "loByte v = ucast v"

lemma be16_bytes [simp]: "be16 (hiByte v) (loByte v) = unat v"
proof -
  have "unat v < 2 ^ LENGTH(16)" by (rule unsigned_less)
  then have "unat v div 256 < 256" by (simp add: div_less_iff_less_mult)
  then show ?thesis
    by (simp add: be16_def hiByte_def loByte_def unat_ucast_u8 unat_drop_bit8)
qed

text \<open>The word of four bytes in network order.\<close>

definition word32 :: "u8 \<Rightarrow> u8 \<Rightarrow> u8 \<Rightarrow> u8 \<Rightarrow> u32" where
  "word32 a b c d =
     push_bit 24 (ucast a) OR push_bit 16 (ucast b) OR push_bit 8 (ucast c) OR ucast d"

lemma word32_bytes [simp]:
  "word32 (ucast (drop_bit 24 v)) (ucast (drop_bit 16 v)) (ucast (drop_bit 8 v)) (ucast v) = v"
proof (rule bit_eqI)
  fix n
  show "bit (word32 (ucast (drop_bit 24 v)) (ucast (drop_bit 16 v)) (ucast (drop_bit 8 v))
          (ucast v)) n = bit v n"
    by (cases "16 \<le> n"; cases "24 \<le> n") (auto simp: word32_def bit_simps dest: bit_imp_le_length)
qed

lemma unat_not_u16: "unat (NOT (v :: u16)) = 65535 - unat v"
proof -
  have "NOT v = 65535 - v" by (simp add: not_eq_complement)
  moreover have "unat v < 2 ^ LENGTH(16)" by (rule unsigned_less)
  ultimately show ?thesis by (simp add: unat_sub_if_size word_size)
qed

section \<open>Option monad\<close>

lemma bind_Some_iff:
  "Option.bind m f = Some y \<longleftrightarrow> (\<exists>x. m = Some x \<and> f x = Some y)"
  by (cases m) auto

lemma list_all_update: "list_all P xs \<Longrightarrow> P x \<Longrightarrow> list_all P (xs[i := x])"
  by (cases "i < length xs") (auto simp: list_all_length nth_list_update list_update_beyond)

lemma update_pair_twice:
  "xs[k := a, Suc k := b, k := x, Suc k := y] = xs[k := x, Suc k := y]"
  by (simp add: list_update_swap [of "Suc k" k])

lemma list_update_append_eq:
  "length p = i \<Longrightarrow> (p @ x # q)[i := v] = p @ v # q"
  by (simp add: list_update_append)

end
