(* ===== verification/Platform.thy ===== *)
theory Platform
  imports Prelude
begin

text \<open>
  What the program uses from outside the repository, as parameters.

  \<^item> \<open>lib\<close>: the string operations of the \<^verbatim>\<open>std\<close> library (\<^verbatim>\<open>StringView\<close>) and the address
    parsers of the C library. A \<^verbatim>\<open>StringView\<close> is the list of its bytes; its length, its
    characters and emptiness are the list's.
  \<^item> \<open>map_ops\<close>: the maps \<^verbatim>\<open>SymbolMap\<close> and \<^verbatim>\<open>IntMap\<close>. A map stores C++ pointers or
    views; pointers to objects of the pool are indices into the list of the objects made.
  \<^verbatim>\<open>Vector\<close> is used as a growing array only (\<open>pushBack\<close>, \<open>length\<close>, indexing) and is a
  list; \<^verbatim>\<open>ObjPool\<close> only allocates and is invisible.

  The laws the code relies on are the predicates \<open>splitOk\<close>, \<open>affixOk\<close>, \<open>stripOk\<close> and
  \<open>mapOk\<close>; a theorem that needs one names it as a hypothesis. The definitions \<open>exLib\<close>
  and \<open>exMap\<close> are concrete instances that satisfy them, used by the witnesses.
\<close>

section \<open>Socket addresses\<close>

text \<open>
  A \<^verbatim>\<open>sockaddr_storage\<close> that holds an IPv4 address, an IPv6 address or something else.
  \<open>Sin\<close> has \<open>s_addr\<close> as the 32-bit word in memory (network byte order read natively);
  \<open>Sin6\<close> the flow label word that sits at the same offset in \<^verbatim>\<open>sockaddr_in6\<close>. The last
  constructor keeps the family and the word at that offset.
\<close>

datatype sockaddr =
    Sin (sinPort: u16) (sAddr: u32)
  | Sin6 (sin6Port: u16) (sin6Flow: u32) (sin6Addr: bytes)
  | SaOther (saFamily: u16) (saWord: u32)

definition AF_INET :: u16 where "AF_INET = 2"
definition AF_INET6 :: u16 where "AF_INET6 = 10"

fun sa_family :: "sockaddr \<Rightarrow> u16" where
  "sa_family (Sin _ _) = AF_INET"
| "sa_family (Sin6 _ _ _) = AF_INET6"
| "sa_family (SaOther f _) = f"

text \<open>
  \<^verbatim>\<open>((const sockaddr_in*)sa)->sin_addr.s_addr\<close>: the cast does not look at the family.
\<close>

fun sinAddrOf :: "sockaddr \<Rightarrow> u32" where
  "sinAddrOf (Sin _ a) = a"
| "sinAddrOf (Sin6 _ flow _) = flow"
| "sinAddrOf (SaOther _ w) = w"

section \<open>Strings and address parsers\<close>

record lib =
  split :: "string \<Rightarrow> char \<Rightarrow> (string \<times> string) option"
  stripSpace :: "string \<Rightarrow> string"
  suffix :: "string \<Rightarrow> nat \<Rightarrow> string"
  prefix :: "string \<Rightarrow> nat \<Rightarrow> string"
  stou :: "string \<Rightarrow> u64"
  inetPton4 :: "string \<Rightarrow> bytes option"
  getaddrinfo :: "string \<Rightarrow> string \<Rightarrow> sockaddr option"

text \<open>\<open>split\<close> cuts at the first separator, if there is one.\<close>

definition splitOk :: "lib \<Rightarrow> bool" where
  "splitOk L \<longleftrightarrow> (\<forall>s c. case split L s c of
      None \<Rightarrow> c \<notin> set s
    | Some (a, b) \<Rightarrow> s = a @ c # b \<and> c \<notin> set a)"

definition affixOk :: "lib \<Rightarrow> bool" where
  "affixOk L \<longleftrightarrow> (\<forall>s n. n \<le> length s \<longrightarrow>
      suffix L s n = drop (length s - n) s \<and> prefix L s n = take n s)"

definition isSpace :: "char \<Rightarrow> bool" where
  "isSpace c \<longleftrightarrow> c \<in> {CHR '' '', CHR 0x09, CHR 0x0A, CHR 0x0D}"

text \<open>\<open>stripSpace\<close> removes white space at both ends and nothing else.\<close>

definition stripOk :: "lib \<Rightarrow> bool" where
  "stripOk L \<longleftrightarrow> (\<forall>s. stripSpace L s =
      rev (dropWhile isSpace (rev (dropWhile isSpace s))))"

lemma splitOk_None: "splitOk L \<Longrightarrow> split L s c = None \<Longrightarrow> c \<notin> set s"
  unfolding splitOk_def by (drule spec [of _ s], drule spec [of _ c]) simp

lemma splitOk_Some: "splitOk L \<Longrightarrow> split L s c = Some (a, b) \<Longrightarrow> s = a @ c # b \<and> c \<notin> set a"
  unfolding splitOk_def by (drule spec [of _ s], drule spec [of _ c]) simp

lemma splitOk_at: "splitOk L \<Longrightarrow> c \<notin> set a \<Longrightarrow> split L (a @ c # b) c = Some (a, b)"
proof (cases "split L (a @ c # b) c")
  case None
  assume "splitOk L"
  from splitOk_None [OF this None] show ?thesis by simp
next
  case (Some ab)
  assume ok: "splitOk L" "c \<notin> set a"
  obtain a' b' where ab: "ab = (a', b')" by (cases ab)
  have "a @ c # b = a' @ c # b'" "c \<notin> set a'"
    using splitOk_Some [OF ok(1), of "a @ c # b"] Some ab by auto
  with ok(2) have "a' = a \<and> b' = b"
  proof (induction a arbitrary: a')
    case Nil
    then show ?case by (cases a') auto
  next
    case (Cons x xs)
    then show ?case by (cases a') auto
  qed
  with Some ab show ?thesis by simp
qed

lemma splitOk_notin: "splitOk L \<Longrightarrow> c \<notin> set s \<Longrightarrow> split L s c = None"
proof (rule ccontr)
  assume ok: "splitOk L" "c \<notin> set s" and "split L s c \<noteq> None"
  then obtain a b where "split L s c = Some (a, b)" by auto
  from splitOk_Some [OF ok(1) this] ok(2) show False by simp
qed

lemma splitOk_shrinks: "splitOk L \<Longrightarrow> split L s c = Some (a, b) \<Longrightarrow> length b < length s"
  by (drule (1) splitOk_Some) simp

lemma stripOk_id:
  "stripOk L \<Longrightarrow> s = [] \<or> \<not> isSpace (hd s) \<and> \<not> isSpace (last s) \<Longrightarrow> stripSpace L s = s"
proof -
  assume ok: "stripOk L" and s: "s = [] \<or> \<not> isSpace (hd s) \<and> \<not> isSpace (last s)"
  have "dropWhile isSpace s = s" using s by (cases s) auto
  moreover have "dropWhile isSpace (rev s) = rev s" using s by (cases "rev s") (auto simp: last_rev)
  ultimately show ?thesis using ok by (simp add: stripOk_def)
qed

section \<open>Maps\<close>

record ('k, 'm, 'v) map_ops =
  mEmpty :: 'm
  mFind :: "'m \<Rightarrow> 'k \<Rightarrow> 'v option"
  mInsert :: "'m \<Rightarrow> 'k \<Rightarrow> 'v \<Rightarrow> 'm"

definition mapOk :: "('k, 'm, 'v) map_ops \<Rightarrow> bool" where
  "mapOk M \<longleftrightarrow> (\<forall>k. mFind M (mEmpty M) k = None) \<and>
     (\<forall>m k v k'. mFind M (mInsert M m k v) k' = (if k' = k then Some v else mFind M m k'))"

lemma mapOk_empty: "mapOk M \<Longrightarrow> mFind M (mEmpty M) k = None"
  by (simp add: mapOk_def)

lemma mapOk_insert:
  "mapOk M \<Longrightarrow> mFind M (mInsert M m k v) k' = (if k' = k then Some v else mFind M m k')"
  by (simp add: mapOk_def)

definition exMap :: "('k, 'k \<Rightarrow> 'v option, 'v) map_ops" where
  "exMap = \<lparr>mEmpty = (\<lambda>_. None), mFind = (\<lambda>m k. m k), mInsert = (\<lambda>m k v. m(k := Some v))\<rparr>"

lemma mapOk_exMap [simp]: "mapOk exMap"
  by (simp add: mapOk_def exMap_def)

section \<open>Errors\<close>

text \<open>
  The exceptions the code throws, with the messages it builds. \<open>VerifyFailed\<close> is a failed
  \<^verbatim>\<open>STD_VERIFY\<close>; \<open>ErrnoError\<close> is \<^verbatim>\<open>Errno(e).raise(msg)\<close>.
\<close>

datatype error =
    AddrError string
  | IniError string
  | PeerError string
  | ConfigError string
  | VerifyFailed
  | ErrnoError int string

definition ebind :: "error + 'a \<Rightarrow> ('a \<Rightarrow> error + 'b) \<Rightarrow> error + 'b" where
  "ebind m f = (case m of Inl e \<Rightarrow> Inl e | Inr x \<Rightarrow> f x)"

lemma ebind_simps [simp]: "ebind (Inl e) f = Inl e" "ebind (Inr x) f = f x"
  by (simp_all add: ebind_def)

lemma ebind_Inr_iff: "ebind m f = Inr y \<longleftrightarrow> (\<exists>x. m = Inr x \<and> f x = Inr y)"
  by (cases m) auto

text \<open>Run \<open>f\<close> on each element in order, stopping at the first exception.\<close>

fun traverse :: "('a \<Rightarrow> error + 'b) \<Rightarrow> 'a list \<Rightarrow> error + 'b list" where
  "traverse f [] = Inr []"
| "traverse f (x # xs) = ebind (f x) (\<lambda>y. ebind (traverse f xs) (\<lambda>ys. Inr (y # ys)))"

lemma traverse_Inr_length: "traverse f xs = Inr ys \<Longrightarrow> length ys = length xs"
  by (induction xs arbitrary: ys) (auto simp: ebind_Inr_iff)

lemma traverse_nth: "traverse f xs = Inr ys \<Longrightarrow> i < length xs \<Longrightarrow> f (xs ! i) = Inr (ys ! i)"
  by (induction xs arbitrary: ys i) (auto simp: ebind_Inr_iff nth_Cons split: nat.splits)

lemma traverse_cong [fundef_cong]:
  "xs = ys \<Longrightarrow> (\<And>x. x \<in> set ys \<Longrightarrow> f x = g x) \<Longrightarrow> traverse f xs = traverse g ys"
  by (induction xs arbitrary: ys) (auto simp: ebind_def split: sum.splits)

text \<open>A C++ pointer to the \<open>i\<close>-th object made; \<open>None\<close> is a wild pointer.\<close>

definition deref :: "'a list \<Rightarrow> nat \<Rightarrow> 'a option" where
  "deref heap p = (if p < length heap then Some (heap ! p) else None)"

lemma deref_Some [simp]: "p < length heap \<Longrightarrow> deref heap p = Some (heap ! p)"
  by (simp add: deref_def)

text \<open>A C string ends at its first zero byte.\<close>

definition cstr :: "string \<Rightarrow> string" where
  "cstr s = takeWhile (\<lambda>c. c \<noteq> CHR 0x00) s"

section \<open>A concrete instance of the string operations\<close>

definition exSplit :: "string \<Rightarrow> char \<Rightarrow> (string \<times> string) option" where
  "exSplit s c =
     (if c \<in> set s then Some (takeWhile (\<lambda>x. x \<noteq> c) s, tl (dropWhile (\<lambda>x. x \<noteq> c) s)) else None)"

fun decimal :: "nat \<Rightarrow> string \<Rightarrow> nat" where
  "decimal n [] = n"
| "decimal n (c # cs) = decimal (10 * n + (of_char c - 48)) cs"

fun fieldsBy :: "char \<Rightarrow> string \<Rightarrow> string list" where
  "fieldsBy sep [] = [[]]"
| "fieldsBy sep (c # cs) =
     (if c = sep then [] # fieldsBy sep cs
      else case fieldsBy sep cs of [] \<Rightarrow> [[c]] | p # ps \<Rightarrow> (c # p) # ps)"

definition isDigit :: "char \<Rightarrow> bool" where
  "isDigit c \<longleftrightarrow> c \<in> set ''0123456789''"

definition exInet :: "string \<Rightarrow> bytes option" where
  "exInet s =
     (let ps = fieldsBy (CHR ''.'') s
      in if length ps = 4 \<and> list_all (\<lambda>p. p \<noteq> [] \<and> list_all isDigit p \<and> decimal 0 p < 256) ps
         then Some (map (\<lambda>p. word_of_nat (decimal 0 p)) ps) else None)"

definition exLib :: lib where
  "exLib = \<lparr>
     split = exSplit,
     stripSpace = (\<lambda>s. rev (dropWhile isSpace (rev (dropWhile isSpace s)))),
     suffix = (\<lambda>s n. drop (length s - n) s),
     prefix = (\<lambda>s n. take n s),
     stou = (\<lambda>s. word_of_nat (decimal 0 s)),
     inetPton4 = exInet,
     getaddrinfo = (\<lambda>h p. map_option (\<lambda>b. Sin (word_of_nat (decimal 0 p)) (leWord b)) (exInet h))\<rparr>"

lemma splitOk_exLib [simp]: "splitOk exLib"
proof -
  have "s = takeWhile (\<lambda>x. x \<noteq> c) s @ c # tl (dropWhile (\<lambda>x. x \<noteq> c) s)" if "c \<in> set s"
    for s and c :: char
    using that by (induction s) auto
  moreover have "c \<notin> set (takeWhile (\<lambda>x. x \<noteq> c) s)" for s and c :: char
    using set_takeWhileD by fastforce
  ultimately show ?thesis by (simp add: splitOk_def exLib_def exSplit_def)
qed

lemma stripOk_exLib [simp]: "stripOk exLib"
  by (simp add: stripOk_def exLib_def)

lemma affixOk_exLib [simp]: "affixOk exLib"
  by (simp add: affixOk_def exLib_def)

end
