(* ===== verification/Addr.thy ===== *)
theory Addr
  imports Platform
begin

text \<open>
  Model of \<^verbatim>\<open>addr.h\<close> and \<^verbatim>\<open>addr.cpp\<close>: parsing of IPv4 addresses, CIDR prefixes,
  \<open>ip:port\<close> endpoints and comma-separated lists.
\<close>

section \<open>The exception class\<close>

text \<open>
  \<^verbatim>\<open>AddrError\<close>, and alike \<^verbatim>\<open>IniError\<close>, \<^verbatim>\<open>PeerError\<close> and \<^verbatim>\<open>ConfigError\<close>, keeps its
  message and, once asked, the full description.
\<close>

record exn =
  exnMsg :: string
  exnFull :: string

definition describe :: "string \<Rightarrow> exn \<Rightarrow> string \<times> exn" where
  "describe tag e =
     (if exnFull e \<noteq> [] then (exnFull e, e)
      else let e = e\<lparr>exnFull := tag @ exnMsg e\<rparr> in (exnFull e, e))"

definition AddrError_description :: "exn \<Rightarrow> string \<times> exn" where
  "AddrError_description = describe ''addr: ''"

definition new_AddrError :: "string \<Rightarrow> exn" where
  "new_AddrError msg = \<lparr>exnMsg = msg, exnFull = []\<rparr>"

definition raiseAddr :: "string \<Rightarrow> error + 'a" where "raiseAddr msg = Inl (AddrError msg)"

lemma raiseAddr_Inl [simp]: "raiseAddr msg = Inl (AddrError msg)" by (simp add: raiseAddr_def)

section \<open>Parsers\<close>

text \<open>\<^verbatim>\<open>toCStr<N>\<close>: copies into a buffer of \<open>N\<close> bytes and terminates it.\<close>

definition toCStr :: "nat \<Rightarrow> string \<Rightarrow> error + string" where
  "toCStr N s = (if length s < N then Inr (s @ [CHR 0x00]) else Inl VerifyFailed)"

definition bswap32 :: "u32 \<Rightarrow> u32" where
  "bswap32 x = leWord (rev (leBytes 4 x))"

definition ntohl :: "u32 \<Rightarrow> u32" where "ntohl x = bswap32 x"
definition htonl :: "u32 \<Rightarrow> u32" where "htonl x = bswap32 x"

definition parseIPv4 :: "lib \<Rightarrow> string \<Rightarrow> error + u32" where
  "parseIPv4 L s = ebind (toCStr 16 s) (\<lambda>buf.
     case inetPton4 L (cstr buf) of
       None \<Rightarrow> raiseAddr (''bad ipv4: '' @ s)
     | Some a \<Rightarrow> Inr (ntohl (leWord a)))"

definition parseCIDR :: "lib \<Rightarrow> string \<Rightarrow> error + (u32 \<times> u8)" where
  "parseCIDR L s =
     (case split L s (CHR ''/'') of
        Some (before, after) \<Rightarrow>
          ebind (parseIPv4 L before) (\<lambda>addr. Inr (addr, ucast (stou L after)))
      | None \<Rightarrow> ebind (parseIPv4 L s) (\<lambda>addr. Inr (addr, 32)))"

definition INET6_ADDRSTRLEN :: nat where "INET6_ADDRSTRLEN = 46"

text \<open>The host and port parts of an endpoint.\<close>

definition splitHostPort :: "lib \<Rightarrow> string \<Rightarrow> error + (string \<times> string)" where
  "splitHostPort L s =
     (if s \<noteq> [] \<and> s ! 0 = CHR ''[''
      then let body = suffix L s (length s - 1)
           in case split L body (CHR '']'') of
                None \<Rightarrow> raiseAddr (''expected [ipv6]:port: '' @ s)
              | Some (ipPart, portPart) \<Rightarrow>
                  if portPart = [] \<or> portPart ! 0 \<noteq> CHR '':''
                  then raiseAddr (''expected [ipv6]:port: '' @ s)
                  else Inr (ipPart, suffix L portPart (length portPart - 1))
      else case split L s (CHR '':'') of
             None \<Rightarrow> raiseAddr (''expected ip:port: '' @ s)
           | Some (ipPart, portPart) \<Rightarrow> Inr (ipPart, portPart))"

definition parseSockAddr :: "lib \<Rightarrow> string \<Rightarrow> error + sockaddr" where
  "parseSockAddr L s = ebind (splitHostPort L s) (\<lambda>(ipPart, portPart).
     ebind (toCStr INET6_ADDRSTRLEN ipPart) (\<lambda>host.
     ebind (toCStr 8 portPart) (\<lambda>serv.
     case getaddrinfo L (cstr host) (cstr serv) of
       None \<Rightarrow> raiseAddr (''bad ip:port: '' @ s)
     | Some sa \<Rightarrow> Inr sa)))"

text \<open>The size of the structure for a family: \<^verbatim>\<open>sockaddr_in\<close>, \<^verbatim>\<open>sockaddr_in6\<close>, storage.\<close>

definition addrLen :: "sockaddr \<Rightarrow> u32" where
  "addrLen sa =
     (if sa_family sa = AF_INET then 16
      else if sa_family sa = AF_INET6 then 28
      else 128)"

section \<open>Comma-separated lists\<close>

text \<open>
  \<open>forEachItem\<close> calls \<open>cb\<close> on every non-empty item. The callback may throw, which ends the
  loop; \<open>st\<close> is what the callback has accumulated. \<open>None\<close> is a loop that never ends.
\<close>

definition nextItem :: "lib \<Rightarrow> string \<Rightarrow> string \<times> string" where
  "nextItem L s = (case split L s (CHR '','') of None \<Rightarrow> (s, []) | Some (item, rest) \<Rightarrow> (item, rest))"

partial_function (option) forEachItem ::
  "lib \<Rightarrow> (string \<Rightarrow> 's \<Rightarrow> error + 's) \<Rightarrow> string \<Rightarrow> 's \<Rightarrow> (error + 's) option"
where
  "forEachItem L cb s st =
     (if s = [] then Some (Inr st)
      else (case (if stripSpace L (fst (nextItem L s)) \<noteq> []
                  then cb (stripSpace L (fst (nextItem L s))) st else Inr st) of
              Inl e \<Rightarrow> Some (Inl e)
            | Inr st' \<Rightarrow> forEachItem L cb (snd (nextItem L s)) st'))"

declare forEachItem.simps [code]

section \<open>forEachItem visits the items of the list\<close>

text \<open>The items: the fields between commas, stripped, without the empty ones.\<close>

definition items :: "lib \<Rightarrow> string \<Rightarrow> string list" where
  "items L s = filter (\<lambda>x. x \<noteq> []) (map (stripSpace L) (fieldsBy (CHR '','') s))"

fun foldItems :: "('x \<Rightarrow> 's \<Rightarrow> error + 's) \<Rightarrow> 'x list \<Rightarrow> 's \<Rightarrow> error + 's" where
  "foldItems cb [] st = Inr st"
| "foldItems cb (x # xs) st = ebind (cb x st) (foldItems cb xs)"

lemma fieldsBy_notin: "c \<notin> set s \<Longrightarrow> fieldsBy c s = [s]"
  by (induction s) auto

lemma fieldsBy_at: "c \<notin> set a \<Longrightarrow> fieldsBy c (a @ c # b) = a # fieldsBy c b"
  by (induction a) (auto split: list.splits)

lemma stripOk_Nil: "stripOk L \<Longrightarrow> stripSpace L [] = []"
  by (simp add: stripOk_def)

lemma items_next:
  assumes "splitOk L" and "stripOk L"
  shows "items L s = filter (\<lambda>x. x \<noteq> []) [stripSpace L (fst (nextItem L s))]
           @ items L (snd (nextItem L s))"
proof (cases "split L s (CHR '','')")
  case None
  from splitOk_None [OF assms(1) this] show ?thesis
    by (simp add: items_def nextItem_def None fieldsBy_notin stripOk_Nil [OF assms(2)])
next
  case (Some ab)
  obtain a b where ab: "ab = (a, b)" by (cases ab)
  have nxt: "nextItem L s = (a, b)" by (simp add: nextItem_def Some ab)
  have "s = a @ CHR '','' # b" "CHR '','' \<notin> set a"
    using splitOk_Some [OF assms(1)] Some ab by auto
  then have "fieldsBy (CHR '','') s = a # fieldsBy (CHR '','') b" by (simp add: fieldsBy_at)
  then show ?thesis by (simp add: items_def nxt)
qed

lemma nextItem_shrinks: "splitOk L \<Longrightarrow> s \<noteq> [] \<Longrightarrow> length (snd (nextItem L s)) < length s"
  by (cases "split L s (CHR '','')") (auto simp: nextItem_def dest: splitOk_shrinks)

text \<open>
  \<open>forEachItem\<close> terminates on every string and calls the callback on exactly
  the non-empty comma-separated items, stripped of white space, in order, stopping at the
  first exception.
\<close>

lemma forEachItem_items:
  assumes "splitOk L" and "stripOk L"
  shows "forEachItem L cb s st = Some (foldItems cb (items L s) st)"
proof (induction "length s" arbitrary: s st rule: less_induct)
  case less
  show ?case
  proof (cases "s = []")
    case True
    then show ?thesis
      by (subst forEachItem.simps) (simp add: items_def stripOk_Nil [OF assms(2)])
  next
    case False
    note IH = less [OF nextItem_shrinks [OF assms(1) False]]
    show ?thesis
      using False IH items_next [OF assms, of s]
      by (subst forEachItem.simps) (auto simp: ebind_def split: sum.splits)
  qed
qed

lemma forEachItem_items_witness:
  "forEachItem exLib (\<lambda>x xs. Inr (xs @ [x])) ''a, bc,,d ,'' []
     = Some (Inr [''a'', ''bc'', ''d''])"
  by (subst forEachItem_items) (simp, simp, simp add: items_def exLib_def isSpace_def)

section \<open>The parsers on every branch\<close>

lemma cstr_append: "CHR 0x00 \<notin> set s \<Longrightarrow> cstr (s @ [CHR 0x00]) = s"
  unfolding cstr_def by (subst takeWhile_append2) auto

text \<open>The value of an address, most significant byte first.\<close>

lemma unat_ntohl:
  "length b = 4 \<Longrightarrow> unat (ntohl (leWord b)) = leNat (rev b)"
proof -
  assume b: "length b = 4"
  then have "leBytes 4 (leWord b :: u32) = b"
    using leBytes_leNat [of b, where 'a = 32] by (simp add: leWord_leNat)
  then show ?thesis
    using b unat_leNat [of "rev b", where 'a = 32]
    by (simp add: ntohl_def bswap32_def leWord_leNat)
qed

lemma htonl_ntohl: "htonl (ntohl x) = x"
proof -
  have b: "leNat (leBytes 4 x) = unat x"
  proof -
    have "unat x < 2 ^ LENGTH(32)" by (rule unsigned_less)
    then show ?thesis by (simp add: leNat_leBytes)
  qed
  have "leBytes 4 (ntohl x) = rev (leBytes 4 x)"
    using leBytes_leNat [of "rev (leBytes 4 x)", where 'a = 32]
    by (simp add: ntohl_def bswap32_def leWord_leNat)
  then show ?thesis by (simp add: htonl_def bswap32_def leWord_leNat b)
qed

lemma parseIPv4_eq:
  "parseIPv4 L s =
    (if 16 \<le> length s then Inl VerifyFailed
     else case inetPton4 L (cstr s) of
            None \<Rightarrow> Inl (AddrError (''bad ipv4: '' @ s))
          | Some b \<Rightarrow> Inr (ntohl (leWord b)))"
proof -
  have "cstr (s @ [CHR 0x00]) = cstr s"
    unfolding cstr_def by (induction s) auto
  then show ?thesis by (simp cong: option.case_cong add: parseIPv4_def toCStr_def)
qed

end
