(* ===== verification/Ini.thy ===== *)
theory Ini
  imports Addr
begin

text \<open>
  Model of \<^verbatim>\<open>ini.h\<close> and \<^verbatim>\<open>ini.cpp\<close>: the INI parser. A section is its map and the list of
  its keys; the configuration maps a section name to a section. \<^verbatim>\<open>Section*\<close> pointers are
  indices into the list of the sections made. The parser is proved to implement a
  declarative reading of the file: entries are grouped by the header above them, the last
  value of a key wins, the key list keeps the order of first occurrences, and the first
  faulty line is the error.
\<close>

section \<open>Data\<close>

record 'm ini_section =
  secMap :: 'm
  secKeys :: "string list"

record ('c, 'm) ini_config =
  cfgMap :: 'c
  secs :: "'m ini_section list"

text \<open>The maps: \<open>M\<close> for the entries of a section, \<open>C\<close> for the sections.\<close>

type_synonym 'm sec_ops = "(string, 'm, string) map_ops"
type_synonym 'c cfg_ops = "(string, 'c, nat) map_ops"

definition IniError_description :: "exn \<Rightarrow> string \<times> exn" where
  "IniError_description = describe ''ini: ''"

definition new_IniError :: "string \<Rightarrow> exn" where
  "new_IniError msg = \<lparr>exnMsg = msg, exnFull = []\<rparr>"

definition raiseIni :: "string \<Rightarrow> error + 'a" where "raiseIni msg = Inl (IniError msg)"

lemma raiseIni_Inl [simp]: "raiseIni msg = Inl (IniError msg)" by (simp add: raiseIni_def)

text \<open>\<^verbatim>\<open>cfg->insert(name, pool)\<close>: makes an empty section and returns the pointer to it.\<close>

definition insertSection ::
  "'m sec_ops \<Rightarrow> 'c cfg_ops \<Rightarrow> string \<Rightarrow> ('c, 'm) ini_config \<Rightarrow> ('c, 'm) ini_config \<times> nat"
where
  "insertSection M C name cfg =
     (let p = length (secs cfg)
      in (cfg\<lparr>cfgMap := mInsert C (cfgMap cfg) name p,
              secs := secs cfg @ [\<lparr>secMap = mEmpty M, secKeys = []\<rparr>]\<rparr>, p))"

definition findSection ::
  "'c cfg_ops \<Rightarrow> ('c, 'm) ini_config \<Rightarrow> string \<Rightarrow> nat option"
where
  "findSection C cfg name = mFind C (cfgMap cfg) name"

text \<open>\<^verbatim>\<open>if (!sec->map.find(key)) sec->keys.pushBack(key); sec->map.insert(key, val)\<close>\<close>

definition addEntry ::
  "'m sec_ops \<Rightarrow> string \<Rightarrow> string \<Rightarrow> 'm ini_section \<Rightarrow> 'm ini_section"
where
  "addEntry M key val sec =
     (let sec = (if mFind M (secMap sec) key = None
                 then sec\<lparr>secKeys := secKeys sec @ [key]\<rparr> else sec)
      in sec\<lparr>secMap := mInsert M (secMap sec) key val\<rparr>)"

section \<open>The parser\<close>

text \<open>
  The body of the loop on a stripped line. \<open>None\<close> is undefined behaviour (a wild section
  pointer), \<open>Inl\<close> the exception, and the second component of the result the new \<open>sec\<close>.
\<close>

definition parseLine ::
  "lib \<Rightarrow> 'm sec_ops \<Rightarrow> 'c cfg_ops \<Rightarrow> string \<Rightarrow> ('c, 'm) ini_config \<Rightarrow> nat
    \<Rightarrow> (error + (('c, 'm) ini_config \<times> nat)) option"
where
  "parseLine L M C line cfg sec =
     (if line = [] \<or> line ! 0 = CHR ''#'' \<or> line ! 0 = CHR '';''
      then Some (Inr (cfg, sec))
      else if line ! 0 = CHR ''[''
      then if last line \<noteq> CHR '']''
           then Some (raiseIni (''bad section: '' @ line))
           else let name = stripSpace L
                     (prefix L (suffix L line (length line - 1)) (length line - 2))
                in case findSection C cfg name of
                     Some existing \<Rightarrow> Some (Inr (cfg, existing))
                   | None \<Rightarrow> Some (Inr (insertSection M C name cfg))
      else case split L line (CHR ''='') of
             None \<Rightarrow> Some (raiseIni (''missing '' @ [CHR 0x27, CHR ''='', CHR 0x27] @ '': '' @ line))
           | Some (key, val) \<Rightarrow>
               do { s \<leftarrow> deref (secs cfg) sec;
                    Some (Inr (cfg\<lparr>secs := (secs cfg)[sec :=
                      addEntry M (stripSpace L key) (stripSpace L val) s]\<rparr>, sec)) })"

definition nextLine :: "lib \<Rightarrow> string \<Rightarrow> string \<times> string" where
  "nextLine L s =
     (case split L s (CHR 0x0A) of None \<Rightarrow> (s, []) | Some (line, rest) \<Rightarrow> (line, rest))"

partial_function (option) parseLoop ::
  "lib \<Rightarrow> 'm sec_ops \<Rightarrow> 'c cfg_ops \<Rightarrow> string \<Rightarrow> ('c, 'm) ini_config \<Rightarrow> nat
    \<Rightarrow> (error + (('c, 'm) ini_config \<times> nat)) option"
where
  "parseLoop L M C src cfg sec =
     (if src = [] then Some (Inr (cfg, sec))
      else do {
        r \<leftarrow> parseLine L M C (stripSpace L (fst (nextLine L src))) cfg sec;
        (case r of Inl e \<Rightarrow> Some (Inl e)
         | Inr (cfg', sec') \<Rightarrow> parseLoop L M C (snd (nextLine L src)) cfg' sec') })"

declare parseLoop.simps [code]

definition parseConfig ::
  "lib \<Rightarrow> 'm sec_ops \<Rightarrow> 'c cfg_ops \<Rightarrow> string \<Rightarrow> (error + ('c, 'm) ini_config) option"
where
  "parseConfig L M C src =
     (let (cfg, sec) = insertSection M C [] \<lparr>cfgMap = mEmpty C, secs = []\<rparr>
      in map_option (map_sum id fst) (parseLoop L M C src cfg sec))"

section \<open>A declarative reading of a file\<close>

datatype item = Skip | Head string | Pair string string | Fault error

text \<open>What a stripped line says.\<close>

definition classify :: "lib \<Rightarrow> string \<Rightarrow> item" where
  "classify L line =
     (if line = [] \<or> hd line \<in> {CHR ''#'', CHR '';''} then Skip
      else if hd line = CHR ''[''
      then if last line = CHR '']'' then Head (stripSpace L (butlast (tl line)))
           else Fault (IniError (''bad section: '' @ line))
      else case split L line (CHR ''='') of
             None \<Rightarrow> Fault (IniError (''missing '' @ [CHR 0x27, CHR ''='', CHR 0x27] @ '': '' @ line))
           | Some (k, v) \<Rightarrow> Pair (stripSpace L k) (stripSpace L v))"

definition fileItems :: "lib \<Rightarrow> string \<Rightarrow> item list" where
  "fileItems L src = map (\<lambda>l. classify L (stripSpace L l)) (fieldsBy (CHR 0x0A) src)"

fun entries :: "string \<Rightarrow> item list \<Rightarrow> (string \<times> string \<times> string) list" where
  "entries cur [] = []"
| "entries cur (Head n # xs) = entries n xs"
| "entries cur (Pair k v # xs) = (cur, k, v) # entries cur xs"
| "entries cur (Skip # xs) = entries cur xs"
| "entries cur (Fault e # xs) = []"

fun headers :: "item list \<Rightarrow> string set" where
  "headers [] = {}"
| "headers (Head n # xs) = insert n (headers xs)"
| "headers (_ # xs) = headers xs"

fun firstFault :: "item list \<Rightarrow> error option" where
  "firstFault [] = None"
| "firstFault (Fault e # _) = Some e"
| "firstFault (_ # xs) = firstFault xs"

text \<open>The entries of one section, and the keys of an entry list in order of first use.\<close>

definition entriesOf :: "string \<Rightarrow> (string \<times> string \<times> string) list \<Rightarrow> (string \<times> string) list" where
  "entriesOf n es = map snd (filter (\<lambda>e. fst e = n) es)"

definition firstKeys :: "(string \<times> string) list \<Rightarrow> string list" where
  "firstKeys kvs = rev (remdups (rev (map fst kvs)))"

definition lastValue :: "(string \<times> string) list \<Rightarrow> string \<Rightarrow> string option" where
  "lastValue kvs = map_of (rev kvs)"

text \<open>A section holds exactly the given entries.\<close>

definition holds :: "'m sec_ops \<Rightarrow> 'm ini_section \<Rightarrow> (string \<times> string) list \<Rightarrow> bool" where
  "holds M s kvs \<longleftrightarrow> secKeys s = firstKeys kvs \<and> (\<forall>k. mFind M (secMap s) k = lastValue kvs k)"

text \<open>A configuration represents section names and entries.\<close>

definition represents ::
  "'m sec_ops \<Rightarrow> 'c cfg_ops \<Rightarrow> ('c, 'm) ini_config \<Rightarrow> string set
    \<Rightarrow> (string \<times> string \<times> string) list \<Rightarrow> bool"
where
  "represents M C cfg names es \<longleftrightarrow>
     (\<forall>n. case findSection C cfg n of
        None \<Rightarrow> n \<notin> names
      | Some p \<Rightarrow> n \<in> names \<and> p < length (secs cfg) \<and> holds M (secs cfg ! p) (entriesOf n es)) \<and>
     (\<forall>n n' p. findSection C cfg n = Some p \<longrightarrow> findSection C cfg n' = Some p \<longrightarrow> n = n') \<and>
     (\<forall>e\<in>set es. fst e \<in> names)"

section \<open>The parser implements the reading\<close>

lemma firstKeys_snoc:
  "firstKeys (kvs @ [(k, v)]) =
     (if k \<in> fst ` set kvs then firstKeys kvs else firstKeys kvs @ [k])"
  by (simp add: firstKeys_def)

lemma lastValue_snoc: "lastValue (kvs @ [(k, v)]) k' = (if k' = k then Some v else lastValue kvs k')"
  by (simp add: lastValue_def)

lemma lastValue_None: "lastValue kvs k = None \<longleftrightarrow> k \<notin> fst ` set kvs"
  by (simp add: lastValue_def map_of_eq_None_iff)

lemma set_firstKeys: "set (firstKeys kvs) = fst ` set kvs"
  by (simp add: firstKeys_def)

lemma distinct_firstKeys: "distinct (firstKeys kvs)"
  by (simp add: firstKeys_def)

lemma holds_addEntry:
  assumes "mapOk M" and "holds M s kvs"
  shows "holds M (addEntry M k v s) (kvs @ [(k, v)])"
proof -
  have "mFind M (secMap s) k' = lastValue kvs k'" for k' using assms(2) by (simp add: holds_def)
  moreover have "secKeys s = firstKeys kvs" using assms(2) by (simp add: holds_def)
  ultimately show ?thesis
    by (cases "k \<in> fst ` set kvs")
      (auto simp: holds_def addEntry_def Let_def firstKeys_snoc lastValue_snoc lastValue_None
        mapOk_insert [OF assms(1)])
qed

lemma holds_empty: "mapOk M \<Longrightarrow> holds M \<lparr>secMap = mEmpty M, secKeys = []\<rparr> []"
  by (simp add: holds_def firstKeys_def lastValue_def mapOk_empty)

lemma entriesOf_snoc:
  "entriesOf n (es @ [(m, k, v)]) = (if m = n then entriesOf n es @ [(k, v)] else entriesOf n es)"
  by (simp add: entriesOf_def)

lemma entriesOf_none: "\<forall>e\<in>set es. fst e \<noteq> n \<Longrightarrow> entriesOf n es = []"
  by (simp add: entriesOf_def filter_empty_conv)

lemma representsD:
  assumes "represents M C cfg names es" and "findSection C cfg n = Some p"
  shows "n \<in> names" "p < length (secs cfg)" "holds M (secs cfg ! p) (entriesOf n es)"
  using assms unfolding represents_def by (auto dest: spec [of _ n])

lemma represents_None:
  "represents M C cfg names es \<Longrightarrow> findSection C cfg n = None \<longleftrightarrow> n \<notin> names"
  unfolding represents_def by (drule conjunct1, drule spec [of _ n]) (auto split: option.splits)

lemma represents_inj:
  "represents M C cfg names es \<Longrightarrow> findSection C cfg n = Some p \<Longrightarrow> findSection C cfg n' = Some p
    \<Longrightarrow> n = n'"
  unfolding represents_def by blast

lemma represents_insert:
  assumes M: "mapOk M" and C: "mapOk C"
    and rep: "represents M C cfg names es" and new: "n \<notin> names"
  shows "represents M C (fst (insertSection M C n cfg)) (insert n names) es"
    and "findSection C (fst (insertSection M C n cfg)) n = Some (snd (insertSection M C n cfg))"
proof -
  let ?cfg = "fst (insertSection M C n cfg)"
  have find: "findSection C ?cfg m = (if m = n then Some (length (secs cfg)) else findSection C cfg m)"
    for m by (simp add: findSection_def insertSection_def Let_def mapOk_insert [OF C])
  have secs: "secs ?cfg = secs cfg @ [\<lparr>secMap = mEmpty M, secKeys = []\<rparr>]"
    by (simp add: insertSection_def Let_def)
  have none: "entriesOf n es = []"
    using rep new by (intro entriesOf_none) (auto simp: represents_def)
  have lt: "p < length (secs cfg)" if "findSection C cfg m = Some p" for m p
    using representsD(2) [OF rep that] .
  show "findSection C ?cfg n = Some (snd (insertSection M C n cfg))"
    by (simp add: find) (simp add: insertSection_def Let_def)
  have "case findSection C ?cfg m of None \<Rightarrow> m \<notin> insert n names
      | Some p \<Rightarrow> m \<in> insert n names \<and> p < length (secs ?cfg)
          \<and> holds M (secs ?cfg ! p) (entriesOf m es)" for m
  proof (cases "m = n")
    case True
    then show ?thesis by (simp add: find secs none holds_empty [OF M])
  next
    case False
    then show ?thesis
      using represents_None [OF rep, of m] representsD [OF rep, of m]
      by (auto simp: find secs nth_append split: option.splits)
  qed
  moreover have "m = m'" if "findSection C ?cfg m = Some p" "findSection C ?cfg m' = Some p" for m m' p
    using that lt represents_inj [OF rep]
    by (auto simp: find split: if_splits)
  moreover have "\<forall>e\<in>set es. fst e \<in> insert n names" using rep by (simp add: represents_def)
  ultimately show "represents M C ?cfg (insert n names) es"
    unfolding represents_def by blast
qed

lemma represents_addEntry:
  assumes M: "mapOk M" and rep: "represents M C cfg names es"
    and cur: "findSection C cfg n = Some sec"
  shows "represents M C (cfg\<lparr>secs := (secs cfg)[sec := addEntry M k v (secs cfg ! sec)]\<rparr>)
           names (es @ [(n, k, v)])"
proof -
  let ?cfg = "cfg\<lparr>secs := (secs cfg)[sec := addEntry M k v (secs cfg ! sec)]\<rparr>"
  have find: "findSection C ?cfg m = findSection C cfg m" for m by (simp add: findSection_def)
  note sec = representsD [OF rep cur]
  have "case findSection C ?cfg m of None \<Rightarrow> m \<notin> names
      | Some p \<Rightarrow> m \<in> names \<and> p < length (secs ?cfg)
          \<and> holds M (secs ?cfg ! p) (entriesOf m (es @ [(n, k, v)]))" for m
  proof (cases "m = n")
    case True
    then show ?thesis
      using sec cur by (simp add: find entriesOf_snoc holds_addEntry [OF M])
  next
    case False
    then have "findSection C cfg m \<noteq> Some sec"
      using represents_inj [OF rep _ cur, of m] by auto
    with False show ?thesis
      using represents_None [OF rep, of m] representsD [OF rep, of m]
      by (cases "findSection C cfg m") (simp_all add: find entriesOf_snoc)
  qed
  moreover have "m = m'" if "findSection C ?cfg m = Some p" "findSection C ?cfg m' = Some p" for m m' p
    using that represents_inj [OF rep] by (simp add: find)
  moreover have "\<forall>e\<in>set (es @ [(n, k, v)]). fst e \<in> names"
    using rep sec(1) by (simp add: represents_def)
  ultimately show ?thesis
    unfolding represents_def by blast
qed

lemma sectionName_butlast:
  assumes "affixOk L" and "line \<noteq> []" and "hd line \<noteq> last line"
  shows "prefix L (suffix L line (length line - 1)) (length line - 2) = butlast (tl line)"
proof -
  have len: "2 \<le> length line"
    using assms(2,3) by (cases line; cases "tl line") auto
  have "suffix L line (length line - 1) = drop 1 line"
    using assms(1) len by (simp add: affixOk_def)
  moreover have "prefix L (drop 1 line) (length line - 2) = take (length line - 2) (drop 1 line)"
    using assms(1) len by (simp add: affixOk_def)
  ultimately show ?thesis
    by (simp add: butlast_conv_take drop_Suc numeral_2_eq_2)
qed

text \<open>One line does what the reading of the line says.\<close>

lemma parseLine_classify:
  assumes L: "affixOk L" and M: "mapOk M" and C: "mapOk C"
    and rep: "represents M C cfg names es" and cur: "findSection C cfg n = Some sec"
  shows "case classify L line of
      Skip \<Rightarrow> parseLine L M C line cfg sec = Some (Inr (cfg, sec))
    | Fault e \<Rightarrow> parseLine L M C line cfg sec = Some (Inl e)
    | Head m \<Rightarrow> \<exists>cfg' sec'. parseLine L M C line cfg sec = Some (Inr (cfg', sec')) \<and>
        represents M C cfg' (insert m names) es \<and> findSection C cfg' m = Some sec'
    | Pair k v \<Rightarrow> \<exists>cfg'. parseLine L M C line cfg sec = Some (Inr (cfg', sec)) \<and>
        represents M C cfg' names (es @ [(n, k, v)]) \<and> findSection C cfg' n = Some sec"
proof (cases "classify L line")
  case (Head m)
  then have line: "line \<noteq> []" "hd line = CHR ''[''" "last line = CHR '']''"
      "m = stripSpace L (butlast (tl line))"
    by (auto simp: classify_def split: if_splits option.splits)
  have run: "parseLine L M C line cfg sec =
      (case findSection C cfg m of Some existing \<Rightarrow> Some (Inr (cfg, existing))
       | None \<Rightarrow> Some (Inr (insertSection M C m cfg)))"
    using line(1,2,3) sectionName_butlast [OF L line(1)]
    by (simp add: parseLine_def hd_conv_nth [OF line(1), symmetric] Let_def line(4) cong: option.case_cong)
  show ?thesis
  proof (cases "findSection C cfg m")
    case None
    then have "m \<notin> names" using represents_None [OF rep] by simp
    then show ?thesis
      using run None represents_insert [OF M C rep, of m]
      by (cases "insertSection M C m cfg") (simp add: Head)
  next
    case (Some p)
    then have "insert m names = names" using representsD(1) [OF rep] by auto
    then show ?thesis using run Some rep by (simp add: Head)
  qed
next
  case (Pair k v)
  then obtain a b where line: "line \<noteq> []" "hd line \<notin> {CHR ''#'', CHR '';''}" "hd line \<noteq> CHR ''[''"
      "split L line (CHR ''='') = Some (a, b)" "k = stripSpace L a" "v = stripSpace L b"
    by (auto simp: classify_def split: if_splits option.splits)
  note sec = representsD [OF rep cur]
  have "parseLine L M C line cfg sec =
      Some (Inr (cfg\<lparr>secs := (secs cfg)[sec := addEntry M k v (secs cfg ! sec)]\<rparr>, sec))"
    using line sec(2) by (simp add: parseLine_def hd_conv_nth [OF line(1), symmetric])
  then show ?thesis
    using represents_addEntry [OF M rep cur] cur by (simp add: Pair findSection_def)
qed (cases "line = []"; auto simp: classify_def parseLine_def hd_conv_nth split: if_splits option.splits)+

lemma nextLine_shrinks: "splitOk L \<Longrightarrow> s \<noteq> [] \<Longrightarrow> length (snd (nextLine L s)) < length s"
  by (cases "split L s (CHR 0x0A)") (auto simp: nextLine_def dest: splitOk_shrinks)

lemma fileItems_next:
  assumes "splitOk L" and "stripOk L" and "s \<noteq> []"
  shows "fileItems L s = classify L (stripSpace L (fst (nextLine L s))) #
           (if snd (nextLine L s) = [] \<and> split L s (CHR 0x0A) = None then []
            else fileItems L (snd (nextLine L s)))"
proof (cases "split L s (CHR 0x0A)")
  case None
  from splitOk_None [OF assms(1) this] show ?thesis
    by (simp add: fileItems_def nextLine_def None fieldsBy_notin)
next
  case (Some ab)
  obtain a b where ab: "ab = (a, b)" by (cases ab)
  have "s = a @ CHR 0x0A # b" "CHR 0x0A \<notin> set a"
    using splitOk_Some [OF assms(1)] Some ab by auto
  then have "fieldsBy (CHR 0x0A) s = a # fieldsBy (CHR 0x0A) b" by (simp add: fieldsBy_at)
  then show ?thesis by (simp add: fileItems_def nextLine_def Some ab)
qed

lemma fileItems_Nil: "stripOk L \<Longrightarrow> fileItems L [] = [Skip]"
  by (simp add: fileItems_def classify_def stripOk_Nil)

text \<open>A file in effect: its items, where a trailing line break adds nothing.\<close>

lemma fileItems_step:
  assumes "splitOk L" and "stripOk L" and "s \<noteq> []"
  shows "\<exists>rest. fileItems L s = classify L (stripSpace L (fst (nextLine L s))) # rest \<and>
    firstFault rest = firstFault (fileItems L (snd (nextLine L s))) \<and>
    headers rest = headers (fileItems L (snd (nextLine L s))) \<and>
    (\<forall>n. entries n rest = entries n (fileItems L (snd (nextLine L s))))"
  using fileItems_next [OF assms] fileItems_Nil [OF assms(2)] by (cases "snd (nextLine L s) = []") auto

lemma parseLoop_reads:
  assumes L: "splitOk L" "stripOk L" "affixOk L" and M: "mapOk M" and C: "mapOk C"
    and "represents M C cfg names es" and "findSection C cfg n = Some sec"
  shows "case firstFault (fileItems L src) of
      Some e \<Rightarrow> parseLoop L M C src cfg sec = Some (Inl e)
    | None \<Rightarrow> \<exists>cfg' sec'. parseLoop L M C src cfg sec = Some (Inr (cfg', sec')) \<and>
        represents M C cfg' (names \<union> headers (fileItems L src)) (es @ entries n (fileItems L src))"
  using assms(6,7)
proof (induction "length src" arbitrary: src cfg sec n names es rule: less_induct)
  case less
  show ?case
  proof (cases "src = []")
    case True
    then show ?thesis
      using less.prems by (simp add: fileItems_Nil [OF L(2)] parseLoop.simps)
  next
    case False
    let ?line = "stripSpace L (fst (nextLine L src))" and ?rest = "snd (nextLine L src)"
    obtain rest where rest: "fileItems L src = classify L ?line # rest"
        "firstFault rest = firstFault (fileItems L ?rest)"
        "headers rest = headers (fileItems L ?rest)"
        "\<And>m. entries m rest = entries m (fileItems L ?rest)"
      using fileItems_step [OF L(1,2) False] by blast
    note IH = less.hyps [OF nextLine_shrinks [OF L(1) False]]
    have run: "parseLoop L M C src cfg sec = do {
        r \<leftarrow> parseLine L M C ?line cfg sec;
        (case r of Inl e \<Rightarrow> Some (Inl e)
         | Inr (cfg', sec') \<Rightarrow> parseLoop L M C ?rest cfg' sec') }"
      using False by (subst parseLoop.simps) simp
    note line = parseLine_classify [OF L(3) M C less.prems, of ?line]
    show ?thesis
    proof (cases "classify L ?line")
      case Skip
      then show ?thesis using line IH [OF less.prems] by (simp add: run rest cong: option.case_cong)
    next
      case (Fault e)
      then show ?thesis using line by (simp add: run rest)
    next
      case (Head m)
      then obtain cfg' sec' where "parseLine L M C ?line cfg sec = Some (Inr (cfg', sec'))"
          "represents M C cfg' (insert m names) es" "findSection C cfg' m = Some sec'"
        using line by auto
      then show ?thesis using IH [of cfg' "insert m names" es m sec'] by (simp add: run rest Head cong: option.case_cong)
    next
      case (Pair k v)
      then obtain cfg' where "parseLine L M C ?line cfg sec = Some (Inr (cfg', sec))"
          "represents M C cfg' names (es @ [(n, k, v)])" "findSection C cfg' n = Some sec"
        using line by auto
      then show ?thesis
        using IH [of cfg' names "es @ [(n, k, v)]" n sec] by (simp add: run rest Pair cong: option.case_cong)
    qed
  qed
qed

lemma parseConfig_reads:
  assumes L: "splitOk L" "stripOk L" "affixOk L" and M: "mapOk M" and C: "mapOk C"
  shows "case firstFault (fileItems L src) of
      Some e \<Rightarrow> parseConfig L M C src = Some (Inl e)
    | None \<Rightarrow> \<exists>cfg. parseConfig L M C src = Some (Inr cfg) \<and>
        represents M C cfg (insert [] (headers (fileItems L src))) (entries [] (fileItems L src))"
proof -
  let ?cfg0 = "\<lparr>cfgMap = mEmpty C, secs = []\<rparr> :: ('b, 'a) ini_config"
  have "represents M C ?cfg0 {} []"
    by (simp add: represents_def findSection_def mapOk_empty [OF C])
  from represents_insert [OF M C this, of "[]"]
  have "represents M C (fst (insertSection M C [] ?cfg0)) {[]} []"
    "findSection C (fst (insertSection M C [] ?cfg0)) [] = Some (snd (insertSection M C [] ?cfg0))"
    by simp_all
  from parseLoop_reads [OF L M C this, of src] show ?thesis
    by (auto simp: parseConfig_def split: option.splits prod.splits)
qed

section \<open>What a parsed file gives\<close>

text \<open>
  Property C25. The parser terminates on every file and does what the declarative reading
  says. When a line is faulty it throws the error of the first faulty line. Otherwise the
  configuration has the unnamed section and one section per header (repeated headers are
  merged); the key list of a section holds its keys once, in order of first occurrence, and
  its map gives each key the last value assigned to it under that header.
\<close>

theorem parseConfig_correct:
  assumes "splitOk L" "stripOk L" "affixOk L" "mapOk M" "mapOk C"
  shows "case firstFault (fileItems L src) of
      Some e \<Rightarrow> parseConfig L M C src = Some (Inl e)
    | None \<Rightarrow> \<exists>cfg. parseConfig L M C src = Some (Inr cfg) \<and>
        represents M C cfg (insert [] (headers (fileItems L src))) (entries [] (fileItems L src))"
  using assms by (rule parseConfig_reads)

definition exIni :: string where
  "exIni = ''# c'' @ [CHR 0x0A] @ ''[a]'' @ [CHR 0x0A] @ ''x = 1'' @ [CHR 0x0A] @ ''y=2''
     @ [CHR 0x0A] @ ''x=3''"

lemma exIni_items:
  "fileItems exLib exIni = [Skip, Head ''a'', Pair ''x'' ''1'', Pair ''y'' ''2'', Pair ''x'' ''3'']"
  by (simp add: fileItems_def exIni_def classify_def exLib_def exSplit_def isSpace_def)

theorem parseConfig_correct_witness:
  "\<exists>cfg p. parseConfig exLib exMap exMap exIni = Some (Inr cfg) \<and>
     findSection exMap cfg ''a'' = Some p \<and> p < length (secs cfg) \<and>
     secKeys (secs cfg ! p) = [''x'', ''y''] \<and> mFind exMap (secMap (secs cfg ! p)) ''x'' = Some ''3''"
proof -
  obtain cfg :: "(string \<Rightarrow> nat option, string \<Rightarrow> string option) ini_config" where
      cfg: "parseConfig exLib exMap exMap exIni = Some (Inr cfg)"
      "represents exMap exMap cfg {[], ''a''}
        [(''a'', ''x'', ''1''), (''a'', ''y'', ''2''), (''a'', ''x'', ''3'')]"
    using parseConfig_correct [of exLib "exMap :: (string \<Rightarrow> string option) sec_ops"
        "exMap :: (string \<Rightarrow> nat option) cfg_ops" exIni]
    by (auto simp: exIni_items)
  then obtain p where "findSection exMap cfg ''a'' = Some p"
    using represents_None [OF cfg(2), of "''a''"] by auto
  with cfg representsD [OF cfg(2) this] show ?thesis
    by (auto simp: holds_def entriesOf_def firstKeys_def lastValue_def)
qed

text \<open>What later components use of a section: its keys are distinct and all found.\<close>

definition sectionOk :: "'m sec_ops \<Rightarrow> 'm ini_section \<Rightarrow> bool" where
  "sectionOk M s \<longleftrightarrow> distinct (secKeys s) \<and>
     (\<forall>k. mFind M (secMap s) k \<noteq> None \<longleftrightarrow> k \<in> set (secKeys s))"

lemma holds_sectionOk: "holds M s kvs \<Longrightarrow> sectionOk M s"
proof -
  assume h: "holds M s kvs"
  then have "mFind M (secMap s) k = lastValue kvs k" "secKeys s = firstKeys kvs" for k
    by (simp_all add: holds_def)
  then show ?thesis
    using lastValue_None [of kvs] by (simp add: sectionOk_def distinct_firstKeys set_firstKeys)
qed

lemma parseConfig_sections:
  assumes "splitOk L" "stripOk L" "affixOk L" "mapOk M" "mapOk C"
    and "parseConfig L M C src = Some (Inr cfg)" and "findSection C cfg n = Some p"
  shows "p < length (secs cfg) \<and> sectionOk M (secs cfg ! p)"
proof (cases "firstFault (fileItems L src)")
  case None
  then have "represents M C cfg (insert [] (headers (fileItems L src))) (entries [] (fileItems L src))"
    using parseConfig_reads [OF assms(1-5), of src] assms(6) by simp
  from representsD [OF this assms(7)] show ?thesis by (auto intro: holds_sectionOk)
next
  case (Some e)
  then show ?thesis using parseConfig_reads [OF assms(1-5), of src] assms(6) by simp
qed

lemma parseConfig_runs:
  assumes "splitOk L" "stripOk L" "affixOk L" "mapOk M" "mapOk C"
  shows "(\<exists>e. parseConfig L M C src = Some (Inl e)) \<or> (\<exists>cfg. parseConfig L M C src = Some (Inr cfg))"
  using parseConfig_reads [OF assms, of src] by (auto split: option.splits)

end
