(* ===== verification/Peer.thy ===== *)
theory Peer
  imports Ini
begin

text \<open>
  Model of \<^verbatim>\<open>peer.h\<close> and \<^verbatim>\<open>peer.cpp\<close>: the table of peers built from the \<^verbatim>\<open>[peers]\<close>
  section and the reader of the destination address of an IPv4 packet. A \<^verbatim>\<open>Peer*\<close> is the
  index of the peer in \<open>peers_\<close>: the constructor makes one object per row and appends it.
\<close>

section \<open>Data and operations\<close>

record peer =
  peerVip :: u32
  peerDsts :: "sockaddr list"

record 'i peer_table =
  tabPeers :: "peer list"
  tabByVip :: 'i

type_synonym 'i int_ops = "(u64, 'i, nat) map_ops"

definition PeerError_description :: "exn \<Rightarrow> string \<times> exn" where
  "PeerError_description = describe ''peer: ''"

definition new_PeerError :: "string \<Rightarrow> exn" where
  "new_PeerError msg = \<lparr>exnMsg = msg, exnFull = []\<rparr>"

definition raisePeer :: "string \<Rightarrow> error + 'a" where "raisePeer msg = Inl (PeerError msg)"

lemma raisePeer_Inl [simp]: "raisePeer msg = Inl (PeerError msg)" by (simp add: raisePeer_def)

definition dstCount :: "peer \<Rightarrow> nat" where "dstCount p = length (peerDsts p)"
definition dst :: "peer \<Rightarrow> nat \<Rightarrow> sockaddr option" where "dst p i = deref (peerDsts p) i"

definition peersSize :: "'i peer_table \<Rightarrow> nat" where "peersSize t = length (tabPeers t)"
definition peersAt :: "'i peer_table \<Rightarrow> nat \<Rightarrow> peer option" where
  "peersAt t i = deref (tabPeers t) i"
definition peersLookup :: "'i int_ops \<Rightarrow> 'i peer_table \<Rightarrow> u32 \<Rightarrow> nat option" where
  "peersLookup I t v = mFind I (tabByVip t) (ucast v)"

text \<open>The callback that collects the endpoints of a row.\<close>

definition pushDst :: "lib \<Rightarrow> string \<Rightarrow> sockaddr list \<Rightarrow> error + sockaddr list" where
  "pushDst L it ds = ebind (parseSockAddr L it) (\<lambda>a. Inr (ds @ [a]))"

text \<open>
  The loop of the constructor. \<open>None\<close> is the null pointer \<^verbatim>\<open>*sec->map.find(vipStr)\<close> of a key
  that is not in the map.
\<close>

fun addPeers ::
  "lib \<Rightarrow> 'm sec_ops \<Rightarrow> 'i int_ops \<Rightarrow> 'm ini_section \<Rightarrow> string list \<Rightarrow> 'i peer_table
    \<Rightarrow> (error + 'i peer_table) option"
where
  "addPeers L M I sec [] t = Some (Inr t)"
| "addPeers L M I sec (vipStr # rest) t =
     do { dstStr \<leftarrow> mFind M (secMap sec) vipStr;
          (case parseCIDR L vipStr of
             Inl e \<Rightarrow> Some (Inl e)
           | Inr (vip, plen) \<Rightarrow>
               do { r \<leftarrow> forEachItem L (pushDst L) dstStr [];
                    (case r of
                       Inl e \<Rightarrow> Some (Inl e)
                     | Inr ds \<Rightarrow>
                         if length ds = 0
                         then Some (raisePeer (''peer '' @ vipStr @ '' has no dsts''))
                         else addPeers L M I sec rest
                           (t\<lparr>tabPeers := tabPeers t @ [\<lparr>peerVip = vip, peerDsts = ds\<rparr>],
                              tabByVip := mInsert I (tabByVip t) (ucast vip) (length (tabPeers t))\<rparr>)) }) }"

definition createPeerTable ::
  "lib \<Rightarrow> 'm sec_ops \<Rightarrow> 'i int_ops \<Rightarrow> 'm ini_section option \<Rightarrow> (error + 'i peer_table) option"
where
  "createPeerTable L M I sec =
     (case sec of
        None \<Rightarrow> Some (raisePeer ''empty [peers] section'')
      | Some s \<Rightarrow>
          if length (secKeys s) = 0 then Some (raisePeer ''empty [peers] section'')
          else addPeers L M I s (secKeys s) \<lparr>tabPeers = [], tabByVip = mEmpty I\<rparr>)"

text \<open>
  \<open>dstFromIPv4\<close>: the outer option is memory safety, the inner one the returned flag and the
  address written to \<^verbatim>\<open>*out\<close>.
\<close>

definition dstFromIPv4 :: "bytes \<Rightarrow> nat \<Rightarrow> u32 option option" where
  "dstFromIPv4 pkt len =
     (if len < 20 then Some None
      else do {
        b0 \<leftarrow> rd8 pkt 0;
        if drop_bit 4 b0 \<noteq> 4 then Some None
        else do {
          b16 \<leftarrow> rd8 pkt 16; b17 \<leftarrow> rd8 pkt 17; b18 \<leftarrow> rd8 pkt 18; b19 \<leftarrow> rd8 pkt 19;
          Some (Some (push_bit 24 (ucast b16) OR push_bit 16 (ucast b17)
                      OR push_bit 8 (ucast b18) OR ucast b19)) } })"

section \<open>The rows of the table\<close>

text \<open>What one row means, given the values of the keys.\<close>

definition rowOf :: "lib \<Rightarrow> (string \<Rightarrow> string option) \<Rightarrow> string \<Rightarrow> error + peer" where
  "rowOf L value k =
     ebind (parseCIDR L k) (\<lambda>(vip, _).
     ebind (traverse (parseSockAddr L) (items L (the (value k)))) (\<lambda>ds.
     if ds = [] then Inl (PeerError (''peer '' @ k @ '' has no dsts''))
     else Inr \<lparr>peerVip = vip, peerDsts = ds\<rparr>))"

definition readRow :: "lib \<Rightarrow> 'm sec_ops \<Rightarrow> 'm ini_section \<Rightarrow> string \<Rightarrow> error + peer" where
  "readRow L M sec k =
     rowOf L (mFind M (secMap sec)) k"

text \<open>The position of the last element with a property.\<close>

definition lastIndex :: "('a \<Rightarrow> bool) \<Rightarrow> 'a list \<Rightarrow> nat option" where
  "lastIndex P xs = (let js = filter (\<lambda>i. P (xs ! i)) [0..<length xs]
     in if js = [] then None else Some (last js))"

lemma lastIndex_Nil [simp]: "lastIndex P [] = None"
  by (simp add: lastIndex_def)

lemma lastIndex_snoc:
  "lastIndex P (xs @ [x]) = (if P x then Some (length xs) else lastIndex P xs)"
proof -
  have "filter (\<lambda>i. P ((xs @ [x]) ! i)) [0..<length xs] = filter (\<lambda>i. P (xs ! i)) [0..<length xs]"
    by (rule filter_cong) (auto simp: nth_append)
  then show ?thesis by (simp add: lastIndex_def)
qed

lemma lastIndex_Some: "lastIndex P xs = Some i \<Longrightarrow> i < length xs \<and> P (xs ! i)"
proof (induction xs arbitrary: i rule: rev_induct)
  case (snoc x xs)
  then show ?case
    by (cases "P x") (auto simp: lastIndex_snoc nth_append dest: snoc.IH)
qed simp

lemma lastIndex_None: "lastIndex P xs = None \<longleftrightarrow> (\<forall>x\<in>set xs. \<not> P x)"
  by (induction xs rule: rev_induct) (auto simp: lastIndex_snoc)

lemma lastIndex_unique:
  assumes "i < length xs" and "P (xs ! i)" and "\<And>j. i < j \<Longrightarrow> j < length xs \<Longrightarrow> \<not> P (xs ! j)"
  shows "lastIndex P xs = Some i"
  using assms
proof (induction xs rule: rev_induct)
  case (snoc x xs)
  show ?case
  proof (cases "i = length xs")
    case True
    then show ?thesis using snoc.prems(2) by (simp add: lastIndex_snoc)
  next
    case False
    then have "i < length xs" using snoc.prems(1) by simp
    moreover have "\<not> P x" using snoc.prems(3) [of "length xs"] False snoc.prems(1) by simp
    moreover have "P (xs ! i)" using snoc.prems(2) \<open>i < length xs\<close> by (simp add: nth_append)
    moreover have "\<not> P (xs ! j)" if "i < j" "j < length xs" for j
      using snoc.prems(3) [of j] that by (simp add: nth_append)
    ultimately show ?thesis using snoc.IH by (simp add: lastIndex_snoc)
  qed
qed simp

text \<open>A table represents a list of peers.\<close>

definition tableOk :: "'i int_ops \<Rightarrow> 'i peer_table \<Rightarrow> bool" where
  "tableOk I t \<longleftrightarrow> (\<forall>v. peersLookup I t v = lastIndex (\<lambda>p. peerVip p = v) (tabPeers t)) \<and>
     (\<forall>p\<in>set (tabPeers t). peerDsts p \<noteq> [])"

lemma ucast_u64_eq [simp]: "(ucast (a :: u32) :: u64) = ucast b \<longleftrightarrow> a = b"
  by (simp add: word_unat_eq_iff unat_ucast_up)

lemma foldItems_pushDst:
  "foldItems (pushDst L) xs ds = ebind (traverse (parseSockAddr L) xs) (\<lambda>ys. Inr (ds @ ys))"
proof (induction xs arbitrary: ds)
  case (Cons x xs)
  have "pushDst L x ds = ebind (parseSockAddr L x) (\<lambda>a. Inr (ds @ [a]))"
    by (simp add: pushDst_def)
  then show ?case
    by (cases "parseSockAddr L x"; cases "traverse (parseSockAddr L) xs") (simp_all add: Cons)
qed simp

lemma addPeers_rows:
  assumes L: "splitOk L" "stripOk L" and I: "mapOk I"
    and keys: "\<forall>k\<in>set ks. mFind M (secMap sec) k \<noteq> None" and ok: "tableOk I t"
  shows "case traverse (readRow L M sec) ks of
      Inl e \<Rightarrow> addPeers L M I sec ks t = Some (Inl e)
    | Inr ps \<Rightarrow> \<exists>t'. addPeers L M I sec ks t = Some (Inr t') \<and> tableOk I t' \<and>
        tabPeers t' = tabPeers t @ ps"
  using keys ok
proof (induction ks arbitrary: t)
  case (Cons k ks)
  then obtain d where d: "mFind M (secMap sec) k = Some d" by auto
  show ?case
  proof (cases "readRow L M sec k")
    case (Inl e)
    then show ?thesis
      by (auto simp: readRow_def rowOf_def d ebind_def forEachItem_items [OF L] foldItems_pushDst
          split: sum.splits if_splits)
  next
    case (Inr p)
    then obtain v plen where v: "parseCIDR L k = Inr (v, plen)" and ds: "peerDsts p \<noteq> []"
        "traverse (parseSockAddr L) (items L d) = Inr (peerDsts p)" "peerVip p = v"
      by (auto simp: readRow_def rowOf_def d ebind_Inr_iff split: if_splits)
    let ?t = "t\<lparr>tabPeers := tabPeers t @ [p],
                tabByVip := mInsert I (tabByVip t) (ucast v) (length (tabPeers t))\<rparr>"
    have p: "\<lparr>peerVip = v, peerDsts = peerDsts p\<rparr> = p" using ds(3) by simp
    have run: "addPeers L M I sec (k # ks) t = addPeers L M I sec ks ?t"
      using ds(1) by (simp add: d v forEachItem_items [OF L] foldItems_pushDst ds(2) p)
    have "tableOk I ?t"
      using Cons.prems(2) ds(1,3)
      by (auto simp: tableOk_def peersLookup_def lastIndex_snoc mapOk_insert [OF I])
    from Cons.IH [OF _ this] Cons.prems(1) show ?thesis
      unfolding run by (cases "traverse (readRow L M sec) ks") (auto simp: Inr)
  qed
qed simp

lemma createPeerTable_rows:
  assumes L: "splitOk L" "stripOk L" and I: "mapOk I" and s: "sectionOk M s"
  shows "case (if secKeys s = [] then Inl (PeerError ''empty [peers] section'')
        else traverse (readRow L M s) (secKeys s)) of
      Inl e \<Rightarrow> createPeerTable L M I (Some s) = Some (Inl e)
    | Inr ps \<Rightarrow> \<exists>t. createPeerTable L M I (Some s) = Some (Inr t) \<and> tableOk I t \<and> tabPeers t = ps"
proof -
  have "tableOk I \<lparr>tabPeers = [], tabByVip = mEmpty I\<rparr>"
    by (simp add: tableOk_def peersLookup_def mapOk_empty [OF I])
  moreover have "\<forall>k\<in>set (secKeys s). mFind M (secMap s) k \<noteq> None"
    using s by (simp add: sectionOk_def)
  ultimately show ?thesis
    using addPeers_rows [OF L I, of "secKeys s" M s "\<lparr>tabPeers = [], tabByVip = mEmpty I\<rparr>"]
    by (auto simp: createPeerTable_def split: sum.splits)
qed

section \<open>The interface of the table\<close>

text \<open>
  What users of \<^verbatim>\<open>PeerTable\<close> rely on: every index below the size is a peer, which has an
  endpoint, and \<open>lookup\<close> finds a peer with the address asked for whenever there is one.
\<close>

locale peer_view =
  fixes inv :: "'t \<Rightarrow> bool"
    and size :: "'t \<Rightarrow> nat"
    and at :: "'t \<Rightarrow> nat \<Rightarrow> peer option"
    and lookup :: "'t \<Rightarrow> u32 \<Rightarrow> nat option"
  assumes at_total: "inv t \<Longrightarrow> i < size t \<Longrightarrow> \<exists>p. at t i = Some p \<and> peerDsts p \<noteq> []"
    and lookup_Some: "inv t \<Longrightarrow> lookup t v = Some i \<Longrightarrow>
      i < size t \<and> (\<exists>p. at t i = Some p \<and> peerVip p = v)"
    and lookup_None: "inv t \<Longrightarrow> lookup t v = None \<Longrightarrow> i < size t \<Longrightarrow> at t i = Some p
      \<Longrightarrow> peerVip p \<noteq> v"
begin

text \<open>The peer found is a real object with endpoints.\<close>

lemma found_peer:
  "inv t \<Longrightarrow> lookup t v = Some i \<Longrightarrow> \<exists>p. at t i = Some p \<and> peerVip p = v \<and> peerDsts p \<noteq> []"
  using lookup_Some [of t v i] at_total [of t i] by auto

lemma lookup_complete:
  "inv t \<Longrightarrow> i < size t \<Longrightarrow> at t i = Some p \<Longrightarrow> \<exists>j. lookup t (peerVip p) = Some j"
  using lookup_None [of t "peerVip p" i p] by (cases "lookup t (peerVip p)") auto

text \<open>If the addresses are distinct, \<open>lookup\<close> inverts \<open>at\<close>.\<close>

lemma lookup_inverts:
  assumes "inv t" and "i < size t" and "at t i = Some p"
    and distinct: "\<And>j q. j < size t \<Longrightarrow> at t j = Some q \<Longrightarrow> peerVip q = peerVip p \<Longrightarrow> j = i"
  shows "lookup t (peerVip p) = Some i"
proof -
  obtain j where j: "lookup t (peerVip p) = Some j" using lookup_complete assms(1-3) by blast
  with lookup_Some [OF assms(1) j] distinct show ?thesis by auto
qed

end

interpretation pv: peer_view "tableOk I" peersSize peersAt "peersLookup I" for I :: "'i int_ops"
proof unfold_locales
  fix t :: "'i peer_table" and v i p
  assume t: "tableOk I t"
  show "\<exists>p. peersAt t i = Some p \<and> peerDsts p \<noteq> []" if "i < peersSize t"
    using t that by (simp add: tableOk_def peersAt_def peersSize_def)
  show "i < peersSize t \<and> (\<exists>p. peersAt t i = Some p \<and> peerVip p = v)"
    if "peersLookup I t v = Some i"
    using t that lastIndex_Some [of "\<lambda>p. peerVip p = v" "tabPeers t" i]
    by (simp add: tableOk_def peersAt_def peersSize_def)
  show "peerVip p \<noteq> v"
    if "peersLookup I t v = None" "i < peersSize t" "peersAt t i = Some p"
    using t that lastIndex_None [of "\<lambda>p. peerVip p = v" "tabPeers t"]
    by (auto simp: tableOk_def peersAt_def peersSize_def)
qed

section \<open>Properties\<close>

text \<open>
  Property C29. Building the table of a parsed section never dereferences a null pointer and
  ends: it throws the error of the first bad row (or of the empty section), and otherwise
  has one peer per key, in order, with the address of the key and the endpoints of its
  value, and \<open>lookup\<close> returns the last peer with the address.
\<close>

theorem createPeerTable_correct:
  assumes "splitOk L" "stripOk L" "mapOk I" "sectionOk M s"
  shows "case (if secKeys s = [] then Inl (PeerError ''empty [peers] section'')
        else traverse (readRow L M s) (secKeys s)) of
      Inl e \<Rightarrow> createPeerTable L M I (Some s) = Some (Inl e)
    | Inr ps \<Rightarrow> \<exists>t. createPeerTable L M I (Some s) = Some (Inr t) \<and> tabPeers t = ps \<and>
        (\<forall>v. peersLookup I t v = lastIndex (\<lambda>p. peerVip p = v) ps) \<and>
        (\<forall>p\<in>set ps. peerDsts p \<noteq> [])"
  using createPeerTable_rows [OF assms] by (auto simp: tableOk_def split: sum.splits if_splits)

definition exSection :: "(string \<Rightarrow> string option) ini_section" where
  "exSection = \<lparr>secMap = [''10.9.0.1'' \<mapsto> ''10.0.0.1:7,10.0.1.1:7'', ''10.9.0.2/24'' \<mapsto> ''10.0.0.2:8''],
     secKeys = [''10.9.0.1'', ''10.9.0.2/24'']\<rparr>"

lemma sectionOk_exSection: "sectionOk exMap exSection"
  by (simp add: sectionOk_def exSection_def exMap_def)

text \<open>The addresses of the example, in memory order.\<close>

definition exAddr :: "u8 \<Rightarrow> u8 \<Rightarrow> u8 \<Rightarrow> u8 \<Rightarrow> u32" where
  "exAddr a b c d = leWord [a, b, c, d]"

lemma exSection_rows:
  "traverse (readRow exLib exMap exSection) (secKeys exSection) = Inr
     [\<lparr>peerVip = ntohl (exAddr 10 9 0 1), peerDsts = [Sin 7 (exAddr 10 0 0 1), Sin 7 (exAddr 10 0 1 1)]\<rparr>,
      \<lparr>peerVip = ntohl (exAddr 10 9 0 2), peerDsts = [Sin 8 (exAddr 10 0 0 2)]\<rparr>]"
  by (simp add: exSection_def readRow_def rowOf_def parseCIDR_def parseIPv4_eq exMap_def exLib_def exSplit_def
      exInet_def isDigit_def cstr_def Let_def items_def isSpace_def parseSockAddr_def
      splitHostPort_def toCStr_def INET6_ADDRSTRLEN_def exAddr_def del: leWord.simps)

theorem createPeerTable_correct_witness:
  "\<exists>t. createPeerTable exLib exMap (exMap :: (u64 \<Rightarrow> nat option) int_ops) (Some exSection)
       = Some (Inr t) \<and> map (length \<circ> peerDsts) (tabPeers t) = [2, 1]"
proof -
  have "secKeys exSection \<noteq> []" by (simp add: exSection_def)
  then show ?thesis
    using createPeerTable_correct [of exLib "exMap :: (u64 \<Rightarrow> nat option) int_ops" exMap exSection]
    by (auto simp: sectionOk_exSection exSection_rows)
qed

text \<open>
  Addresses that no two peers share are looked up to the peer they belong to:
  \<open>lookup\<close> inverts \<open>at\<close>; and every lookup that succeeds gives a peer with that address and
  at least one endpoint.
\<close>

lemma peersLookup_inverts:
  assumes "tableOk I t" and "distinct (map peerVip (tabPeers t))" and "i < peersSize t"
    and "peersAt t i = Some p"
  shows "peersLookup I t (peerVip p) = Some i \<and> peerDsts p \<noteq> []"
proof
  show "peersLookup I t (peerVip p) = Some i"
  proof (rule pv.lookup_inverts [OF assms(1,3,4)])
    fix j q
    assume "j < peersSize t" "peersAt t j = Some q" "peerVip q = peerVip p"
    then show "j = i"
      using assms(2,3,4) nth_eq_iff_index_eq [OF assms(2), of j i]
      by (simp add: peersSize_def peersAt_def)
  qed
  show "peerDsts p \<noteq> []" using pv.at_total [OF assms(1,3)] assms(4) by auto
qed

definition exTable :: "(u64 \<Rightarrow> nat option) peer_table" where
  "exTable = \<lparr>tabPeers = [\<lparr>peerVip = 5, peerDsts = [Sin 7 1]\<rparr>, \<lparr>peerVip = 6, peerDsts = [Sin 7 2]\<rparr>],
     tabByVip = [5 \<mapsto> 0, 6 \<mapsto> 1]\<rparr>"

lemma tableOk_exTable: "tableOk exMap exTable"
proof -
  have u: "ucast (v :: u32) = (5 :: u64) \<longleftrightarrow> v = 5" "ucast v = (6 :: u64) \<longleftrightarrow> v = 6" for v
    using ucast_u64_eq [of v 5] ucast_u64_eq [of v 6] by simp_all
  show ?thesis
    by (simp add: tableOk_def exTable_def peersLookup_def exMap_def lastIndex_def u Let_def)
qed

lemma word32_ntohl: "word32 a b c d = ntohl (leWord [a, b, c, d])"
proof -
  let ?v = "ntohl (leWord [a, b, c, d])"
  have "?v = word_of_nat (leNat [d, c, b, a])"
    using unat_ntohl [of "[a, b, c, d]"] unat_leNat [of "[d, c, b, a]", where 'a = 32]
    by (simp add: word_unat_eq_iff)
  then have "ucast ?v = d \<and> ucast (drop_bit 8 ?v) = c \<and> ucast (drop_bit 16 ?v) = b
      \<and> ucast (drop_bit 24 ?v) = a"
    using leBytes_leNat [of "[d, c, b, a]", where 'a = 32] by (simp del: leNat.simps leWord.simps)
  then show ?thesis using word32_bytes [of ?v] by simp
qed

lemma drop_bit_4_eq: "drop_bit 4 (b :: u8) = 4 \<longleftrightarrow> unat b div 16 = 4"
  by (simp add: word_unat_eq_iff unat_drop_bit_div)

lemma dstFromIPv4_eq:
  assumes "len \<le> length pkt"
  shows "dstFromIPv4 pkt len =
    Some (if len < 20 \<or> unat (pkt ! 0) div 16 \<noteq> 4 then None
          else Some (word32 (pkt ! 16) (pkt ! 17) (pkt ! 18) (pkt ! 19)))"
proof (cases "len < 20")
  case False
  then have "rd8 pkt 0 = Some (pkt ! 0)" "rd8 pkt 16 = Some (pkt ! 16)" "rd8 pkt 17 = Some (pkt ! 17)"
    "rd8 pkt 18 = Some (pkt ! 18)" "rd8 pkt 19 = Some (pkt ! 19)"
    using assms by (auto simp: rd8_def)
  then show ?thesis using False by (simp add: dstFromIPv4_def drop_bit_4_eq word32_def)
qed (simp add: dstFromIPv4_def)

text \<open>
  Reading the destination of a packet is memory safe and agrees with the
  parser of the configuration: a packet whose destination field holds the bytes of an
  address text yields the word that \<open>parseIPv4\<close> makes of this text, so a packet is routed to
  the peer whose row carries its destination. Packets that are short or not IPv4 yield none.
\<close>

lemma dstFromIPv4_parse:
  assumes "len \<le> length pkt"
  shows "(len < 20 \<or> unat (pkt ! 0) div 16 \<noteq> 4 \<longrightarrow> dstFromIPv4 pkt len = Some None) \<and>
    (20 \<le> len \<and> unat (pkt ! 0) div 16 = 4 \<and> length s < 16 \<and>
       inetPton4 L (cstr s) = Some (take 4 (drop 16 pkt)) \<longrightarrow>
     (\<exists>v. parseIPv4 L s = Inr v \<and> dstFromIPv4 pkt len = Some (Some v)))"
proof -
  have "take 4 (drop 16 pkt) = [pkt ! 16, pkt ! 17, pkt ! 18, pkt ! 19]" if "20 \<le> len"
    using that assms by (intro nth_equalityI) (auto simp: less_Suc_eq numeral_eq_Suc)
  then show ?thesis
    using assms by (auto simp: dstFromIPv4_eq parseIPv4_eq word32_ntohl simp del: leWord.simps)
qed

lemma dstFromIPv4_parse_witness:
  "\<exists>v. parseIPv4 exLib ''10.9.0.2'' = Inr v \<and>
     dstFromIPv4 (0x45 # replicate 15 0 @ [10, 9, 0, 2] @ [1, 2]) 22 = Some (Some v)"
proof -
  have "inetPton4 exLib (cstr ''10.9.0.2'') = Some [10, 9, 0, 2]"
    by (simp add: exLib_def exInet_def cstr_def isDigit_def Let_def)
  then show ?thesis
    using dstFromIPv4_parse [of 22 "0x45 # replicate 15 0 @ [10, 9, 0, 2] @ [1, 2]" "''10.9.0.2''" exLib]
    by simp
qed

end
