(* ===== verification/Config.thy ===== *)
theory Config
  imports Peer
begin

text \<open>
  Model of \<^verbatim>\<open>config.h\<close> and \<^verbatim>\<open>config.cpp\<close>: the typed configuration and its loader. C strings
  are kept with their terminating zero byte; an \<^verbatim>\<open>int\<close> is a 32-bit word read with
  \<open>sint\<close>; \<^verbatim>\<open>Peer* self\<close> is an index into the peer table. \<open>readFile\<close> stands for
  \<^verbatim>\<open>readFileContent\<close> of \<^verbatim>\<open>std\<close>: the bytes of the file or the exception it throws.
\<close>

section \<open>Data\<close>

record 'i config =
  tunVip :: u32
  tunPrefixLen :: u8
  tunMtu :: i32
  tunDev :: string
  cfgPeers :: "'i peer_table option"
  cfgSelf :: "nat option"
  udpRecvBuf :: i32
  udpSendBuf :: i32
  probeIntervalMs :: u64
  probeTimeoutMs :: u64
  statsIntervalSec :: u64
  cfgUser :: "string option"

definition ConfigError_description :: "exn \<Rightarrow> string \<times> exn" where
  "ConfigError_description = describe ''config: ''"

definition new_ConfigError :: "string \<Rightarrow> exn" where
  "new_ConfigError msg = \<lparr>exnMsg = msg, exnFull = []\<rparr>"

definition raiseConfig :: "string \<Rightarrow> error + 'a" where "raiseConfig msg = Inl (ConfigError msg)"

lemma raiseConfig_Inl [simp]: "raiseConfig msg = Inl (ConfigError msg)" by (simp add: raiseConfig_def)

section \<open>Loader\<close>

definition internCStr :: "string \<Rightarrow> string" where "internCStr s = s @ [CHR 0x00]"

definition require :: "'m sec_ops \<Rightarrow> 'm ini_section \<Rightarrow> string \<Rightarrow> string \<Rightarrow> error + string" where
  "require M sec key ctx =
     (case mFind M (secMap sec) key of
        None \<Rightarrow> raiseConfig (ctx @ ''.'' @ key @ '' missing'')
      | Some v \<Rightarrow> Inr v)"

definition loadMe ::
  "lib \<Rightarrow> 'm sec_ops \<Rightarrow> 'i config \<Rightarrow> 'm ini_section \<Rightarrow> error + 'i config"
where
  "loadMe L M cfg sec =
     ebind (require M sec ''vip'' ''me'') (\<lambda>v.
     ebind (parseCIDR L v) (\<lambda>(addr, plen).
       let cfg = cfg\<lparr>tunVip := addr, tunPrefixLen := plen\<rparr>;
           cfg = (case mFind M (secMap sec) ''tun_dev'' of
                    Some v \<Rightarrow> cfg\<lparr>tunDev := internCStr v\<rparr> | None \<Rightarrow> cfg);
           cfg = (case mFind M (secMap sec) ''tun_mtu'' of
                    Some v \<Rightarrow> cfg\<lparr>tunMtu := ucast (stou L v)\<rparr> | None \<Rightarrow> cfg);
           cfg = (case mFind M (secMap sec) ''user'' of
                    Some v \<Rightarrow> cfg\<lparr>cfgUser := Some (internCStr v)\<rparr> | None \<Rightarrow> cfg)
       in Inr cfg))"

definition loadUdp :: "lib \<Rightarrow> 'm sec_ops \<Rightarrow> 'i config \<Rightarrow> 'm ini_section \<Rightarrow> 'i config" where
  "loadUdp L M cfg sec =
     (let cfg = (case mFind M (secMap sec) ''recv_buf'' of
                   Some v \<Rightarrow> cfg\<lparr>udpRecvBuf := ucast (stou L v)\<rparr> | None \<Rightarrow> cfg);
          cfg = (case mFind M (secMap sec) ''send_buf'' of
                   Some v \<Rightarrow> cfg\<lparr>udpSendBuf := ucast (stou L v)\<rparr> | None \<Rightarrow> cfg)
      in cfg)"

definition loadProbe :: "lib \<Rightarrow> 'm sec_ops \<Rightarrow> 'i config \<Rightarrow> 'm ini_section \<Rightarrow> 'i config" where
  "loadProbe L M cfg sec =
     (let cfg = (case mFind M (secMap sec) ''interval_ms'' of
                   Some v \<Rightarrow> cfg\<lparr>probeIntervalMs := stou L v\<rparr> | None \<Rightarrow> cfg);
          cfg = (case mFind M (secMap sec) ''timeout_ms'' of
                   Some v \<Rightarrow> cfg\<lparr>probeTimeoutMs := stou L v\<rparr> | None \<Rightarrow> cfg);
          cfg = (case mFind M (secMap sec) ''stats_interval_s'' of
                   Some v \<Rightarrow> cfg\<lparr>statsIntervalSec := stou L v\<rparr> | None \<Rightarrow> cfg)
      in cfg)"

text \<open>\<^verbatim>\<open>Section*\<close> of a name: \<open>None\<close> outside is a wild pointer, inside a null pointer.\<close>

definition sectionAt ::
  "'c cfg_ops \<Rightarrow> ('c, 'm) ini_config \<Rightarrow> string \<Rightarrow> 'm ini_section option option"
where
  "sectionAt C ini name =
     (case findSection C ini name of
        None \<Rightarrow> Some None
      | Some p \<Rightarrow> map_option Some (deref (secs ini) p))"

definition defaultConfig :: "'i config" where
  "defaultConfig = \<lparr>tunVip = 0, tunPrefixLen = 0, tunMtu = 1400, tunDev = ''gofra0'' @ [CHR 0x00],
     cfgPeers = None, cfgSelf = None, udpRecvBuf = push_bit 20 16, udpSendBuf = push_bit 20 16,
     probeIntervalMs = 200, probeTimeoutMs = 1000, statsIntervalSec = 10, cfgUser = None\<rparr>"

definition loadConfig ::
  "lib \<Rightarrow> 'm sec_ops \<Rightarrow> 'c cfg_ops \<Rightarrow> 'i int_ops \<Rightarrow> (string \<Rightarrow> error + string) \<Rightarrow> string
    \<Rightarrow> (error + 'i config) option"
where
  "loadConfig L M C I readFile path =
     (case readFile path of
        Inl e \<Rightarrow> Some (Inl e)
      | Inr src \<Rightarrow>
     do { r \<leftarrow> parseConfig L M C src;
     (case r of Inl e \<Rightarrow> Some (Inl e) | Inr ini \<Rightarrow>
     do { me \<leftarrow> sectionAt C ini ''me'';
     (case (case me of
              Some sec \<Rightarrow> loadMe L M defaultConfig sec
            | None \<Rightarrow> raiseConfig ''missing [me] section'') of
        Inl e \<Rightarrow> Some (Inl e)
      | Inr cfg \<Rightarrow>
     if tunVip cfg = 0 then Some (raiseConfig ''me.vip missing'')
     else
     do { ps \<leftarrow> sectionAt C ini ''peers'';
          r \<leftarrow> createPeerTable L M I ps;
     (case r of Inl e \<Rightarrow> Some (Inl e) | Inr t \<Rightarrow>
     let cfg = cfg\<lparr>cfgPeers := Some t, cfgSelf := peersLookup I t (tunVip cfg)\<rparr>
     in if cfgSelf cfg = None then Some (raiseConfig ''my vip is not in [peers]'')
        else
     do { udp \<leftarrow> sectionAt C ini ''udp'';
          let cfg = (case udp of Some sec \<Rightarrow> loadUdp L M cfg sec | None \<Rightarrow> cfg);
          probe \<leftarrow> sectionAt C ini ''probe'';
          let cfg = (case probe of Some sec \<Rightarrow> loadProbe L M cfg sec | None \<Rightarrow> cfg);
          Some (Inr cfg) }) }) }) })"

section \<open>Settings of a file\<close>

text \<open>The value of \<open>name.key\<close> in a file: the last one assigned.\<close>

definition setting :: "lib \<Rightarrow> string \<Rightarrow> string \<Rightarrow> string \<Rightarrow> string option" where
  "setting L src name key = lastValue (entriesOf name (entries [] (fileItems L src))) key"

definition hasSection :: "lib \<Rightarrow> string \<Rightarrow> string \<Rightarrow> bool" where
  "hasSection L src name \<longleftrightarrow> name \<in> insert [] (headers (fileItems L src))"

text \<open>
  What \<open>sectionAt\<close> gives for a file that parsed: no section, in which case nothing is set,
  or a section whose map holds the settings.
\<close>

definition shows_settings :: "lib \<Rightarrow> 'm sec_ops \<Rightarrow> string \<Rightarrow> string \<Rightarrow> 'm ini_section option \<Rightarrow> bool" where
  "shows_settings L M src name so \<longleftrightarrow>
     (case so of None \<Rightarrow> \<not> hasSection L src name \<and> (\<forall>k. setting L src name k = None)
      | Some s \<Rightarrow> hasSection L src name \<and> (\<forall>k. mFind M (secMap s) k = setting L src name k) \<and>
          sectionOk M s \<and> secKeys s = firstKeys (entriesOf name (entries [] (fileItems L src))))"

lemma sectionAt_shows:
  assumes "splitOk L" "stripOk L" "affixOk L" "mapOk M" "mapOk C"
    and p: "parseConfig L M C src = Some (Inr ini)"
  shows "\<exists>so. sectionAt C ini name = Some so \<and> shows_settings L M src name so"
proof -
  let ?es = "entries [] (fileItems L src)"
  have rep: "represents M C ini (insert [] (headers (fileItems L src))) ?es"
    using parseConfig_reads [OF assms(1-5), of src] p by (simp split: option.splits)
  show ?thesis
  proof (cases "findSection C ini name")
    case None
    then have n: "name \<notin> insert [] (headers (fileItems L src))"
      using represents_None [OF rep, of name] by blast
    then have "entriesOf name ?es = []"
      using rep by (intro entriesOf_none) (auto simp: represents_def)
    with None n show ?thesis
      by (simp add: sectionAt_def shows_settings_def hasSection_def setting_def lastValue_def)
  next
    case (Some q)
    note s = representsD [OF rep Some]
    have "shows_settings L M src name (Some (secs ini ! q))"
      using s(1) holds_sectionOk [OF s(3)] s(3)
      by (simp add: shows_settings_def hasSection_def setting_def holds_def)
    with s(2) Some show ?thesis by (simp add: sectionAt_def)
  qed
qed

lemma parseConfig_ok:
  assumes "splitOk L" "stripOk L" "affixOk L" "mapOk M" "mapOk C"
  shows "case firstFault (fileItems L src) of Some e \<Rightarrow> parseConfig L M C src = Some (Inl e)
    | None \<Rightarrow> \<exists>ini. parseConfig L M C src = Some (Inr ini)"
  using parseConfig_reads [OF assms, of src] by (auto split: option.splits)

definition numOr :: "lib \<Rightarrow> string \<Rightarrow> string \<Rightarrow> string \<Rightarrow> u64 \<Rightarrow> u64" where
  "numOr L src name key d = (case setting L src name key of Some v \<Rightarrow> stou L v | None \<Rightarrow> d)"

text \<open>The peers of a file, read row by row.\<close>

definition peerKeys :: "lib \<Rightarrow> string \<Rightarrow> string list" where
  "peerKeys L src = firstKeys (entriesOf ''peers'' (entries [] (fileItems L src)))"

definition filePeers :: "lib \<Rightarrow> string \<Rightarrow> error + peer list" where
  "filePeers L src =
     (if peerKeys L src = [] then Inl (PeerError ''empty [peers] section'')
      else traverse (rowOf L (setting L src ''peers'')) (peerKeys L src))"

lemma createPeerTable_filePeers:
  assumes "splitOk L" "stripOk L" "mapOk I" and so: "shows_settings L M src ''peers'' so"
  shows "case filePeers L src of
      Inl e \<Rightarrow> createPeerTable L M I so = Some (Inl e)
    | Inr ps \<Rightarrow> \<exists>t. createPeerTable L M I so = Some (Inr t) \<and> tableOk I t \<and> tabPeers t = ps"
proof (cases so)
  case None
  then have "lastValue (entriesOf ''peers'' (entries [] (fileItems L src))) k = None" for k
    using so by (simp add: shows_settings_def setting_def)
  then have "peerKeys L src = []"
    using lastValue_None set_firstKeys by (metis image_is_empty peerKeys_def set_empty equals0I)
  then show ?thesis by (simp add: filePeers_def createPeerTable_def None)
next
  case (Some s)
  have s: "sectionOk M s" "secKeys s = peerKeys L src"
      "mFind M (secMap s) = setting L src ''peers''"
    using so Some by (auto simp: shows_settings_def peerKeys_def)
  have "readRow L M s = rowOf L (setting L src ''peers'')"
    by (rule ext) (simp add: readRow_def s(3))
  from createPeerTable_rows [OF assms(1-3) s(1), unfolded s(2) this] show ?thesis
    unfolding filePeers_def Some .
qed

section \<open>The configuration a file describes\<close>

text \<open>
  The settings of a file, without the peer table: the errors in the order the loader finds
  them, then every field from its setting or its default.
\<close>

definition fileConfig :: "lib \<Rightarrow> string \<Rightarrow> error + (peer list \<times> 'i config)" where
  "fileConfig L src =
     (case firstFault (fileItems L src) of Some e \<Rightarrow> Inl e | None \<Rightarrow>
      if \<not> hasSection L src ''me'' then Inl (ConfigError ''missing [me] section'')
      else case setting L src ''me'' ''vip'' of
        None \<Rightarrow> Inl (ConfigError ''me.vip missing'')
      | Some v \<Rightarrow>
      ebind (parseCIDR L v) (\<lambda>(addr, plen).
      if addr = 0 then Inl (ConfigError ''me.vip missing'')
      else ebind (filePeers L src) (\<lambda>ps.
      case lastIndex (\<lambda>p. peerVip p = addr) ps of
        None \<Rightarrow> Inl (ConfigError ''my vip is not in [peers]'')
      | Some i \<Rightarrow> Inr (ps,
          \<lparr>tunVip = addr, tunPrefixLen = plen,
           tunMtu = ucast (numOr L src ''me'' ''tun_mtu'' 1400),
           tunDev = (case setting L src ''me'' ''tun_dev'' of Some d \<Rightarrow> d | None \<Rightarrow> ''gofra0'')
                      @ [CHR 0x00],
           cfgPeers = None, cfgSelf = Some i,
           udpRecvBuf = ucast (numOr L src ''udp'' ''recv_buf'' 16777216),
           udpSendBuf = ucast (numOr L src ''udp'' ''send_buf'' 16777216),
           probeIntervalMs = numOr L src ''probe'' ''interval_ms'' 200,
           probeTimeoutMs = numOr L src ''probe'' ''timeout_ms'' 1000,
           statsIntervalSec = numOr L src ''probe'' ''stats_interval_s'' 10,
           cfgUser = map_option (\<lambda>u. u @ [CHR 0x00]) (setting L src ''me'' ''user'')\<rparr>))))"

lemma loadMe_settings:
  assumes "shows_settings L M src ''me'' (Some s)"
  shows "loadMe L M cfg s = (case setting L src ''me'' ''vip'' of
      None \<Rightarrow> Inl (ConfigError ''me.vip missing'')
    | Some v \<Rightarrow> ebind (parseCIDR L v) (\<lambda>(addr, plen). Inr (cfg\<lparr>tunVip := addr, tunPrefixLen := plen,
        tunDev := (case setting L src ''me'' ''tun_dev'' of Some d \<Rightarrow> d @ [CHR 0x00] | None \<Rightarrow> tunDev cfg),
        tunMtu := (case setting L src ''me'' ''tun_mtu'' of Some v \<Rightarrow> ucast (stou L v) | None \<Rightarrow> tunMtu cfg),
        cfgUser := (case setting L src ''me'' ''user'' of Some u \<Rightarrow> Some (u @ [CHR 0x00])
                    | None \<Rightarrow> cfgUser cfg)\<rparr>)))"
proof -
  have m: "mFind M (secMap s) k = setting L src ''me'' k" for k
    using assms by (simp add: shows_settings_def)
  show ?thesis
    by (auto simp: loadMe_def require_def m internCStr_def Let_def ebind_def
        split: option.splits sum.splits)
qed

lemma loadUdp_settings:
  assumes "shows_settings L M src ''udp'' so"
  shows "(case so of Some sec \<Rightarrow> loadUdp L M cfg sec | None \<Rightarrow> cfg) = cfg\<lparr>
      udpRecvBuf := (case setting L src ''udp'' ''recv_buf'' of Some v \<Rightarrow> ucast (stou L v)
                     | None \<Rightarrow> udpRecvBuf cfg),
      udpSendBuf := (case setting L src ''udp'' ''send_buf'' of Some v \<Rightarrow> ucast (stou L v)
                     | None \<Rightarrow> udpSendBuf cfg)\<rparr>"
proof (cases so)
  case None
  then have "setting L src ''udp'' k = None" for k using assms by (simp add: shows_settings_def)
  then show ?thesis by (cases cfg) (simp add: None)
next
  case (Some s)
  then have "mFind M (secMap s) k = setting L src ''udp'' k" for k
    using assms by (simp add: shows_settings_def)
  then show ?thesis
    by (cases cfg; cases "setting L src ''udp'' ''recv_buf''"; cases "setting L src ''udp'' ''send_buf''")
      (simp_all add: Some loadUdp_def)
qed

lemma loadProbe_settings:
  assumes "shows_settings L M src ''probe'' so"
  shows "(case so of Some sec \<Rightarrow> loadProbe L M cfg sec | None \<Rightarrow> cfg) = cfg\<lparr>
      probeIntervalMs := numOr L src ''probe'' ''interval_ms'' (probeIntervalMs cfg),
      probeTimeoutMs := numOr L src ''probe'' ''timeout_ms'' (probeTimeoutMs cfg),
      statsIntervalSec := numOr L src ''probe'' ''stats_interval_s'' (statsIntervalSec cfg)\<rparr>"
proof (cases so)
  case None
  then have "setting L src ''probe'' k = None" for k using assms by (simp add: shows_settings_def)
  then show ?thesis by (cases cfg) (simp add: None numOr_def)
next
  case (Some s)
  then have "mFind M (secMap s) k = setting L src ''probe'' k" for k
    using assms by (simp add: shows_settings_def)
  then show ?thesis
    by (cases cfg; cases "setting L src ''probe'' ''interval_ms''";
        cases "setting L src ''probe'' ''timeout_ms''";
        cases "setting L src ''probe'' ''stats_interval_s''")
      (simp_all add: Some loadProbe_def numOr_def)
qed

text \<open>The loader after the tests of \<^verbatim>\<open>[me]\<close> and the peers.\<close>

lemma loadConfig_reads:
  assumes laws: "splitOk L" "stripOk L" "affixOk L" "mapOk M" "mapOk C" and I: "mapOk I"
    and rd: "readFile path = Inr src"
  shows "case (fileConfig L src :: error + (peer list \<times> 'i config)) of
      Inl e \<Rightarrow> loadConfig L M C I readFile path = Some (Inl e)
    | Inr (ps, c) \<Rightarrow> \<exists>t :: 'i peer_table. loadConfig L M C I readFile path = Some (Inr (c\<lparr>cfgPeers := Some t\<rparr>)) \<and>
        tableOk I t \<and> tabPeers t = ps"
proof (cases "firstFault (fileItems L src)")
  case (Some e)
  then show ?thesis
    using parseConfig_ok [OF laws, of src] by (simp add: fileConfig_def loadConfig_def rd)
next
  case None
  then obtain ini where ini: "parseConfig L M C src = Some (Inr ini)"
    using parseConfig_ok [OF laws, of src] by auto
  note sec = sectionAt_shows [OF laws ini]
  obtain me where me: "sectionAt C ini ''me'' = Some me" "shows_settings L M src ''me'' me"
    using sec by blast
  obtain pr where pr: "sectionAt C ini ''peers'' = Some pr" "shows_settings L M src ''peers'' pr"
    using sec by blast
  obtain ud where ud: "sectionAt C ini ''udp'' = Some ud" "shows_settings L M src ''udp'' ud"
    using sec by blast
  obtain pb where pb: "sectionAt C ini ''probe'' = Some pb" "shows_settings L M src ''probe'' pb"
    using sec by blast
  note peers = createPeerTable_filePeers [OF laws(1,2) I pr(2)]
  show ?thesis
  proof (cases me)
    case n: None
    then have "\<not> hasSection L src ''me''" using me(2) by (simp add: shows_settings_def)
    then show ?thesis by (simp add: fileConfig_def None loadConfig_def rd ini me(1) n)
  next
    case (Some s)
    then have has: "hasSection L src ''me''" using me(2) by (simp add: shows_settings_def)
    note loadMe = loadMe_settings [OF me(2) [unfolded Some]]
    show ?thesis
    proof (cases "setting L src ''me'' ''vip''")
      case n: None
      then show ?thesis
        by (simp add: fileConfig_def None has loadConfig_def rd ini me(1) Some loadMe)
    next
      case v: (Some v)
      show ?thesis
      proof (cases "parseCIDR L v")
        case (Inl e)
        then show ?thesis
          by (simp add: fileConfig_def None has loadConfig_def rd ini me(1) Some loadMe v)
      next
        case (Inr ap)
        obtain addr plen where ap: "ap = (addr, plen)" by (cases ap)
        show ?thesis
        proof (cases "addr = 0")
          case True
          then show ?thesis
            by (simp add: fileConfig_def None has loadConfig_def rd ini me(1) Some loadMe v Inr ap)
        next
          case addr: False
          show ?thesis
          proof (cases "filePeers L src")
            case (Inl e)
            then show ?thesis
              using peers addr
              by (simp add: fileConfig_def None has loadConfig_def rd ini me(1) Some loadMe v Inr ap
                  pr(1) \<open>parseCIDR L v = Inr ap\<close>)
          next
            case rows: (Inr ps)
            then obtain t where t: "createPeerTable L M I pr = Some (Inr t)" "tableOk I t" "tabPeers t = ps"
              using peers by auto
            have look: "peersLookup I t addr = lastIndex (\<lambda>p. peerVip p = addr) ps"
              using t(2,3) by (simp add: tableOk_def)
            show ?thesis
              using addr t
              by (cases "lastIndex (\<lambda>p. peerVip p = addr) ps")
                (simp_all add: fileConfig_def None has loadConfig_def rd ini me(1) Some loadMe v
                  ap \<open>parseCIDR L v = Inr ap\<close> rows pr(1) ud(1) pb(1) look Let_def
                  loadUdp_settings [OF ud(2)] loadProbe_settings [OF pb(2)] defaultConfig_def
                  numOr_def split: option.splits)
          qed
        qed
      qed
    qed
  qed
qed

section \<open>Properties\<close>

text \<open>
  Property C27. Loading a readable file ends without undefined behaviour and yields what the
  file describes: the first error in the order of the loader's tests, or the configuration
  whose every field is the last value of its setting or the documented default, with the
  peer table of the rows and the own row found by address. Integers are truncated to the
  width of their field.
\<close>

theorem loadConfig_correct:
  assumes "splitOk L" "stripOk L" "affixOk L" "mapOk M" "mapOk C" "mapOk I"
    and "readFile path = Inr src"
  shows "case (fileConfig L src :: error + (peer list \<times> 'i config)) of
      Inl e \<Rightarrow> loadConfig L M C I readFile path = Some (Inl e)
    | Inr (ps, c) \<Rightarrow> \<exists>t :: 'i peer_table.
        loadConfig L M C I readFile path = Some (Inr (c\<lparr>cfgPeers := Some t\<rparr>)) \<and>
        tableOk I t \<and> tabPeers t = ps"
  using assms by (rule loadConfig_reads)

definition exConf :: string where
  "exConf = ''[me]'' @ [CHR 0x0A] @ ''vip = 10.9.0.1/24'' @ [CHR 0x0A] @ ''user=ann'' @ [CHR 0x0A] @ ''[peers]'' @ [CHR 0x0A]
     @ ''10.9.0.1 = 10.0.0.1:7'' @ [CHR 0x0A] @ ''[probe]'' @ [CHR 0x0A] @ ''timeout_ms=500''"

lemma exConf_items:
  "fileItems exLib exConf = [Head ''me'', Pair ''vip'' ''10.9.0.1/24'', Pair ''user'' ''ann'', Head ''peers'',
     Pair ''10.9.0.1'' ''10.0.0.1:7'', Head ''probe'', Pair ''timeout_ms'' ''500'']"
  by (simp add: fileItems_def exConf_def classify_def exLib_def exSplit_def isSpace_def)

lemma exConf_setting:
  "setting exLib exConf n k =
     (if n = ''me'' \<and> k = ''vip'' then Some ''10.9.0.1/24''
      else if n = ''me'' \<and> k = ''user'' then Some ''ann''
      else if n = ''peers'' \<and> k = ''10.9.0.1'' then Some ''10.0.0.1:7''
      else if n = ''probe'' \<and> k = ''timeout_ms'' then Some ''500'' else None)"
  by (simp add: setting_def exConf_items entriesOf_def lastValue_def)

lemma exConf_vip: "parseCIDR exLib ''10.9.0.1/24'' = Inr (0x0A090001, 24)"
proof -
  have "ntohl (leWord [10, 9, 0, 1]) = 0x0A090001"
    by (simp add: word_unat_eq_iff unat_ntohl del: leWord.simps)
  then show ?thesis
    by (simp add: parseCIDR_def parseIPv4_eq exLib_def exSplit_def exInet_def cstr_def isDigit_def
        Let_def del: leWord.simps)
qed

lemma exConf_peers:
  "filePeers exLib exConf = Inr [\<lparr>peerVip = 0x0A090001, peerDsts = [Sin 7 (exAddr 10 0 0 1)]\<rparr>]"
proof -
  have keys: "peerKeys exLib exConf = [''10.9.0.1'']"
    by (simp add: peerKeys_def exConf_items entriesOf_def firstKeys_def)
  have "ntohl (leWord [10, 9, 0, 1]) = 0x0A090001"
    by (simp add: word_unat_eq_iff unat_ntohl del: leWord.simps)
  then have "rowOf exLib f ''10.9.0.1'' = Inr \<lparr>peerVip = 0x0A090001, peerDsts = [Sin 7 (exAddr 10 0 0 1)]\<rparr>"
    if "f ''10.9.0.1'' = Some ''10.0.0.1:7''" for f
    using that by (simp add: rowOf_def parseCIDR_def parseIPv4_eq exLib_def
        exSplit_def exInet_def isDigit_def cstr_def Let_def items_def isSpace_def parseSockAddr_def
        splitHostPort_def toCStr_def INET6_ADDRSTRLEN_def exAddr_def del: leWord.simps)
  then show ?thesis
    by (simp add: filePeers_def keys exConf_setting)
qed

lemma exConf_config:
  "fileConfig exLib exConf = Inr ([\<lparr>peerVip = 0x0A090001, peerDsts = [Sin 7 (exAddr 10 0 0 1)]\<rparr>],
     \<lparr>tunVip = 0x0A090001, tunPrefixLen = 24, tunMtu = 1400, tunDev = ''gofra0'' @ [CHR 0x00],
      cfgPeers = None, cfgSelf = Some 0, udpRecvBuf = 16777216, udpSendBuf = 16777216,
      probeIntervalMs = 200, probeTimeoutMs = 500, statsIntervalSec = 10, cfgUser = Some (''ann'' @ [CHR 0x00])\<rparr>)"
proof -
  have "firstFault (fileItems exLib exConf) = None" "hasSection exLib exConf ''me''"
    by (simp_all add: exConf_items hasSection_def)
  moreover have "stou exLib ''500'' = 500" by (simp add: exLib_def)
  ultimately show ?thesis
    by (simp add: fileConfig_def exConf_setting exConf_vip exConf_peers numOr_def lastIndex_def Let_def)
qed

theorem loadConfig_correct_witness:
  "\<exists>cfg. loadConfig exLib exMap exMap (exMap :: (u64 \<Rightarrow> nat option) int_ops) (\<lambda>_. Inr exConf) ''x''
       = Some (Inr cfg) \<and> probeTimeoutMs cfg = 500 \<and> tunMtu cfg = 1400 \<and> cfgSelf cfg = Some 0"
  using loadConfig_correct [of exLib "exMap :: (string \<Rightarrow> string option) sec_ops"
      "exMap :: (string \<Rightarrow> nat option) cfg_ops" "exMap :: (u64 \<Rightarrow> nat option) int_ops"
      "\<lambda>_. Inr exConf" "''x''" exConf]
  by (auto simp: exConf_config)

lemma loadConfig_usable:
  assumes laws: "splitOk L" "stripOk L" "affixOk L" "mapOk M" "mapOk C" "mapOk I"
    and run: "loadConfig L M C I readFile path = Some (Inr cfg)"
  shows "tunVip cfg \<noteq> 0 \<and> (\<exists>t i p. cfgPeers cfg = Some t \<and> tableOk I t \<and> cfgSelf cfg = Some i \<and>
    peersLookup I t (tunVip cfg) = Some i \<and> peersAt t i = Some p \<and> peerVip p = tunVip cfg \<and>
    0 < dstCount p)"
proof -
  obtain src where rd: "readFile path = Inr src"
    using run by (auto simp: loadConfig_def split: sum.splits)
  obtain ps c where c: "(fileConfig L src :: error + (peer list \<times> 'c config)) = Inr (ps, c)"
    using loadConfig_reads [OF laws, where readFile = readFile and path = path, OF rd] run by (auto split: sum.splits)
  then obtain t where t: "cfg = c\<lparr>cfgPeers := Some t\<rparr>" "tableOk I t" "tabPeers t = ps"
    using loadConfig_reads [OF laws, where readFile = readFile and path = path, OF rd] run by auto
  from c have "tunVip c \<noteq> 0 \<and> (\<exists>i. lastIndex (\<lambda>p. peerVip p = tunVip c) ps = Some i \<and> cfgSelf c = Some i)"
    by (auto simp: fileConfig_def ebind_Inr_iff split: option.splits if_splits prod.splits)
  then obtain i where i: "tunVip cfg \<noteq> 0" "peersLookup I t (tunVip cfg) = Some i" "cfgSelf cfg = Some i"
    using t by (auto simp: tableOk_def)
  with pv.found_peer [OF t(2) i(2)] t show ?thesis by (auto simp: dstCount_def)
qed

text \<open>
  Property C28. A configuration that is returned is usable: the overlay address is not zero,
  the peer table is well formed, and \<open>self\<close> points to a peer of it that has the overlay
  address and at least one endpoint.
\<close>

theorem loadConfig_self:
  assumes laws: "splitOk L" "stripOk L" "affixOk L" "mapOk M" "mapOk C" "mapOk I"
    and run: "loadConfig L M C I readFile path = Some (Inr cfg)"
  shows "tunVip cfg \<noteq> 0 \<and> (\<exists>t i p. cfgPeers cfg = Some t \<and> tableOk I t \<and> cfgSelf cfg = Some i \<and>
    peersLookup I t (tunVip cfg) = Some i \<and> peersAt t i = Some p \<and> peerVip p = tunVip cfg \<and>
    0 < dstCount p)"
  using assms by (rule loadConfig_usable)

theorem loadConfig_self_witness:
  "\<exists>cfg t i p. loadConfig exLib exMap exMap (exMap :: (u64 \<Rightarrow> nat option) int_ops) (\<lambda>_. Inr exConf) ''x''
       = Some (Inr cfg) \<and> cfgPeers cfg = Some t \<and> cfgSelf cfg = Some i \<and> peersAt t i = Some p \<and>
       peerVip p = tunVip cfg"
proof -
  obtain cfg where cfg: "loadConfig exLib (exMap :: (string \<Rightarrow> string option) sec_ops)
      (exMap :: (string \<Rightarrow> nat option) cfg_ops) (exMap :: (u64 \<Rightarrow> nat option) int_ops)
      (\<lambda>_. Inr exConf) ''x'' = Some (Inr cfg)"
    using loadConfig_reads [of exLib "exMap :: (string \<Rightarrow> string option) sec_ops"
      "exMap :: (string \<Rightarrow> nat option) cfg_ops" "exMap :: (u64 \<Rightarrow> nat option) int_ops"
      "\<lambda>_. Inr exConf" "''x''" exConf]
    by (auto simp: exConf_config)
  from loadConfig_self [OF _ _ _ _ _ _ cfg] show ?thesis using cfg by auto
qed

end
