(* ===== verification/Os.thy ===== *)
theory Os
  imports Platform
begin

text \<open>
  System calls. The operating system is a parameter: a record of functions that give the
  result of a call from the calls made before it, so every theorem holds for every behaviour
  of the kernel. A run of the program is the list of the calls it makes (\<open>ev\<close>), oldest
  first. The routines that set the program up may throw; they are values of \<open>'a io\<close>.
\<close>

section \<open>Calls\<close>

datatype sockopt =
    BindToDevice string
  | RcvBufForce i32
  | SndBufForce i32
  | ReuseAddr
  | UdpGro

text \<open>\<^verbatim>\<open>struct ifreq\<close> holds the name as a buffer of \<open>IFNAMSIZ\<close> bytes.\<close>

datatype ioctl_req =
    SIOCGIFINDEX string
  | TUNSETIFF string u16
  | TUNSETVNETHDRSZ i32
  | TUNSETOFFLOAD u64

text \<open>A netlink request: its header, its family header and its attributes.\<close>

datatype nl_body =
    IfInfo (ifiFamily: u8) (ifiIndex: i32) (ifiFlags: u32) (ifiChange: u32)
  | IfAddr (ifaFamily: u8) (ifaPrefixlen: u8) (ifaFlags: u8) (ifaScope: u8) (ifaIndex: u32)

record nlmsg =
  nlType :: u16
  nlFlags :: u16
  nlSeq :: u32
  nlBody :: nl_body
  nlAttrs :: "(u16 \<times> u32) list"

datatype thread =
    TunReader int
  | UdpReader int int u32
  | Prober u64
  | SlotsStats u64 u64

datatype ev =
    Clock
  | Socket u16
  | PoolFd int
  | Close int
  | PoolIfAddrs
  | GetIfAddrs
  | SetSockOpt int sockopt
  | Bind int sockaddr u32
  | SendTo int bytes sockaddr u32
  | SendMsg int "bytes list" sockaddr u32 u16
  | ReadFd int nat
  | RecvMMsg int nat
  | WriteFd int bytes
  | WriteV int "bytes list"
  | OpenTunDev
  | Ioctl int ioctl_req
  | MnlOpen
  | MnlBind
  | MnlSend nlmsg
  | MnlRecv
  | MnlRun u32 u32
  | MnlClose
  | GetPwNam string
  | SetGroups
  | SetResGid u32
  | SetResUid u32
  | IgnoreSigPipe
  | WarnErrno string int
  | LogLine string
  | USleep u32
  | SleepS u32
  | Spawn thread
  | Join thread
  | Exit int

text \<open>A message as the kernel delivers it, and its control messages.\<close>

record cmsg =
  cmLevel :: int
  cmType :: int
  cmData :: bytes

record rx =
  rxFrom :: sockaddr
  rxNamelen :: nat
  rxData :: bytes
  rxCmsgs :: "cmsg list"
  rxControllen :: nat

record os =
  osRes :: "ev list \<Rightarrow> ev \<Rightarrow> int"
  osErrno :: "ev list \<Rightarrow> int"
  osClock :: "ev list \<Rightarrow> u64 \<times> u64"
  osIfAddrs :: "ev list \<Rightarrow> (string \<times> sockaddr option) list"
  osIfIndex :: "ev list \<Rightarrow> i32"
  osPortId :: "ev list \<Rightarrow> u32"
  osPasswd :: "ev list \<Rightarrow> string \<Rightarrow> (u32 \<times> u32) option"
  osNameInfo :: "sockaddr \<Rightarrow> string \<times> string"
  osNtop :: "u32 \<Rightarrow> string"
  osRead :: "ev list \<Rightarrow> bytes"
  osRecv :: "ev list \<Rightarrow> rx list"

section \<open>Routines that may throw\<close>

type_synonym 'a io = "os \<Rightarrow> ev list \<Rightarrow> ((error + 'a) \<times> ev list) option"

definition ret :: "'a \<Rightarrow> 'a io" where "ret x = (\<lambda>os h. Some (Inr x, h))"

definition throw :: "error \<Rightarrow> 'a io" where "throw e = (\<lambda>os h. Some (Inl e, h))"

definition andThen :: "'a io \<Rightarrow> ('a \<Rightarrow> 'b io) \<Rightarrow> 'b io" where
  "andThen m f = (\<lambda>os h. case m os h of
     None \<Rightarrow> None
   | Some (Inl e, h') \<Rightarrow> Some (Inl e, h')
   | Some (Inr x, h') \<Rightarrow> f x os h')"

text \<open>A pure computation: \<open>None\<close> is undefined behaviour or a loop that never ends.\<close>

definition lift :: "(error + 'a) option \<Rightarrow> 'a io" where
  "lift r = (\<lambda>os h. map_option (\<lambda>x. (x, h)) r)"

definition call :: "ev \<Rightarrow> int io" where
  "call e = (\<lambda>os h. Some (Inr (osRes os h e), h @ [e]))"

definition ask :: "(os \<Rightarrow> ev list \<Rightarrow> 'a) \<Rightarrow> 'a io" where
  "ask f = (\<lambda>os h. Some (Inr (f os h), h))"

text \<open>\<^verbatim>\<open>Errno().raise(msg)\<close>\<close>

definition throwErrno :: "string \<Rightarrow> 'a io" where
  "throwErrno msg = andThen (ask osErrno) (\<lambda>n. throw (ErrnoError n msg))"

text \<open>A call whose negative result is thrown as the error it set.\<close>

definition callOr :: "ev \<Rightarrow> string \<Rightarrow> int io" where
  "callOr e msg = andThen (call e) (\<lambda>r. if r < 0 then throwErrno msg else ret r)"

text \<open>A scope whose end, normal or by an exception, runs a destructor.\<close>

definition scoped :: "ev \<Rightarrow> 'a io \<Rightarrow> 'a io" where
  "scoped d m = (\<lambda>os h. map_option (\<lambda>(r, h'). (r, h' @ [d])) (m os h))"

fun forEachIO :: "('x \<Rightarrow> 'a io) \<Rightarrow> 'x list \<Rightarrow> 'a list io" where
  "forEachIO f [] = ret []"
| "forEachIO f (x # xs) = andThen (f x) (\<lambda>y. andThen (forEachIO f xs) (\<lambda>ys. ret (y # ys)))"

text \<open>\<^verbatim>\<open>nowMs()\<close>, the same routine in \<^verbatim>\<open>conn.cpp\<close> and \<^verbatim>\<open>plane.cpp\<close>.\<close>

definition nowMs :: "os \<Rightarrow> ev list \<Rightarrow> u64 \<times> ev list" where
  "nowMs os h = (let (sec, nsec) = osClock os h in (sec * 1000 + nsec div 1000000, h @ [Clock]))"

definition clockIO :: "u64 io" where
  "clockIO = (\<lambda>os h. Some (Inr (fst (nowMs os h)), snd (nowMs os h)))"

section \<open>Reasoning about routines\<close>

named_theorems io_simps \<open>evaluation of routines step by step\<close>

lemma ret_run [io_simps]: "ret x os h = Some (Inr x, h)" by (simp add: ret_def)
lemma throw_run [io_simps]: "throw e os h = Some (Inl e, h)" by (simp add: throw_def)
lemma call_run [io_simps]: "call e os h = Some (Inr (osRes os h e), h @ [e])" by (simp add: call_def)
lemma ask_run [io_simps]: "ask f os h = Some (Inr (f os h), h)" by (simp add: ask_def)

lemma nowMs_snd: "snd (nowMs os h) = h @ [Clock]" by (simp add: nowMs_def split: prod.splits)

lemma clockIO_run [io_simps]: "clockIO os h = Some (Inr (fst (nowMs os h)), h @ [Clock])"
  by (simp add: clockIO_def nowMs_snd)

lemma lift_run [io_simps]: "lift r os h = (case r of None \<Rightarrow> None | Some x \<Rightarrow> Some (x, h))"
  by (simp add: lift_def split: option.splits)

lemma andThen_run [io_simps]:
  "andThen m f os h = (case m os h of None \<Rightarrow> None | Some (Inl e, h') \<Rightarrow> Some (Inl e, h')
     | Some (Inr x, h') \<Rightarrow> f x os h')"
  by (simp add: andThen_def)

lemma throwErrno_run [io_simps]: "throwErrno msg os h = Some (Inl (ErrnoError (osErrno os h) msg), h)"
  by (simp add: throwErrno_def io_simps)

lemma callOr_run [io_simps]:
  "callOr e msg os h = (if osRes os h e < 0
     then Some (Inl (ErrnoError (osErrno os (h @ [e])) msg), h @ [e])
     else Some (Inr (osRes os h e), h @ [e]))"
  by (simp add: callOr_def io_simps)

lemma scoped_run [io_simps]:
  "scoped d m os h = (case m os h of None \<Rightarrow> None | Some (r, h') \<Rightarrow> Some (r, h' @ [d]))"
  by (simp add: scoped_def split: option.splits)

text \<open>
  A routine is well behaved: it always returns, and it only adds calls, all of a given kind.
\<close>

definition emits :: "(ev \<Rightarrow> bool) \<Rightarrow> 'a io \<Rightarrow> bool" where
  "emits P m \<longleftrightarrow> (\<forall>os h. \<exists>r es. m os h = Some (r, h @ es) \<and> list_all P es)"

lemma emitsD: "emits P m \<Longrightarrow> \<exists>r es. m os h = Some (r, h @ es) \<and> list_all P es"
  by (simp add: emits_def)

named_theorems emits_intros \<open>rules for what a routine emits\<close>

lemma emits_ret [emits_intros]: "emits P (ret x)" by (simp add: emits_def ret_def)
lemma emits_throw [emits_intros]: "emits P (throw e)" by (simp add: emits_def throw_def)
lemma emits_ask [emits_intros]: "emits P (ask f)" by (simp add: emits_def ask_def)
lemma emits_throwErrno [emits_intros]: "emits P (throwErrno msg)"
  by (simp add: emits_def throwErrno_run)
lemma emits_call [emits_intros]: "P e \<Longrightarrow> emits P (call e)" by (simp add: emits_def call_def)
lemma emits_callOr [emits_intros]: "P e \<Longrightarrow> emits P (callOr e msg)"
  by (simp add: emits_def callOr_run)

lemma emits_andThen [emits_intros]:
  assumes "emits P m" and "\<And>x. emits P (f x)"
  shows "emits P (andThen m f)"
  unfolding emits_def
proof (intro allI)
  fix os h
  obtain r es where m: "m os h = Some (r, h @ es)" "list_all P es" using emitsD [OF assms(1)] by blast
  show "\<exists>r es. andThen m f os h = Some (r, h @ es) \<and> list_all P es"
  proof (cases r)
    case (Inl e)
    then show ?thesis using m by (simp add: andThen_run)
  next
    case (Inr x)
    obtain r' es' where "f x os (h @ es) = Some (r', (h @ es) @ es')" "list_all P es'"
      using emitsD [OF assms(2)] by blast
    then show ?thesis using m Inr by (simp add: andThen_run)
  qed
qed

lemma emits_scoped [emits_intros]:
  assumes "emits P m" and "P d"
  shows "emits P (scoped d m)"
  unfolding emits_def
proof (intro allI)
  fix os h
  obtain r es where "m os h = Some (r, h @ es)" "list_all P es" using emitsD [OF assms(1)] by blast
  then show "\<exists>r es. scoped d m os h = Some (r, h @ es) \<and> list_all P es"
    using assms(2) by (simp add: scoped_run)
qed

lemma emits_forEachIO [emits_intros]:
  "(\<And>x. x \<in> set xs \<Longrightarrow> emits P (f x)) \<Longrightarrow> emits P (forEachIO f xs)"
  by (induction xs) (auto intro: emits_intros)

lemma emits_clockIO [emits_intros]: "P Clock \<Longrightarrow> emits P clockIO"
  by (simp add: emits_def clockIO_run)

lemma emits_lift: "r \<noteq> None \<Longrightarrow> emits P (lift r)"
  by (auto simp: emits_def lift_def)

lemma emits_mono: "emits P m \<Longrightarrow> (\<And>e. P e \<Longrightarrow> Q e) \<Longrightarrow> emits Q m"
  unfolding emits_def by (meson list.pred_mono_strong)

lemma andThen_Inr:
  "andThen m f os h = Some (Inr y, h2) \<longleftrightarrow>
     (\<exists>x h1. m os h = Some (Inr x, h1) \<and> f x os h1 = Some (Inr y, h2))"
  by (auto simp: andThen_def split: option.splits sum.splits prod.splits)

text \<open>A loop that succeeds made the calls of its rounds, one after the other.\<close>

lemma forEachIO_rounds:
  assumes "\<And>x h y h'. f x os h = Some (Inr y, h') \<Longrightarrow> \<exists>es. h' = h @ es \<and> Q x y es"
    and "forEachIO f xs os h = Some (Inr ys, h')"
  shows "length ys = length xs \<and> (\<exists>ess. length ess = length xs \<and> h' = h @ concat ess \<and>
    (\<forall>i<length xs. Q (xs ! i) (ys ! i) (ess ! i)))"
  using assms(2)
proof (induction xs arbitrary: h ys)
  case Nil
  then show ?case by (simp add: ret_def)
next
  case (Cons x xs)
  then obtain y h1 zs where y: "f x os h = Some (Inr y, h1)"
      and zs: "forEachIO f xs os h1 = Some (Inr zs, h')" and ys: "ys = y # zs"
    by (auto simp: andThen_Inr ret_run)
  obtain es where es: "h1 = h @ es" "Q x y es" using assms(1) [OF y] by auto
  obtain ess where "length zs = length xs" "length ess = length xs" "h' = h1 @ concat ess"
      "\<forall>i<length xs. Q (xs ! i) (zs ! i) (ess ! i)"
    using Cons.IH [OF zs] by auto
  with es ys have "length ys = length (x # xs) \<and> length (es # ess) = length (x # xs) \<and>
      h' = h @ concat (es # ess) \<and> (\<forall>i<length (x # xs). Q ((x # xs) ! i) (ys ! i) ((es # ess) ! i))"
    by (auto simp: nth_Cons split: nat.splits)
  then show ?case by blast
qed

text \<open>A loop none of whose rounds throws.\<close>

lemma forEachIO_succeeds:
  assumes "\<And>x h. x \<in> set xs \<Longrightarrow> \<exists>y. f x os h = Some (Inr y, h @ k x)"
  shows "\<exists>ys. forEachIO f xs os h = Some (Inr ys, h @ concat (map k xs))"
  using assms
proof (induction xs arbitrary: h)
  case (Cons x xs)
  obtain y where y: "f x os h = Some (Inr y, h @ k x)" using Cons.prems by auto
  obtain ys where "forEachIO f xs os (h @ k x) = Some (Inr ys, (h @ k x) @ concat (map k xs))"
    using Cons.IH [of "h @ k x"] Cons.prems by (metis list.set_intros(2))
  with y show ?case by (simp add: andThen_run ret_run)
qed (simp add: ret_run)

lemma forEachIO_total:
  assumes "\<And>x h. x \<in> set xs \<Longrightarrow> f x os h = Some (Inr (g x), h @ k x)"
  shows "forEachIO f xs os h = Some (Inr (map g xs), h @ concat (map k xs))"
  using assms by (induction xs arbitrary: h) (simp_all add: andThen_run ret_run)

lemma lift_Some: "r = Some x \<Longrightarrow> lift (map_option Inr r) = ret x"
  by (simp add: lift_def ret_def)

section \<open>A concrete operating system\<close>

text \<open>Every call succeeds; the witnesses refine it where they need more.\<close>

definition exOs :: os where
  "exOs = \<lparr>
     osRes = (\<lambda>h e. case e of Socket _ \<Rightarrow> 5 | OpenTunDev \<Rightarrow> 7 | MnlOpen \<Rightarrow> 1 | _ \<Rightarrow> 0),
     osErrno = (\<lambda>_. 0), osClock = (\<lambda>_. (5, 7000000)),
     osIfAddrs = (\<lambda>_. [(''lo'', None), (''eth0'', Some (Sin 0 1)), (''eth1'', Some (Sin 0 2))]),
     osIfIndex = (\<lambda>_. 3), osPortId = (\<lambda>_. 9), osPasswd = (\<lambda>_ _. Some (100, 200)),
     osNameInfo = (\<lambda>_. (''host'', ''port'')), osNtop = (\<lambda>_. ''ip''), osRead = (\<lambda>_. []),
     osRecv = (\<lambda>_. [])\<rparr>"

end
