(* ===== verification/Tun.thy ===== *)
theory Tun
  imports Os Addr
begin

text \<open>
  Model of \<^verbatim>\<open>tun.h\<close> and \<^verbatim>\<open>tun.cpp\<close>: opening the queues of the TUN device and configuring
  it over rtnetlink. \<^verbatim>\<open>libmnl\<close> is not part of the repository: its calls are events, and a
  message is the record of the fields the code sets (\<open>nlmsg\<close>).
\<close>

section \<open>Constants of the kernel interface\<close>

definition TUN_IFNAMSIZ :: nat where "TUN_IFNAMSIZ = 16"
definition RTM_NEWLINK :: u16 where "RTM_NEWLINK = 16"
definition RTM_NEWADDR :: u16 where "RTM_NEWADDR = 20"
definition NLM_F_REQUEST :: u16 where "NLM_F_REQUEST = 0x1"
definition NLM_F_ACK :: u16 where "NLM_F_ACK = 0x4"
definition NLM_F_EXCL :: u16 where "NLM_F_EXCL = 0x200"
definition NLM_F_CREATE :: u16 where "NLM_F_CREATE = 0x400"
definition AF_UNSPEC :: u8 where "AF_UNSPEC = 0"
definition RT_SCOPE_UNIVERSE :: u8 where "RT_SCOPE_UNIVERSE = 0"
definition IFLA_MTU :: u16 where "IFLA_MTU = 4"
definition IFA_ADDRESS :: u16 where "IFA_ADDRESS = 1"
definition IFA_LOCAL :: u16 where "IFA_LOCAL = 2"
definition IFA_BROADCAST :: u16 where "IFA_BROADCAST = 4"
definition IFF_UP :: u32 where "IFF_UP = 1"
definition IFF_TUN :: u16 where "IFF_TUN = 0x0001"
definition IFF_NO_PI :: u16 where "IFF_NO_PI = 0x1000"
definition IFF_MULTI_QUEUE :: u16 where "IFF_MULTI_QUEUE = 0x0100"
definition IFF_VNET_HDR :: u16 where "IFF_VNET_HDR = 0x4000"
definition TUN_F_CSUM :: u64 where "TUN_F_CSUM = 0x01"
definition TUN_F_TSO4 :: u64 where "TUN_F_TSO4 = 0x02"

section \<open>Operations\<close>

definition copyIfName :: "string \<Rightarrow> error + string" where
  "copyIfName name =
     (if length name \<ge> TUN_IFNAMSIZ then Inl (ErrnoError 0 (''iface name too long: '' @ name))
      else Inr (name @ [CHR 0x00]))"

definition ifIndexFor :: "string \<Rightarrow> i32 io" where
  "ifIndexFor dev =
     andThen (callOr (Socket AF_INET) ''socket(AF_INET,SOCK_DGRAM)'') (\<lambda>s.
     scoped (Close s)
       (andThen (lift (Some (copyIfName (cstr dev)))) (\<lambda>name.
        andThen (callOr (Ioctl s (SIOCGIFINDEX name)) (''SIOCGIFINDEX '' @ cstr dev)) (\<lambda>_.
        ask osIfIndex))))"

record netlink =
  portId :: u32
  seqNo :: u32

definition netlinkOpen :: "netlink io" where
  "netlinkOpen =
     andThen (call MnlOpen) (\<lambda>nl.
     if nl = 0 then throwErrno ''mnl_socket_open''
     else andThen (call MnlBind) (\<lambda>r.
     if r < 0
     then andThen (ask osErrno) (\<lambda>e. andThen (call MnlClose) (\<lambda>_.
            throw (ErrnoError e ''mnl_socket_bind'')))
     else andThen (ask osPortId) (\<lambda>pid. ret \<lparr>portId = pid, seqNo = 0\<rparr>)))"

definition nextSeq :: "netlink \<Rightarrow> u32 \<times> netlink" where
  "nextSeq nl = (let nl = nl\<lparr>seqNo := seqNo nl + 1\<rparr> in (seqNo nl, nl))"

definition netlinkRun :: "netlink \<Rightarrow> nlmsg \<Rightarrow> string \<Rightarrow> int io" where
  "netlinkRun nl nh what =
     andThen (callOr (MnlSend nh) (what @ '': mnl_socket_sendto'')) (\<lambda>_.
     andThen (callOr MnlRecv (what @ '': mnl_socket_recvfrom'')) (\<lambda>n.
     callOr (MnlRun (nlSeq nh) (portId nl)) (what @ '': netlink ack'')))"

definition setMtuMsg :: "u32 \<Rightarrow> i32 \<Rightarrow> i32 \<Rightarrow> nlmsg" where
  "setMtuMsg seq idx mtu =
     \<lparr>nlType = RTM_NEWLINK, nlFlags = NLM_F_REQUEST OR NLM_F_ACK, nlSeq = seq,
      nlBody = IfInfo AF_UNSPEC idx 0 0, nlAttrs = [(IFLA_MTU, mtu)]\<rparr>"

definition setMtu :: "netlink \<Rightarrow> i32 \<Rightarrow> i32 \<Rightarrow> netlink io" where
  "setMtu nl idx mtu =
     (let (seq, nl) = nextSeq nl
      in andThen (netlinkRun nl (setMtuMsg seq idx mtu) ''RTM_NEWLINK MTU'') (\<lambda>_. ret nl))"

definition hostMask :: "u8 \<Rightarrow> u32" where
  "hostMask prefixLen =
     (if prefixLen = 0 then 0xFFFFFFFF else push_bit (32 - unat prefixLen) 1 - 1)"

definition addAddrMsg :: "u32 \<Rightarrow> i32 \<Rightarrow> u32 \<Rightarrow> u8 \<Rightarrow> nlmsg" where
  "addAddrMsg seq idx vip prefixLen =
     \<lparr>nlType = RTM_NEWADDR,
      nlFlags = NLM_F_REQUEST OR NLM_F_ACK OR NLM_F_CREATE OR NLM_F_EXCL, nlSeq = seq,
      nlBody = IfAddr (ucast AF_INET) prefixLen 0 RT_SCOPE_UNIVERSE idx,
      nlAttrs = [(IFA_LOCAL, htonl vip), (IFA_ADDRESS, htonl vip)]
        @ (if prefixLen < 32 then [(IFA_BROADCAST, htonl (vip OR hostMask prefixLen))] else [])\<rparr>"

definition addAddr :: "netlink \<Rightarrow> i32 \<Rightarrow> u32 \<Rightarrow> u8 \<Rightarrow> netlink io" where
  "addAddr nl idx vip prefixLen =
     (let (seq, nl) = nextSeq nl
      in andThen (netlinkRun nl (addAddrMsg seq idx vip prefixLen) ''RTM_NEWADDR'') (\<lambda>_. ret nl))"

definition linkUpMsg :: "u32 \<Rightarrow> i32 \<Rightarrow> nlmsg" where
  "linkUpMsg seq idx =
     \<lparr>nlType = RTM_NEWLINK, nlFlags = NLM_F_REQUEST OR NLM_F_ACK, nlSeq = seq,
      nlBody = IfInfo AF_UNSPEC idx IFF_UP IFF_UP, nlAttrs = []\<rparr>"

definition linkUp :: "netlink \<Rightarrow> i32 \<Rightarrow> netlink io" where
  "linkUp nl idx =
     (let (seq, nl) = nextSeq nl
      in andThen (netlinkRun nl (linkUpMsg seq idx) ''RTM_NEWLINK UP'') (\<lambda>_. ret nl))"

definition configureTun :: "string \<Rightarrow> i32 \<Rightarrow> u32 \<Rightarrow> u8 \<Rightarrow> netlink io" where
  "configureTun dev mtu vip prefixLen =
     andThen (ifIndexFor dev) (\<lambda>idx.
     andThen netlinkOpen (\<lambda>nl.
     scoped MnlClose
       (andThen (setMtu nl idx mtu) (\<lambda>nl.
        andThen (addAddr nl idx vip prefixLen) (\<lambda>nl.
        linkUp nl idx)))))"

definition openTun :: "string \<Rightarrow> int io" where
  "openTun dev =
     andThen (callOr OpenTunDev ''open /dev/net/tun'') (\<lambda>fd.
     andThen (call (PoolFd fd)) (\<lambda>_.
     andThen (lift (Some (copyIfName (cstr dev)))) (\<lambda>name.
     andThen (callOr (Ioctl fd (TUNSETIFF name (IFF_TUN OR IFF_NO_PI OR IFF_MULTI_QUEUE OR IFF_VNET_HDR)))
                (''TUNSETIFF '' @ cstr dev)) (\<lambda>_.
     andThen (callOr (Ioctl fd (TUNSETVNETHDRSZ 10)) (''TUNSETVNETHDRSZ '' @ cstr dev)) (\<lambda>_.
     andThen (callOr (Ioctl fd (TUNSETOFFLOAD (TUN_F_CSUM OR TUN_F_TSO4)))
                (''TUNSETOFFLOAD '' @ cstr dev)) (\<lambda>_.
     ret fd))))))"

section \<open>The broadcast address\<close>

lemma bit_hostMask: "bit (hostMask p) n \<longleftrightarrow> n < 32 \<and> n < 32 - unat p"
proof (cases "p = 0")
  case True
  have "hostMask p = - 1" using True by (simp add: hostMask_def)
  then show ?thesis using True by (simp only:) simp
next
  case False
  then have "0 < unat p" by (simp add: unat_gt_0)
  have "push_bit (32 - unat p) 1 - 1 = (mask (32 - unat p) :: u32)"
    by (simp add: mask_eq_exp_minus_1 push_bit_eq_mult)
  then show ?thesis
    using False by (auto simp: hostMask_def bit_mask_iff)
qed

lemma addAddr_attrs:
  "nlAttrs (addAddrMsg seq idx vip p) =
     [(IFA_LOCAL, htonl vip), (IFA_ADDRESS, htonl vip)] @
     (if unat p < 32 then [(IFA_BROADCAST, htonl (vip OR hostMask p))] else [])"
  by (simp add: addAddrMsg_def word_less_nat_alt)

text \<open>
  The broadcast address given to the kernel is the overlay address with every
  host bit set and every network bit kept, for every prefix length below 32; for longer
  ones, also those that no IPv4 prefix has, no broadcast address is given.
\<close>

lemma addAddr_broadcast:
  "\<exists>b. nlAttrs (addAddrMsg seq idx vip p) =
      [(IFA_LOCAL, htonl vip), (IFA_ADDRESS, htonl vip)] @
      (if unat p < 32 then [(IFA_BROADCAST, htonl b)] else []) \<and>
    b = vip OR hostMask p \<and> drop_bit (32 - unat p) b = drop_bit (32 - unat p) vip \<and>
    take_bit (32 - unat p) b = mask (32 - unat p)"
proof -
  let ?b = "vip OR hostMask p"
  have "drop_bit (32 - unat p) ?b = drop_bit (32 - unat p) vip"
    by (rule bit_eqI) (auto simp: bit_simps bit_hostMask)
  moreover have "take_bit (32 - unat p) ?b = mask (32 - unat p)"
    by (rule bit_eqI) (auto simp: bit_simps bit_hostMask)
  ultimately show ?thesis using addAddr_attrs by blast
qed

section \<open>Which calls are made\<close>

text \<open>The requests of a successful \<open>configureTun\<close>, each with its acknowledgement.\<close>

definition netlinkCalls :: "u32 \<Rightarrow> nlmsg list \<Rightarrow> ev list" where
  "netlinkCalls pid msgs = concat (map (\<lambda>m. [MnlSend m, MnlRecv, MnlRun (nlSeq m) pid]) msgs)"

definition isNetlinkCall :: "ev \<Rightarrow> bool" where
  "isNetlinkCall e \<longleftrightarrow> (case e of MnlSend _ \<Rightarrow> True | MnlRecv \<Rightarrow> True | MnlRun _ _ \<Rightarrow> True | _ \<Rightarrow> False)"

text \<open>The three requests on an open netlink socket, as one routine.\<close>

definition requests :: "netlink \<Rightarrow> i32 \<Rightarrow> i32 \<Rightarrow> u32 \<Rightarrow> u8 \<Rightarrow> netlink io" where
  "requests nl idx mtu vip p =
     andThen (setMtu nl idx mtu) (\<lambda>nl. andThen (addAddr nl idx vip p) (\<lambda>nl. linkUp nl idx))"

lemma netlinkRun_emits [emits_intros]: "emits isNetlinkCall (netlinkRun nl m what)"
  unfolding netlinkRun_def by (intro emits_intros) (auto simp: isNetlinkCall_def)

lemma netlinkRun_ok:
  "netlinkRun nl m what os h = Some (Inr r, h') \<Longrightarrow> h' = h @ netlinkCalls (portId nl) [m]"
  by (auto simp: netlinkRun_def andThen_Inr callOr_run netlinkCalls_def split: if_splits)

lemma requests_emits: "emits isNetlinkCall (requests nl idx mtu vip p)"
  by (auto simp: requests_def setMtu_def addAddr_def linkUp_def nextSeq_def Let_def
      intro!: emits_intros)

lemma requests_ok:
  assumes "requests \<lparr>portId = pid, seqNo = 0\<rparr> idx mtu vip p os h = Some (Inr r, h')"
  shows "h' = h @ netlinkCalls pid [setMtuMsg 1 idx mtu, addAddrMsg 2 idx vip p, linkUpMsg 3 idx]"
  using assms
  by (auto simp: requests_def setMtu_def addAddr_def linkUp_def nextSeq_def Let_def andThen_Inr
      ret_run netlinkCalls_def dest!: netlinkRun_ok)

lemma count_no_netlink:
  "list_all isNetlinkCall es \<Longrightarrow> \<not> isNetlinkCall e \<Longrightarrow> count_list es e = 0"
  by (induction es) auto

text \<open>The calls of a successful \<open>configureTun\<close>.\<close>

definition configureCalls :: "int \<Rightarrow> i32 \<Rightarrow> u32 \<Rightarrow> string \<Rightarrow> i32 \<Rightarrow> u32 \<Rightarrow> u8 \<Rightarrow> ev list" where
  "configureCalls s idx pid dev mtu vip p =
     [Socket AF_INET, Ioctl s (SIOCGIFINDEX (cstr dev @ [CHR 0x00])), Close s, MnlOpen, MnlBind] @
     netlinkCalls pid [setMtuMsg 1 idx mtu, addAddrMsg 2 idx vip p, linkUpMsg 3 idx] @ [MnlClose]"

lemma configureTun_requests:
  "configureTun dev mtu vip p =
     andThen (ifIndexFor dev) (\<lambda>idx. andThen netlinkOpen (\<lambda>nl.
     scoped MnlClose (requests nl idx mtu vip p)))"
  by (simp add: configureTun_def requests_def)

lemma configureTun_emits:
  assumes "\<And>e. isNetlinkCall e \<or> e \<in> {Socket AF_INET, MnlOpen, MnlBind, MnlClose} \<Longrightarrow> P e"
    and "\<And>s r. P (Ioctl s r)" and "\<And>s. P (Close s)"
  shows "emits P (configureTun dev mtu vip p)"
  unfolding configureTun_requests ifIndexFor_def netlinkOpen_def copyIfName_def
  by (auto intro!: emits_intros emits_lift emits_mono [OF requests_emits] assms)

lemma configureTun_run:
  "\<exists>r es. configureTun dev mtu vip p os h = Some (r, h @ es) \<and>
     count_list es MnlClose =
       (if MnlOpen \<in> set es \<and> osRes os (h @ take 3 es) MnlOpen \<noteq> 0 then 1 else 0) \<and>
     count_list es (Close (osRes os h (Socket AF_INET))) =
       (if 0 \<le> osRes os h (Socket AF_INET) then 1 else 0) \<and>
     (\<forall>nl. r = Inr nl \<longrightarrow> length (cstr dev) < 16 \<and>
        es = configureCalls (osRes os h (Socket AF_INET)) (osIfIndex os (h @ take 2 es))
               (osPortId os (h @ take 5 es)) dev mtu vip p)"
proof -
  define idx where "idx = osIfIndex os (h @ take 2 [Socket AF_INET,
    Ioctl (osRes os h (Socket AF_INET)) (SIOCGIFINDEX (cstr dev @ [CHR 0x00]))])"
  define h5 where "h5 = h @ [Socket AF_INET,
    Ioctl (osRes os h (Socket AF_INET)) (SIOCGIFINDEX (cstr dev @ [CHR 0x00])),
    Close (osRes os h (Socket AF_INET)), MnlOpen, MnlBind]"
  obtain r es where req: "requests \<lparr>portId = osPortId os h5, seqNo = 0\<rparr> idx mtu vip p os h5 = Some (r, h5 @ es)"
    and es: "list_all isNetlinkCall es"
    using emitsD [OF requests_emits] by blast
  have ok: "r = Inr nl \<Longrightarrow> es = netlinkCalls (osPortId os h5)
      [setMtuMsg 1 idx mtu, addAddrMsg 2 idx vip p, linkUpMsg 3 idx]" for nl
    using requests_ok [of "osPortId os h5" idx mtu vip p os h5 nl] req by auto
  have zero: "count_list es MnlClose = 0" "count_list es (Close s) = 0" for s
    by (rule count_no_netlink [OF es], simp add: isNetlinkCall_def)+
  show ?thesis
    unfolding configureTun_requests
    using req es ok zero
    by (cases r) (auto simp: io_simps ifIndexFor_def netlinkOpen_def copyIfName_def TUN_IFNAMSIZ_def
        idx_def h5_def configureCalls_def)
qed

text \<open>
  Property C32. \<open>configureTun\<close> always returns or throws. When it returns, the kernel was asked
  exactly this, in this order: the index of the device, its MTU, its address, and to bring it
  up, each with a request of its own sequence number and the acknowledgement of that number
  awaited before the next one. On every path, errors included, the netlink socket is closed
  once if it was opened and not at all otherwise, and so is the socket used for the index.
\<close>

theorem configureTun_calls:
  "\<exists>r es. configureTun dev mtu vip p os h = Some (r, h @ es) \<and>
     count_list es MnlClose =
       (if MnlOpen \<in> set es \<and> osRes os (h @ take 3 es) MnlOpen \<noteq> 0 then 1 else 0) \<and>
     count_list es (Close (osRes os h (Socket AF_INET))) =
       (if 0 \<le> osRes os h (Socket AF_INET) then 1 else 0) \<and>
     (\<forall>nl. r = Inr nl \<longrightarrow> length (cstr dev) < 16 \<and>
        es = configureCalls (osRes os h (Socket AF_INET)) (osIfIndex os (h @ take 2 es))
               (osPortId os (h @ take 5 es)) dev mtu vip p)"
  by (rule configureTun_run)

theorem configureTun_calls_witness:
  "\<exists>es. configureTun ''gofra0'' 1500 0x0A010203 24 exOs [] =
       Some (Inr \<lparr>portId = 9, seqNo = 3\<rparr>, es) \<and>
     es = configureCalls 5 3 9 ''gofra0'' 1500 0x0A010203 24 \<and> count_list es MnlClose = 1"
proof -
  have "\<exists>es. configureTun ''gofra0'' 1500 0x0A010203 24 exOs [] =
       Some (Inr \<lparr>portId = 9, seqNo = 3\<rparr>, es)"
    by (simp add: configureTun_def ifIndexFor_def netlinkOpen_def copyIfName_def TUN_IFNAMSIZ_def
        cstr_def setMtu_def addAddr_def linkUp_def nextSeq_def netlinkRun_def io_simps exOs_def)
  then show ?thesis
    using configureTun_calls [where dev = "''gofra0''" and mtu = 1500 and vip = "0x0A010203" and p = 24
        and os = exOs and h = "[]"]
    by (auto simp: exOs_def configureCalls_def)
qed

text \<open>The calls of a successful \<open>openTun\<close>.\<close>

definition openTunCalls :: "int \<Rightarrow> string \<Rightarrow> ev list" where
  "openTunCalls fd dev =
     [OpenTunDev, PoolFd fd,
      Ioctl fd (TUNSETIFF (cstr dev @ [CHR 0x00]) (IFF_TUN OR IFF_NO_PI OR IFF_MULTI_QUEUE OR IFF_VNET_HDR)),
      Ioctl fd (TUNSETVNETHDRSZ 10), Ioctl fd (TUNSETOFFLOAD (TUN_F_CSUM OR TUN_F_TSO4))]"

text \<open>
  \<open>openTun\<close> always returns or throws; its calls are an initial part of: open the
  device, hand the descriptor to the pool, attach the queue with a packet header, fix that
  header at 10 bytes, switch the checksum and TSO offloads on. It returns the descriptor
  exactly when all of them succeed, and a descriptor once opened is always owned by the pool.
\<close>

lemma openTun_calls:
  "\<exists>r es. openTun dev os h = Some (r, h @ es) \<and>
     es = take (length es) (openTunCalls (osRes os h OpenTunDev) dev) \<and>
     (case r of
        Inr fd \<Rightarrow> fd = osRes os h OpenTunDev \<and> 0 \<le> fd \<and> length es = 5 \<and> length (cstr dev) < 16
      | Inl e \<Rightarrow> 0 \<le> osRes os h OpenTunDev \<longrightarrow> PoolFd (osRes os h OpenTunDev) \<in> set es)"
  by (simp add: openTun_def io_simps copyIfName_def TUN_IFNAMSIZ_def openTunCalls_def)

lemma openTun_ok:
  "openTun dev os h = Some (Inr fd, h') \<Longrightarrow> h' = h @ openTunCalls fd dev"
  using openTun_calls [of dev os h] by (auto simp: openTunCalls_def)

lemma openTun_emits: "emits (\<lambda>e. case e of OpenTunDev \<Rightarrow> True | PoolFd _ \<Rightarrow> True | Ioctl _ _ \<Rightarrow> True | _ \<Rightarrow> False) (openTun dev)"
  unfolding openTun_def copyIfName_def by (intro emits_intros emits_lift) auto

lemma openTun_calls_witness:
  "\<exists>es. openTun ''gofra0'' exOs [] = Some (Inr 7, es) \<and> es = openTunCalls 7 ''gofra0''"
proof -
  have "openTun ''gofra0'' exOs [] = Some (Inr 7, openTunCalls 7 ''gofra0'')"
    by (simp add: openTun_def io_simps copyIfName_def TUN_IFNAMSIZ_def cstr_def exOs_def openTunCalls_def)
  then show ?thesis using openTun_calls [of "''gofra0''" exOs "[]"] by auto
qed

end
