(* ===== verification/Socks.thy ===== *)
theory Socks
  imports Os Addr
begin

text \<open>
  Model of \<^verbatim>\<open>socks.h\<close> and \<^verbatim>\<open>socks.cpp\<close>: opening the UDP socket of one underlay address,
  pinned to the network interface that owns the address.
\<close>

definition IFNAMSIZ :: nat where "IFNAMSIZ = 16"

section \<open>Operations\<close>

fun findIface :: "lib \<Rightarrow> u32 \<Rightarrow> (string \<times> sockaddr option) list \<Rightarrow> string option" where
  "findIface L want [] = None"
| "findIface L want ((name, a) # ifs) =
     (case a of
        Some sa \<Rightarrow>
          if sa_family sa = AF_INET \<and> sinAddrOf sa = want
          then Some (prefix L name (IFNAMSIZ - 1)) else findIface L want ifs
      | None \<Rightarrow> findIface L want ifs)"

text \<open>
  The pool owns the \<^verbatim>\<open>IfAddrs\<close> that holds the list of \<^verbatim>\<open>getifaddrs\<close>, made before the
  call, as it owns the descriptor of the socket (\<open>PoolIfAddrs\<close>, \<open>PoolFd\<close>): neither is
  released while the pool is in use, and the name found stays valid.
\<close>

definition ifaceFor :: "lib \<Rightarrow> sockaddr \<Rightarrow> string io" where
  "ifaceFor L src =
     andThen (call PoolIfAddrs) (\<lambda>_.
     andThen (call GetIfAddrs) (\<lambda>r.
     if r \<noteq> 0 then throwErrno ''getifaddrs''
     else andThen (ask osIfAddrs) (\<lambda>ifs.
     case findIface L (sinAddrOf src) ifs of
       Some name \<Rightarrow> ret name
     | None \<Rightarrow> throw (ErrnoError 0 ''no iface owns src''))))"

definition setBufForce :: "int \<Rightarrow> sockopt \<Rightarrow> string \<Rightarrow> int io" where
  "setBufForce fd opt name = callOr (SetSockOpt fd opt) name"

definition openUdpSocket :: "lib \<Rightarrow> sockaddr \<Rightarrow> i32 \<Rightarrow> i32 \<Rightarrow> int io" where
  "openUdpSocket L src rcvBuf sndBuf =
     andThen (callOr (Socket (sa_family src)) ''socket(UDP)'') (\<lambda>fd.
     andThen (call (PoolFd fd)) (\<lambda>_.
     andThen (ifaceFor L src) (\<lambda>name.
     andThen (callOr (SetSockOpt fd (BindToDevice name)) (''SO_BINDTODEVICE '' @ name)) (\<lambda>_.
     andThen (setBufForce fd (RcvBufForce rcvBuf) ''SO_RCVBUFFORCE'') (\<lambda>_.
     andThen (setBufForce fd (SndBufForce sndBuf) ''SO_SNDBUFFORCE'') (\<lambda>_.
     andThen (callOr (SetSockOpt fd ReuseAddr) ''SO_REUSEADDR'') (\<lambda>_.
     andThen (callOr (SetSockOpt fd UdpGro) ''UDP_GRO'') (\<lambda>_.
     andThen (call (Bind fd src (addrLen src))) (\<lambda>r.
     if r < 0
     then andThen (ask (\<lambda>os _. osNameInfo os src)) (\<lambda>(host, serv).
            throwErrno (''bind '' @ host @ '':'' @ serv))
     else ret fd)))))))))"

section \<open>Which calls are made\<close>

text \<open>The interface chosen owns the address, and no interface before it does.\<close>

definition owns :: "u32 \<Rightarrow> string \<times> sockaddr option \<Rightarrow> bool" where
  "owns want p \<longleftrightarrow> (case snd p of Some sa \<Rightarrow> sa_family sa = AF_INET \<and> sinAddrOf sa = want | None \<Rightarrow> False)"

lemma findIface_find:
  "findIface L want ifs = map_option (\<lambda>p. prefix L (fst p) (IFNAMSIZ - 1)) (find (owns want) ifs)"
  by (induction ifs) (auto simp: owns_def split: option.splits)

text \<open>The calls of a successful \<open>openUdpSocket\<close>.\<close>

definition socketCalls :: "int \<Rightarrow> string \<Rightarrow> sockaddr \<Rightarrow> i32 \<Rightarrow> i32 \<Rightarrow> ev list" where
  "socketCalls fd name src rcvBuf sndBuf =
     [Socket (sa_family src), PoolFd fd, PoolIfAddrs, GetIfAddrs, SetSockOpt fd (BindToDevice name),
      SetSockOpt fd (RcvBufForce rcvBuf), SetSockOpt fd (SndBufForce sndBuf),
      SetSockOpt fd ReuseAddr, SetSockOpt fd UdpGro, Bind fd src (addrLen src)]"

definition isSocketCall :: "ev \<Rightarrow> bool" where
  "isSocketCall e \<longleftrightarrow> (case e of Socket _ \<Rightarrow> True | PoolFd _ \<Rightarrow> True | PoolIfAddrs \<Rightarrow> True
     | GetIfAddrs \<Rightarrow> True | SetSockOpt _ _ \<Rightarrow> True | Bind _ _ _ \<Rightarrow> True | _ \<Rightarrow> False)"

lemma openUdpSocket_emits: "emits isSocketCall (openUdpSocket L src rb sb)"
  unfolding openUdpSocket_def ifaceFor_def setBufForce_def
  by (auto simp: isSocketCall_def intro!: emits_intros split: option.splits prod.splits)

text \<open>
  When a call has failed: \<^verbatim>\<open>getifaddrs\<close> if its result is not zero, the making of a pool object
  never, all others if their result is negative. What the exception says of it is
  \<open>failText\<close>.
\<close>

definition callFails :: "os \<Rightarrow> ev list \<Rightarrow> ev \<Rightarrow> bool" where
  "callFails os h e \<longleftrightarrow> (case e of PoolFd _ \<Rightarrow> False | PoolIfAddrs \<Rightarrow> False
     | GetIfAddrs \<Rightarrow> osRes os h e \<noteq> 0 | _ \<Rightarrow> osRes os h e < 0)"

definition failText :: "os \<Rightarrow> ev \<Rightarrow> string" where
  "failText os e =
     (case e of Socket _ \<Rightarrow> ''socket(UDP)'' | GetIfAddrs \<Rightarrow> ''getifaddrs''
      | Bind _ src _ \<Rightarrow> ''bind '' @ fst (osNameInfo os src) @ '':'' @ snd (osNameInfo os src)
      | SetSockOpt _ opt \<Rightarrow>
          (case opt of BindToDevice name \<Rightarrow> ''SO_BINDTODEVICE '' @ name | RcvBufForce _ \<Rightarrow> ''SO_RCVBUFFORCE''
           | SndBufForce _ \<Rightarrow> ''SO_SNDBUFFORCE'' | ReuseAddr \<Rightarrow> ''SO_REUSEADDR'' | UdpGro \<Rightarrow> ''UDP_GRO'')
      | _ \<Rightarrow> [])"

text \<open>The first interface that owns the address, asked for after the first four calls.\<close>

definition ifaceAfter :: "lib \<Rightarrow> os \<Rightarrow> ev list \<Rightarrow> sockaddr \<Rightarrow> ev list \<Rightarrow> string option" where
  "ifaceAfter L os h src es =
     map_option (\<lambda>p. prefix L (fst p) (IFNAMSIZ - 1)) (find (owns (sinAddrOf src)) (osIfAddrs os (h @ take 4 es)))"

text \<open>How \<open>openUdpSocket\<close> with the calls \<open>es\<close> ends: with the socket, or at its last call.\<close>

definition socketEnd :: "lib \<Rightarrow> sockaddr \<Rightarrow> i32 \<Rightarrow> i32 \<Rightarrow> os \<Rightarrow> ev list \<Rightarrow> ev list \<Rightarrow> error + int \<Rightarrow> bool" where
  "socketEnd L src rb sb os h es r \<longleftrightarrow>
     (let fd = osRes os h (Socket (sa_family src)); iface = ifaceAfter L os h src es
      in es = take (length es) (socketCalls fd (case iface of Some name \<Rightarrow> name | None \<Rightarrow> []) src rb sb) \<and>
         (\<forall>i<length es - 1. \<not> callFails os (h @ take i es) (es ! i)) \<and>
         (4 < length es \<longrightarrow> iface \<noteq> None) \<and>
         (case r of
            Inr fd' \<Rightarrow> fd' = fd \<and> length es = 10 \<and> \<not> callFails os (h @ butlast es) (last es)
          | Inl e \<Rightarrow> es \<noteq> [] \<and>
              (if callFails os (h @ butlast es) (last es)
               then e = ErrnoError (osErrno os (h @ es)) (failText os (last es))
               else length es = 4 \<and> iface = None \<and> e = ErrnoError 0 ''no iface owns src'')))"

lemma openUdpSocket_run:
  "\<exists>r es. openUdpSocket L src rb sb os h = Some (r, h @ es) \<and> socketEnd L src rb sb os h es r \<and>
     ((\<exists>fd. r = Inr fd) \<longleftrightarrow> length es = 10 \<and> (\<forall>i<length es. \<not> callFails os (h @ take i es) (es ! i))) \<and>
     (0 \<le> osRes os h (Socket (sa_family src)) \<longrightarrow> PoolFd (osRes os h (Socket (sa_family src))) \<in> set es)"
  unfolding openUdpSocket_def ifaceFor_def setBufForce_def findIface_find
  by (simp add: io_simps split: option.split prod.split)
    (auto simp: socketEnd_def callFails_def failText_def ifaceAfter_def socketCalls_def Let_def All_less_Suc
      split: option.splits)

lemma openUdpSocket_ok:
  assumes "openUdpSocket L src rb sb os h = Some (Inr fd, h')"
  shows "\<exists>name. h' = h @ socketCalls fd name src rb sb"
proof -
  have "length (socketCalls f n src rb sb) = 10" for f n by (simp add: socketCalls_def)
  then show ?thesis
    using openUdpSocket_run [of L src rb sb os h] assms by (auto simp: socketEnd_def Let_def)
qed

text \<open>
  Property C33. \<open>openUdpSocket\<close> always returns or throws. Its calls are, in this order, an
  initial part of: create the socket, hand it to the pool, find the interface, pin the
  socket to the first one that owns the source address, force the buffer sizes, reuse the
  address, enable GRO, bind. Every call before the last has succeeded. If the last one has not,
  its error is thrown. If it has, either all calls were made and the socket is returned, or no
  interface owns the address and that is thrown. So a socket is returned exactly when all ten
  calls succeed, and one that was created is always owned by the pool: no error path leaks it.
\<close>

theorem openUdpSocket_calls:
  "\<exists>r es. openUdpSocket L src rb sb os h = Some (r, h @ es) \<and> socketEnd L src rb sb os h es r \<and>
     ((\<exists>fd. r = Inr fd) \<longleftrightarrow> length es = 10 \<and> (\<forall>i<length es. \<not> callFails os (h @ take i es) (es ! i))) \<and>
     (0 \<le> osRes os h (Socket (sa_family src)) \<longrightarrow> PoolFd (osRes os h (Socket (sa_family src))) \<in> set es)"
  by (rule openUdpSocket_run)

theorem openUdpSocket_calls_witness:
  "\<exists>es. openUdpSocket exLib (Sin 7 2) 1 2 exOs [] = Some (Inr 5, es) \<and>
     es = socketCalls 5 ''eth1'' (Sin 7 2) 1 2"
proof -
  have "openUdpSocket exLib (Sin 7 2) 1 2 exOs [] = Some (Inr 5, socketCalls 5 ''eth1'' (Sin 7 2) 1 2)"
    by (simp add: openUdpSocket_def ifaceFor_def setBufForce_def io_simps findIface_find
        exOs_def exLib_def owns_def IFNAMSIZ_def AF_INET_def socketCalls_def)
  then show ?thesis
    using openUdpSocket_calls [of exLib "Sin 7 2" 1 2 exOs "[]"] by auto
qed

end
