(* ===== verification/Conn.thy ===== *)
theory Conn
  imports Peer Socks "HOL-Library.Multiset"
begin

text \<open>
  Model of \<^verbatim>\<open>conn.h\<close> and \<^verbatim>\<open>conn.cpp\<close>: the slots (source socket, peer endpoint) of the
  overlay, the round-robin choice of a live slot, and the maps from peer address and from
  incoming endpoint. A \<^verbatim>\<open>ConnSlot*\<close> is an index into \<open>allSlots_\<close> and a \<^verbatim>\<open>Conn*\<close> an index
  into \<open>conns_\<close>: every object made is appended there.
\<close>

section \<open>Data\<close>

record conn_slot =
  slotSrcAddr :: sockaddr
  slotSrcFd :: int
  slotSrcIdx :: u32
  slotDstAddr :: sockaddr
  slotLastSeen :: u64

record conn =
  connVip :: u32
  connTimeoutMs :: u64
  connSlots :: "nat list"
  connRr :: u64

record 'i conn_table =
  ctTimeoutMs :: u64
  ctSrcFds :: "int list"
  ctConns :: "conn list"
  ctSlots :: "conn_slot list"
  ctByVip :: 'i
  ctByEntry :: 'i

definition entryKey :: "u32 \<Rightarrow> sockaddr \<Rightarrow> u64" where
  "entryKey srcIdx sa = push_bit 32 (ucast srcIdx) OR ucast (sinAddrOf sa)"

definition ctSize :: "'i conn_table \<Rightarrow> nat" where "ctSize ct = length (ctConns ct)"
definition ctSrcCount :: "'i conn_table \<Rightarrow> nat" where "ctSrcCount ct = length (ctSrcFds ct)"
definition ctSrcFd :: "'i conn_table \<Rightarrow> nat \<Rightarrow> int option" where
  "ctSrcFd ct i = deref (ctSrcFds ct) i"

definition ctLookup :: "'i int_ops \<Rightarrow> 'i conn_table \<Rightarrow> u32 \<Rightarrow> nat option" where
  "ctLookup I ct v = mFind I (ctByVip ct) (ucast v)"

definition ctLookupSlot :: "'i int_ops \<Rightarrow> 'i conn_table \<Rightarrow> u32 \<Rightarrow> sockaddr \<Rightarrow> nat option" where
  "ctLookupSlot I ct srcIdx peerSrc = mFind I (ctByEntry ct) (entryKey srcIdx peerSrc)"

text \<open>\<open>visitSlots\<close> with the visitors of the code, which collect the pointers.\<close>

definition visitSlots :: "(nat \<Rightarrow> 's \<Rightarrow> 's) \<Rightarrow> 'i conn_table \<Rightarrow> 's \<Rightarrow> 's" where
  "visitSlots visit ct s = fold visit [0..<length (ctSlots ct)] s"

section \<open>The choice of a slot\<close>

text \<open>\<^verbatim>\<open>now - ls <= timeoutMs_\<close> on unsigned 64-bit integers.\<close>

definition slotAlive :: "u64 \<Rightarrow> u64 \<Rightarrow> conn_slot \<Rightarrow> bool" where
  "slotAlive timeoutMs now s \<longleftrightarrow> now - slotLastSeen s \<le> timeoutMs"

text \<open>The scan over \<open>k\<close>: the first live slot from \<open>base\<close> on. The outer option is safety.\<close>

fun connScan :: "conn_slot list \<Rightarrow> conn \<Rightarrow> u64 \<Rightarrow> nat \<Rightarrow> nat list \<Rightarrow> nat option option" where
  "connScan slots c now base [] = Some None"
| "connScan slots c now base (k # ks) =
     do { p \<leftarrow> deref (connSlots c) ((base + k) mod length (connSlots c));
          s \<leftarrow> deref slots p;
          if slotAlive (connTimeoutMs c) now s then Some (Some p)
          else connScan slots c now base ks }"

text \<open>\<open>None\<close> for a connection without slots: the code divides by zero.\<close>

definition connNext :: "conn_slot list \<Rightarrow> conn \<Rightarrow> u64 \<Rightarrow> (nat \<times> conn) option" where
  "connNext slots c now =
     (let n = length (connSlots c); c' = c\<lparr>connRr := connRr c + 1\<rparr>; t = connRr c' - 1
      in if n = 0 then None
         else do {
           let base = unat t mod n;
           found \<leftarrow> connScan slots c' now base [0..<n];
           (case found of
              Some p \<Rightarrow> Some (p, c')
            | None \<Rightarrow> do { p \<leftarrow> deref (connSlots c') base; Some (p, c') }) })"

section \<open>The constructor\<close>

text \<open>The body of the innermost loop.\<close>

definition pushSlot ::
  "'i int_ops \<Rightarrow> conn_slot \<Rightarrow> conn \<times> 'i conn_table \<Rightarrow> conn \<times> 'i conn_table"
where
  "pushSlot I s cc = (case cc of (c, ct) \<Rightarrow>
     let p = length (ctSlots ct)
     in (c\<lparr>connSlots := connSlots c @ [p]\<rparr>,
         ct\<lparr>ctSlots := ctSlots ct @ [s],
            ctByEntry := mInsert I (ctByEntry ct) (entryKey (slotSrcIdx s) (slotDstAddr s)) p\<rparr>))"

fun addSrcs ::
  "'i int_ops \<Rightarrow> peer \<Rightarrow> peer \<Rightarrow> u64 \<Rightarrow> nat \<Rightarrow> nat list \<Rightarrow> conn \<times> 'i conn_table
    \<Rightarrow> (conn \<times> 'i conn_table) option"
where
  "addSrcs I self p startMs j [] cc = Some cc"
| "addSrcs I self p startMs j (i # is) cc =
     do { src \<leftarrow> dst self i;
          fd \<leftarrow> deref (ctSrcFds (snd cc)) i;
          d \<leftarrow> dst p j;
          addSrcs I self p startMs j is (pushSlot I
            \<lparr>slotSrcAddr = src, slotSrcFd = fd, slotSrcIdx = of_nat i, slotDstAddr = d,
             slotLastSeen = startMs\<rparr> cc) }"

fun addDsts ::
  "'i int_ops \<Rightarrow> peer \<Rightarrow> peer \<Rightarrow> u64 \<Rightarrow> nat list \<Rightarrow> conn \<times> 'i conn_table
    \<Rightarrow> (conn \<times> 'i conn_table) option"
where
  "addDsts I self p startMs [] cc = Some cc"
| "addDsts I self p startMs (j # js) cc =
     do { cc' \<leftarrow> addSrcs I self p startMs j [0..<dstCount self] cc;
          addDsts I self p startMs js cc' }"

fun addConns ::
  "'i int_ops \<Rightarrow> 'i peer_table \<Rightarrow> nat \<Rightarrow> u64 \<Rightarrow> u64 \<Rightarrow> nat list \<Rightarrow> 'i conn_table
    \<Rightarrow> 'i conn_table option"
where
  "addConns I t self timeoutMs startMs [] ct = Some ct"
| "addConns I t self timeoutMs startMs (k # ks) ct =
     do { p \<leftarrow> peersAt t k;
          if k = self then addConns I t self timeoutMs startMs ks ct
          else do {
            me \<leftarrow> peersAt t self;
            (c, ct) \<leftarrow> addDsts I me p startMs [0..<dstCount p]
              (\<lparr>connVip = peerVip p, connTimeoutMs = timeoutMs, connSlots = [], connRr = 0\<rparr>, ct);
            addConns I t self timeoutMs startMs ks
              (ct\<lparr>ctConns := ctConns ct @ [c],
                  ctByVip := mInsert I (ctByVip ct) (ucast (peerVip p)) (length (ctConns ct))\<rparr>) } }"

definition createConnTable ::
  "lib \<Rightarrow> 'i int_ops \<Rightarrow> 'i peer_table \<Rightarrow> nat \<Rightarrow> i32 \<Rightarrow> i32 \<Rightarrow> u64 \<Rightarrow> 'i conn_table io"
where
  "createConnTable L I t self rcvBuf sndBuf timeoutMs =
     andThen (lift (map_option Inr (peersAt t self))) (\<lambda>me.
     andThen (forEachIO (\<lambda>i. andThen (lift (map_option Inr (dst me i)))
                               (\<lambda>src. openUdpSocket L src rcvBuf sndBuf)) [0..<dstCount me]) (\<lambda>fds.
     andThen clockIO (\<lambda>startMs.
     lift (map_option Inr (addConns I t self timeoutMs startMs [0..<peersSize t]
       \<lparr>ctTimeoutMs = timeoutMs, ctSrcFds = fds, ctConns = [], ctSlots = [],
        ctByVip = mEmpty I, ctByEntry = mEmpty I\<rparr>)))))"

section \<open>Round robin\<close>

definition connOk :: "conn_slot list \<Rightarrow> conn \<Rightarrow> bool" where
  "connOk slots c \<longleftrightarrow> connSlots c \<noteq> [] \<and> (\<forall>p\<in>set (connSlots c). p < length slots)"

text \<open>The live slots as a predicate on pointers, and the slots from a position on, cyclically.\<close>

definition live :: "conn_slot list \<Rightarrow> conn \<Rightarrow> u64 \<Rightarrow> nat \<Rightarrow> bool" where
  "live slots c now p \<longleftrightarrow> slotAlive (connTimeoutMs c) now (slots ! p)"

definition cycle :: "conn \<Rightarrow> nat list" where
  "cycle c = rotate (unat (connRr c) mod length (connSlots c)) (connSlots c)"

lemma connScan_find:
  assumes ok: "connOk slots c" and ks: "\<forall>k\<in>set ks. k < length (connSlots c)"
  shows "connScan slots c now base ks =
    Some (find (live slots c now) (map (\<lambda>k. connSlots c ! ((base + k) mod length (connSlots c))) ks))"
  using ks
proof (induction ks)
  case (Cons k ks)
  have n: "0 < length (connSlots c)" using ok by (simp add: connOk_def)
  then have "connSlots c ! ((base + k) mod length (connSlots c)) < length slots"
    using ok by (simp add: connOk_def)
  then show ?case using Cons n by (simp add: live_def)
qed simp

lemma rotate_map:
  "xs \<noteq> [] \<Longrightarrow> rotate b xs = map (\<lambda>k. xs ! ((b + k) mod length xs)) [0..<length xs]"
  by (rule nth_equalityI) (simp_all add: nth_rotate)

lemma connNext_eq:
  assumes ok: "connOk slots c"
  shows "connNext slots c now =
    Some (case find (live slots c now) (cycle c) of Some p \<Rightarrow> p | None \<Rightarrow> hd (cycle c),
          c\<lparr>connRr := connRr c + 1\<rparr>)"
proof -
  let ?c' = "c\<lparr>connRr := connRr c + 1\<rparr>" and ?n = "length (connSlots c)"
  let ?b = "unat (connRr c) mod length (connSlots c)"
  have n: "0 < ?n" using ok by (simp add: connOk_def)
  then have b: "?b < ?n" by simp
  have "live slots ?c' now = live slots c now" by (rule ext) (simp add: live_def)
  then have "connScan slots ?c' now ?b [0..<?n] = Some (find (live slots c now) (cycle c))"
    using connScan_find [of slots ?c' "[0..<?n]" now ?b] ok n
    by (simp add: connOk_def cycle_def rotate_map)
  moreover have "hd (cycle c) = connSlots c ! ?b"
    using n by (simp add: cycle_def hd_conv_nth nth_rotate)
  ultimately show ?thesis
    using n b by (auto simp: connNext_def Let_def split: option.splits)
qed

lemma set_cycle [simp]: "set (cycle c) = set (connSlots c)"
  by (simp add: cycle_def)

lemma cycle_nonempty: "connSlots c \<noteq> [] \<Longrightarrow> cycle c \<noteq> []"
  by (simp add: cycle_def)

lemma connNext_member:
  assumes "connOk slots c"
  shows "\<exists>p. connNext slots c now = Some (p, c\<lparr>connRr := connRr c + 1\<rparr>) \<and> p \<in> set (connSlots c) \<and>
    p < length slots"
proof -
  have ne: "cycle c \<noteq> []" using assms by (simp add: connOk_def cycle_nonempty)
  have "q \<in> set (connSlots c)" if "find P (cycle c) = Some q" for P q
    using that by (auto simp: find_Some_iff) (metis nth_mem set_cycle)
  moreover have "hd (cycle c) \<in> set (connSlots c)" using hd_in_set [OF ne] by simp
  ultimately show ?thesis
    using assms unfolding connNext_eq [OF assms] by (auto simp: connOk_def split: option.splits)
qed

text \<open>
  Property C20. \<open>next\<close> on a connection with slots is memory safe and picks the first live slot
  in cyclic order from the position of the ticket, and the slot at that position when all
  are dead; the counter advances by one.
\<close>

theorem connNext_picks:
  assumes "connOk slots c"
  shows "connNext slots c now =
    Some (case find (live slots c now) (cycle c) of Some p \<Rightarrow> p | None \<Rightarrow> hd (cycle c),
          c\<lparr>connRr := connRr c + 1\<rparr>)"
  using assms by (rule connNext_eq)

definition exSlots :: "conn_slot list" where
  "exSlots = map (\<lambda>(i, t). \<lparr>slotSrcAddr = Sin 7 1, slotSrcFd = int i, slotSrcIdx = of_nat i,
     slotDstAddr = Sin 7 (of_nat i), slotLastSeen = t\<rparr>) [(0, 100), (1, 5), (2, 100), (3, 7)]"

definition exConn :: conn where
  "exConn = \<lparr>connVip = 9, connTimeoutMs = 50, connSlots = [0, 1, 2, 3], connRr = 5\<rparr>"

lemma connOk_ex: "connOk exSlots exConn"
  by (simp add: connOk_def exSlots_def exConn_def)

theorem connNext_picks_witness:
  "map_option fst (connNext exSlots exConn 120) = Some 2"
proof -
  have "cycle exConn = [1, 2, 3, 0]" by (simp add: cycle_def exConn_def rotate1_def)
  then show ?thesis
    using connNext_picks [OF connOk_ex, of 120]
    by (simp add: live_def slotAlive_def exSlots_def exConn_def)
qed

text \<open>Successive calls, at the times given.\<close>

fun nexts :: "conn_slot list \<Rightarrow> conn \<Rightarrow> u64 list \<Rightarrow> (nat list \<times> conn) option" where
  "nexts slots c [] = Some ([], c)"
| "nexts slots c (t # ts) =
     do { (p, c') \<leftarrow> connNext slots c t;
          (ps, c'') \<leftarrow> nexts slots c' ts;
          Some (p # ps, c'') }"

lemma mset_rotate: "mset (rotate n xs) = mset xs"
proof -
  let ?k = "n mod length xs"
  have "mset (take ?k xs @ drop ?k xs) = mset xs" by (simp only: append_take_drop_id)
  then show ?thesis
    unfolding rotate_drop_take mset_append by (simp only: add.commute)
qed

lemma find_first: "P (xs ! 0) \<Longrightarrow> xs \<noteq> [] \<Longrightarrow> find P xs = Some (xs ! 0)"
  by (cases xs) auto

lemma nexts_alive:
  assumes ok: "connOk slots c" and up: "\<forall>t\<in>set ts. \<forall>p\<in>set (connSlots c). live slots c t p"
    and wrap: "unat (connRr c) + length ts \<le> 2 ^ 64"
  shows "\<exists>c'. nexts slots c ts = Some
    (map (\<lambda>k. connSlots c ! ((unat (connRr c) + k) mod length (connSlots c))) [0..<length ts], c')"
  using assms
proof (induction ts arbitrary: c)
  case (Cons t ts)
  let ?c = "c\<lparr>connRr := connRr c + 1\<rparr>" and ?n = "length (connSlots c)"
  have n: "connSlots c \<noteq> []" using Cons.prems(1) by (simp add: connOk_def)
  have cyc: "cycle c ! 0 = connSlots c ! (unat (connRr c) mod ?n)"
    using n by (simp add: cycle_def nth_rotate)
  then have "cycle c ! 0 \<in> set (connSlots c)" using n by simp
  then have "find (live slots c t) (cycle c) = Some (cycle c ! 0)"
    using Cons.prems(2) cycle_nonempty [OF n] by (intro find_first) auto
  then have nx: "connNext slots c t = Some (connSlots c ! (unat (connRr c) mod ?n), ?c)"
    using connNext_eq [OF Cons.prems(1)] cyc by simp
  show ?case
  proof (cases ts)
    case Nil
    then show ?thesis by (simp add: nx)
  next
    case (Cons t' ts')
    then have "unat (connRr c) + 1 < 2 ^ 64" using Cons.prems(3) by simp
    then have rr: "unat (connRr ?c) = unat (connRr c) + 1" by (simp add: unat_word_ariths)
    have "connOk slots ?c" "\<forall>t\<in>set ts. \<forall>p\<in>set (connSlots ?c). live slots ?c t p"
      using Cons.prems(1,2) by (auto simp: connOk_def live_def)
    with Cons.IH [of ?c] rr Cons.prems(3) obtain c' where "nexts slots ?c ts = Some
        (map (\<lambda>k. connSlots c ! ((unat (connRr c) + 1 + k) mod ?n)) [0..<length ts], c')"
      by auto
    then show ?thesis
      by (simp add: nx map_upt_Suc del: upt_Suc)
  qed
qed simp

text \<open>
  Property C21. As long as all slots are live and the 64-bit counter does not wrap, the
  slots are used in strict rotation: call number \<open>k\<close> gets the slot \<open>(rr + k) mod n\<close>, so any
  \<open>n\<close> calls in a row use every slot exactly as often as it occurs in the connection.
\<close>

theorem nexts_roundRobin:
  assumes "connOk slots c" and "\<forall>t\<in>set ts. \<forall>p\<in>set (connSlots c). live slots c t p"
    and "unat (connRr c) + length ts \<le> 2 ^ 64"
  shows "\<exists>ps c'. nexts slots c ts = Some (ps, c') \<and>
    ps = map (\<lambda>k. connSlots c ! ((unat (connRr c) + k) mod length (connSlots c))) [0..<length ts] \<and>
    (length ts = length (connSlots c) \<longrightarrow> mset ps = mset (connSlots c))"
proof -
  let ?ps = "map (\<lambda>k. connSlots c ! ((unat (connRr c) + k) mod length (connSlots c))) [0..<length ts]"
  have "?ps = rotate (unat (connRr c)) (connSlots c)" if "length ts = length (connSlots c)"
    using that assms(1) by (simp add: rotate_map connOk_def)
  then have "length ts = length (connSlots c) \<longrightarrow> mset ?ps = mset (connSlots c)"
    by (metis mset_rotate)
  with nexts_alive [OF assms] show ?thesis by auto
qed

theorem nexts_roundRobin_witness:
  "\<exists>ps c'. nexts exSlots (exConn\<lparr>connTimeoutMs := 500\<rparr>) [120, 121, 122, 123] = Some (ps, c') \<and>
     ps = [1, 2, 3, 0]"
proof -
  let ?c = "exConn\<lparr>connTimeoutMs := 500\<rparr>"
  have "connOk exSlots ?c" by (simp add: connOk_def exSlots_def exConn_def)
  moreover have "\<forall>t\<in>set [120, 121, 122, 123]. \<forall>p\<in>set (connSlots ?c). live exSlots ?c t p"
    by (simp add: live_def slotAlive_def exSlots_def exConn_def)
  ultimately show ?thesis
    using nexts_roundRobin [of exSlots ?c "[120, 121, 122, 123]"] by (simp add: exConn_def)
qed

text \<open>
  When a slot is live: its last packet is not older than the timeout, or lies
  in the future of the caller's clock by so much that the 64-bit difference wraps into the
  timeout. A slot whose last packet another thread has just stamped with a later time than
  the caller's \<open>now\<close> counts as dead for every timeout below the wrapped difference.
\<close>

lemma slotAlive_window:
  "slotAlive timeoutMs now s \<longleftrightarrow>
    (if slotLastSeen s \<le> now then unat now - unat (slotLastSeen s) \<le> unat timeoutMs
     else 2 ^ 64 - (unat (slotLastSeen s) - unat now) \<le> unat timeoutMs)"
proof -
  have "unat (slotLastSeen s) < 2 ^ 64" using unsigned_less [of "slotLastSeen s"] by simp
  then have "unat (now - slotLastSeen s) =
      (if slotLastSeen s \<le> now then unat now - unat (slotLastSeen s)
       else 2 ^ 64 - (unat (slotLastSeen s) - unat now))"
    by (auto simp: unat_sub_if_size word_le_nat_alt word_size)
  then show ?thesis by (simp add: slotAlive_def word_le_nat_alt)
qed

section \<open>What the constructor builds\<close>

text \<open>The slots of a peer, the sources fastest: slot \<open>j * N + i\<close> joins source \<open>i\<close> to endpoint \<open>j\<close>.\<close>

definition slotOf :: "peer \<Rightarrow> int list \<Rightarrow> peer \<Rightarrow> u64 \<Rightarrow> nat \<Rightarrow> nat \<Rightarrow> conn_slot" where
  "slotOf me fds p startMs j i =
     \<lparr>slotSrcAddr = peerDsts me ! i, slotSrcFd = fds ! i, slotSrcIdx = of_nat i,
      slotDstAddr = peerDsts p ! j, slotLastSeen = startMs\<rparr>"

definition slotsOf :: "peer \<Rightarrow> int list \<Rightarrow> peer \<Rightarrow> u64 \<Rightarrow> conn_slot list" where
  "slotsOf me fds p startMs =
     concat (map (\<lambda>j. map (slotOf me fds p startMs j) [0..<dstCount me]) [0..<dstCount p])"

definition slotKey :: "conn_slot \<Rightarrow> u64" where
  "slotKey s = entryKey (slotSrcIdx s) (slotDstAddr s)"

text \<open>The maps agree with the arrays.\<close>

definition entriesOk :: "'i int_ops \<Rightarrow> 'i conn_table \<Rightarrow> bool" where
  "entriesOk I ct \<longleftrightarrow> (\<forall>k. mFind I (ctByEntry ct) k = lastIndex (\<lambda>s. slotKey s = k) (ctSlots ct))"

definition vipsOk :: "'i int_ops \<Rightarrow> 'i conn_table \<Rightarrow> bool" where
  "vipsOk I ct \<longleftrightarrow> (\<forall>v. ctLookup I ct v = lastIndex (\<lambda>c. connVip c = v) (ctConns ct))"

fun pushAll :: "'i int_ops \<Rightarrow> conn_slot list \<Rightarrow> conn \<times> 'i conn_table \<Rightarrow> conn \<times> 'i conn_table" where
  "pushAll I [] cc = cc"
| "pushAll I (s # ss) cc = pushAll I ss (pushSlot I s cc)"

lemma pushAll_append: "pushAll I (xs @ ys) cc = pushAll I ys (pushAll I xs cc)"
  by (induction xs arbitrary: cc) auto

lemma pushAll_eq:
  assumes "mapOk I" and "entriesOk I ct"
  shows "\<exists>ct'. pushAll I ss (c, ct) =
      (c\<lparr>connSlots := connSlots c @ [length (ctSlots ct)..<length (ctSlots ct) + length ss]\<rparr>, ct') \<and>
    ctSlots ct' = ctSlots ct @ ss \<and> entriesOk I ct' \<and> ctSrcFds ct' = ctSrcFds ct \<and>
    ctConns ct' = ctConns ct \<and> ctByVip ct' = ctByVip ct \<and> ctTimeoutMs ct' = ctTimeoutMs ct"
  using assms(2)
proof (induction ss arbitrary: c ct)
  case (Cons s ss)
  let ?ct = "ct\<lparr>ctSlots := ctSlots ct @ [s], ctByEntry := mInsert I (ctByEntry ct)
      (entryKey (slotSrcIdx s) (slotDstAddr s)) (length (ctSlots ct))\<rparr>"
  have ok: "entriesOk I ?ct"
    using Cons.prems
    by (auto simp: entriesOk_def lastIndex_snoc mapOk_insert [OF assms(1)] slotKey_def)
  have "[length (ctSlots ct)..<length (ctSlots ct) + length (s # ss)] =
      length (ctSlots ct) # [Suc (length (ctSlots ct))..<Suc (length (ctSlots ct)) + length ss]"
    by (simp add: upt_conv_Cons del: upt_Suc)
  then show ?case
    using Cons.IH [OF ok, of "c\<lparr>connSlots := connSlots c @ [length (ctSlots ct)]\<rparr>"]
    by (simp add: pushSlot_def Let_def del: upt_Suc)
qed simp

lemma snd_pushSlot_fds [simp]: "ctSrcFds (snd (pushSlot I s cc)) = ctSrcFds (snd cc)"
  by (simp add: pushSlot_def Let_def split: prod.splits)

lemma addSrcs_eq:
  assumes "j < dstCount p" and "\<forall>i\<in>set is. i < dstCount me \<and> i < length (ctSrcFds (snd cc))"
  shows "addSrcs I me p startMs j is cc =
    Some (pushAll I (map (slotOf me (ctSrcFds (snd cc)) p startMs j) is) cc)"
  using assms(2)
proof (induction "is" arbitrary: cc)
  case (Cons i "is")
  then show ?case
    using assms(1) by (simp add: dst_def dstCount_def slotOf_def)
qed simp

lemma snd_pushAll_fds [simp]: "ctSrcFds (snd (pushAll I ss cc)) = ctSrcFds (snd cc)"
  by (induction ss arbitrary: cc) auto

lemma addDsts_eq:
  assumes "dstCount me \<le> length (ctSrcFds (snd cc))" and "\<forall>j\<in>set js. j < dstCount p"
  shows "addDsts I me p startMs js cc = Some (pushAll I
    (concat (map (\<lambda>j. map (slotOf me (ctSrcFds (snd cc)) p startMs j) [0..<dstCount me]) js)) cc)"
  using assms
proof (induction js arbitrary: cc)
  case (Cons j js)
  have "addSrcs I me p startMs j [0..<dstCount me] cc =
      Some (pushAll I (map (slotOf me (ctSrcFds (snd cc)) p startMs j) [0..<dstCount me]) cc)"
    using Cons.prems by (intro addSrcs_eq) auto
  then show ?case using Cons by (simp add: pushAll_append)
qed simp

text \<open>A connection as the constructor makes it for a peer.\<close>

definition connFor ::
  "conn_slot list \<Rightarrow> peer \<Rightarrow> int list \<Rightarrow> u64 \<Rightarrow> u64 \<Rightarrow> peer \<Rightarrow> conn \<Rightarrow> bool"
where
  "connFor slots me fds timeoutMs startMs p c \<longleftrightarrow>
     connVip c = peerVip p \<and> connTimeoutMs c = timeoutMs \<and> connRr c = 0 \<and>
     (\<forall>q\<in>set (connSlots c). q < length slots) \<and>
     map ((!) slots) (connSlots c) = slotsOf me fds p startMs"

lemma connFor_append:
  assumes "connFor slots me fds timeoutMs startMs p c"
  shows "connFor (slots @ rest) me fds timeoutMs startMs p c"
proof -
  have "map ((!) (slots @ rest)) (connSlots c) = map ((!) slots) (connSlots c)"
    using assms by (intro map_cong refl) (simp add: connFor_def nth_append)
  also have "\<dots> = slotsOf me fds p startMs" using assms by (simp add: connFor_def)
  finally show ?thesis
    using assms unfolding connFor_def by (elim conjE) (intro conjI; (assumption | auto))
qed

lemma map_nth_upt: "map ((!) (xs @ ys)) [length xs..<length xs + length ys] = ys"
  by (rule nth_equalityI) (simp_all add: nth_append)

text \<open>The peers other than self, and the whole table.\<close>

definition builds ::
  "'i int_ops \<Rightarrow> peer \<Rightarrow> int list \<Rightarrow> u64 \<Rightarrow> u64 \<Rightarrow> peer list \<Rightarrow> 'i conn_table \<Rightarrow> bool"
where
  "builds I me fds timeoutMs startMs ps ct \<longleftrightarrow>
     ctSrcFds ct = fds \<and> ctTimeoutMs ct = timeoutMs \<and> entriesOk I ct \<and> vipsOk I ct \<and>
     ctSlots ct = concat (map (\<lambda>p. slotsOf me fds p startMs) ps) \<and>
     list_all2 (connFor (ctSlots ct) me fds timeoutMs startMs) ps (ctConns ct)"

lemma addConns_builds:
  assumes I: "mapOk I" and me: "peersAt t self = Some me"
    and ks: "\<forall>k\<in>set ks. k < peersSize t" and fds: "dstCount me \<le> length fds"
    and ct: "builds I me fds timeoutMs startMs ps ct"
  shows "\<exists>ct'. addConns I t self timeoutMs startMs ks ct = Some ct' \<and>
    builds I me fds timeoutMs startMs
      (ps @ map (\<lambda>k. tabPeers t ! k) (filter (\<lambda>k. k \<noteq> self) ks)) ct'"
  using ks ct
proof (induction ks arbitrary: ct ps)
  case (Cons k ks)
  let ?p = "tabPeers t ! k"
  have p: "peersAt t k = Some ?p" using Cons.prems(1) by (simp add: peersAt_def peersSize_def)
  show ?case
  proof (cases "k = self")
    case True
    then show ?thesis using Cons p by simp
  next
    case False
    let ?c = "\<lparr>connVip = peerVip ?p, connTimeoutMs = timeoutMs, connSlots = [], connRr = 0\<rparr>"
    let ?ss = "slotsOf me fds ?p startMs"
    have b: "ctSrcFds ct = fds" "entriesOk I ct" "vipsOk I ct" "ctTimeoutMs ct = timeoutMs"
      using Cons.prems(2) by (auto simp: builds_def)
    have run: "addDsts I me ?p startMs [0..<dstCount ?p] (?c, ct) = Some (pushAll I ?ss (?c, ct))"
      using addDsts_eq [of me "(?c, ct)" "[0..<dstCount ?p]" ?p I startMs] fds b(1)
      by (simp add: slotsOf_def)
    obtain ct1 where ct1: "pushAll I ?ss (?c, ct) = (?c\<lparr>connSlots :=
          [length (ctSlots ct)..<length (ctSlots ct) + length ?ss]\<rparr>, ct1)"
        "ctSlots ct1 = ctSlots ct @ ?ss" "entriesOk I ct1" "ctSrcFds ct1 = ctSrcFds ct"
        "ctConns ct1 = ctConns ct" "ctByVip ct1 = ctByVip ct" "ctTimeoutMs ct1 = ctTimeoutMs ct"
      using pushAll_eq [OF I b(2), of ?ss ?c] by auto
    let ?c1 = "?c\<lparr>connSlots := [length (ctSlots ct)..<length (ctSlots ct) + length ?ss]\<rparr>"
    let ?ct = "ct1\<lparr>ctConns := ctConns ct @ [?c1],
        ctByVip := mInsert I (ctByVip ct) (ucast (peerVip ?p)) (length (ctConns ct))\<rparr>"
    have "entriesOk I ?ct" using ct1(3) by (simp add: entriesOk_def)
    moreover have "vipsOk I ?ct"
      using b(3) by (auto simp: vipsOk_def ctLookup_def mapOk_insert [OF I] lastIndex_snoc)
    moreover have "connFor (ctSlots ?ct) me fds timeoutMs startMs ?p ?c1"
      using map_nth_upt [of "ctSlots ct" ?ss] by (simp add: connFor_def ct1(2))
    moreover have "list_all2 (connFor (ctSlots ?ct) me fds timeoutMs startMs) ps (ctConns ct)"
      using Cons.prems(2) by (auto simp: builds_def ct1(2) intro!: connFor_append elim: list_all2_mono)
    ultimately have "builds I me fds timeoutMs startMs (ps @ [?p]) ?ct"
      using Cons.prems(2) ct1 b by (simp add: builds_def list_all2_appendI)
    moreover have "addConns I t self timeoutMs startMs (k # ks) ct
        = addConns I t self timeoutMs startMs ks ?ct"
      using False by (simp add: p me run ct1)
    ultimately show ?thesis using Cons.IH [of "ps @ [?p]" ?ct] Cons.prems(1) False by simp
  qed
qed simp

definition otherPeers :: "'i peer_table \<Rightarrow> nat \<Rightarrow> peer list" where
  "otherPeers t self = map (\<lambda>k. tabPeers t ! k) (filter (\<lambda>k. k \<noteq> self) [0..<peersSize t])"

text \<open>The loop that opens the source sockets.\<close>

definition openSource :: "lib \<Rightarrow> peer \<Rightarrow> i32 \<Rightarrow> i32 \<Rightarrow> nat \<Rightarrow> int io" where
  "openSource L me rb sb i =
     andThen (lift (map_option Inr (dst me i))) (\<lambda>src. openUdpSocket L src rb sb)"

lemma openSource_ok:
  assumes "openSource L me rb sb i os h = Some (Inr fd, h')"
  shows "\<exists>es. h' = h @ es \<and> (\<exists>name. es = socketCalls fd name (peerDsts me ! i) rb sb)"
proof (cases "dst me i")
  case (Some src)
  then have src: "src = peerDsts me ! i" by (simp add: dst_def deref_def split: if_splits)
  have "openUdpSocket L src rb sb os h = Some (Inr fd, h')"
    using assms Some by (simp add: openSource_def andThen_run lift_run)
  from openUdpSocket_ok [OF this] src show ?thesis by auto
qed (use assms in \<open>simp add: openSource_def andThen_run lift_run\<close>)

lemma openSource_emits: "i < dstCount me \<Longrightarrow> emits isSocketCall (openSource L me rb sb i)"
  unfolding openSource_def
  by (intro emits_andThen emits_lift openUdpSocket_emits) (simp add: dst_def dstCount_def)

lemma openSources_ok:
  assumes "forEachIO (openSource L me rb sb) [0..<n] os h = Some (Inr fds, h')"
  shows "length fds = n \<and> (\<exists>names. h' = h @
    concat (map (\<lambda>i. socketCalls (fds ! i) (names i) (peerDsts me ! i) rb sb) [0..<n]))"
proof -
  obtain ess where len: "length fds = n" and ess: "length ess = n" "h' = h @ concat ess"
      "\<forall>i<n. \<exists>name. ess ! i = socketCalls (fds ! i) name (peerDsts me ! i) rb sb"
    using forEachIO_rounds [of "openSource L me rb sb" os
        "\<lambda>i fd es. \<exists>name. es = socketCalls fd name (peerDsts me ! i) rb sb", OF _ assms]
      openSource_ok [of L me rb sb _ os]
    by auto
  from ess(3) obtain names where
      names: "\<And>i. i < n \<Longrightarrow> ess ! i = socketCalls (fds ! i) (names i) (peerDsts me ! i) rb sb"
    by metis
  have "ess = map (\<lambda>i. socketCalls (fds ! i) (names i) (peerDsts me ! i) rb sb) [0..<n]"
    by (rule nth_equalityI) (simp_all add: ess(1) names)
  with len ess(2) show ?thesis by auto
qed

text \<open>The table before the loop over the peers.\<close>

definition emptyTable :: "'i int_ops \<Rightarrow> int list \<Rightarrow> u64 \<Rightarrow> 'i conn_table" where
  "emptyTable I fds timeoutMs = \<lparr>ctTimeoutMs = timeoutMs, ctSrcFds = fds, ctConns = [],
     ctSlots = [], ctByVip = mEmpty I, ctByEntry = mEmpty I\<rparr>"

lemma emptyTable_builds: "mapOk I \<Longrightarrow> builds I me fds timeoutMs startMs [] (emptyTable I fds timeoutMs)"
  by (simp add: builds_def entriesOk_def vipsOk_def ctLookup_def mapOk_empty emptyTable_def)

lemma createConnTable_eq:
  assumes I: "mapOk I" and me: "peersAt t self = Some me"
  shows "case forEachIO (openSource L me rb sb) [0..<dstCount me] os h of
      Some (Inr fds, h1) \<Rightarrow> \<exists>ct. createConnTable L I t self rb sb timeoutMs os h
          = Some (Inr ct, h1 @ [Clock]) \<and>
        builds I me fds timeoutMs (fst (nowMs os h1)) (otherPeers t self) ct
    | r \<Rightarrow> createConnTable L I t self rb sb timeoutMs os h = map_option (map_prod (map_sum id (\<lambda>_. undefined)) id) r"
proof -
  have loop: "forEachIO (\<lambda>i. andThen (lift (map_option Inr (dst me i)))
      (\<lambda>src. openUdpSocket L src rb sb)) = forEachIO (openSource L me rb sb)"
    by (simp add: openSource_def [abs_def])
  show ?thesis
  proof (cases "forEachIO (openSource L me rb sb) [0..<dstCount me] os h")
    case None
    then show ?thesis by (simp add: createConnTable_def loop andThen_run lift_run me)
  next
    case (Some rh)
    then obtain r h1 where rh: "rh = (r, h1)" by (cases rh)
    show ?thesis
    proof (cases r)
      case (Inl e)
      then show ?thesis using Some rh by (simp add: createConnTable_def loop andThen_run lift_run me)
    next
      case (Inr fds)
      have "length fds = dstCount me"
        using openSources_ok [of L me rb sb "dstCount me" os h fds h1] Some rh Inr by simp
      then obtain ct where "addConns I t self timeoutMs (fst (nowMs os h1)) [0..<peersSize t]
            (emptyTable I fds timeoutMs) = Some ct"
          "builds I me fds timeoutMs (fst (nowMs os h1)) (otherPeers t self) ct"
        using addConns_builds [OF I me, of "[0..<peersSize t]" fds timeoutMs "fst (nowMs os h1)" "[]"
            "emptyTable I fds timeoutMs"] emptyTable_builds [OF I]
        by (auto simp: otherPeers_def)
      then show ?thesis
        using Some rh Inr
        by (simp add: createConnTable_def loop andThen_run lift_run clockIO_run me emptyTable_def)
    qed
  qed
qed

lemma createConnTable_run:
  assumes I: "mapOk I" and me: "peersAt t self = Some me"
    and run: "createConnTable L I t self rb sb timeoutMs os h = Some (Inr ct, h')"
  shows "\<exists>fds names startMs. length fds = dstCount me \<and>
    h' = h @ concat (map (\<lambda>i. socketCalls (fds ! i) (names i) (peerDsts me ! i) rb sb) [0..<dstCount me])
           @ [Clock] \<and>
    startMs = fst (nowMs os (butlast h')) \<and> builds I me fds timeoutMs startMs (otherPeers t self) ct"
proof -
  note eq = createConnTable_eq [OF I me, where L = L and rb = rb and sb = sb and os = os and h = h and timeoutMs = timeoutMs]
  obtain fds h1 where fds: "forEachIO (openSource L me rb sb) [0..<dstCount me] os h = Some (Inr fds, h1)"
    using eq run by (auto split: option.splits prod.splits sum.splits)
  with eq run have h1: "h' = h1 @ [Clock]" and b: "builds I me fds timeoutMs (fst (nowMs os h1)) (otherPeers t self) ct"
    by auto
  have "fst (nowMs os (butlast h')) = fst (nowMs os h1)" using h1 by simp
  with openSources_ok [OF fds] h1 b show ?thesis by auto
qed

lemma createConnTable_emits:
  assumes I: "mapOk I" and me: "peersAt t self = Some me"
    and P: "\<And>e. isSocketCall e \<Longrightarrow> P e" "P Clock"
  shows "emits P (createConnTable L I t self rb sb timeoutMs)"
  unfolding emits_def
proof (intro allI)
  fix os h
  have "emits isSocketCall (forEachIO (openSource L me rb sb) [0..<dstCount me])"
    by (rule emits_forEachIO) (simp add: openSource_emits)
  then have "emits P (forEachIO (openSource L me rb sb) [0..<dstCount me])"
    using P(1) by (rule emits_mono)
  then obtain r es where r: "forEachIO (openSource L me rb sb) [0..<dstCount me] os h = Some (r, h @ es)"
      "list_all P es"
    unfolding emits_def by blast
  then show "\<exists>r es. createConnTable L I t self rb sb timeoutMs os h = Some (r, h @ es) \<and> list_all P es"
    using createConnTable_eq [OF I me, where L = L and rb = rb and sb = sb and os = os and h = h
        and timeoutMs = timeoutMs] P(2)
    by (cases r) auto
qed

lemma createConnTable_returns:
  assumes I: "mapOk I" and me: "peersAt t self = Some me"
  shows "\<exists>r es. createConnTable L I t self rb sb timeoutMs os h = Some (r, h @ es)"
  using emitsD [OF createConnTable_emits [OF I me, of "\<lambda>_. True"]] by blast

section \<open>The interface of the table\<close>

text \<open>The invariant of a table in use.\<close>

definition connTableOk :: "'i int_ops \<Rightarrow> 'i conn_table \<Rightarrow> bool" where
  "connTableOk I ct \<longleftrightarrow> vipsOk I ct \<and> entriesOk I ct \<and> (\<forall>c\<in>set (ctConns ct). connOk (ctSlots ct) c)"

text \<open>The operations as the threads use them: \<open>conn->next(now)\<close> and the store to \<open>lastSeen\<close>.\<close>

definition ctNext :: "'i conn_table \<Rightarrow> nat \<Rightarrow> u64 \<Rightarrow> (nat \<times> 'i conn_table) option" where
  "ctNext ct c now = do {
     conn \<leftarrow> deref (ctConns ct) c;
     (p, conn') \<leftarrow> connNext (ctSlots ct) conn now;
     Some (p, ct\<lparr>ctConns := (ctConns ct)[c := conn']\<rparr>) }"

definition ctSlot :: "'i conn_table \<Rightarrow> nat \<Rightarrow> conn_slot option" where
  "ctSlot ct p = deref (ctSlots ct) p"

definition ctTouch :: "'i conn_table \<Rightarrow> nat \<Rightarrow> u64 \<Rightarrow> 'i conn_table option" where
  "ctTouch ct p now = do {
     s \<leftarrow> deref (ctSlots ct) p;
     Some (ct\<lparr>ctSlots := (ctSlots ct)[p := s\<lparr>slotLastSeen := now\<rparr>]\<rparr>) }"

text \<open>
  What the data plane relies on: a connection that \<open>lookup\<close> finds always yields a slot that
  exists, a slot found by \<open>lookupSlot\<close> exists, and choosing and stamping slots keep the table
  usable. \<open>has\<close> says that a connection exists.
\<close>

locale conn_view =
  fixes inv :: "'t \<Rightarrow> bool"
    and has :: "'t \<Rightarrow> nat \<Rightarrow> bool"
    and lookup :: "'t \<Rightarrow> u32 \<Rightarrow> nat option"
    and lookupSlot :: "'t \<Rightarrow> u32 \<Rightarrow> sockaddr \<Rightarrow> nat option"
    and nextSlot :: "'t \<Rightarrow> nat \<Rightarrow> u64 \<Rightarrow> (nat \<times> 't) option"
    and slot :: "'t \<Rightarrow> nat \<Rightarrow> conn_slot option"
    and touch :: "'t \<Rightarrow> nat \<Rightarrow> u64 \<Rightarrow> 't option"
  assumes lookup_has: "inv t \<Longrightarrow> lookup t v = Some c \<Longrightarrow> has t c"
    and lookupSlot_slot: "inv t \<Longrightarrow> lookupSlot t i sa = Some p \<Longrightarrow> \<exists>s. slot t p = Some s"
    and next_slot: "inv t \<Longrightarrow> has t c \<Longrightarrow>
      \<exists>p t' s. nextSlot t c now = Some (p, t') \<and> inv t' \<and> slot t' = slot t \<and> has t' = has t \<and>
        slot t p = Some s"
    and touch_slot: "inv t \<Longrightarrow> slot t p = Some s \<Longrightarrow>
      \<exists>t'. touch t p now = Some t' \<and> inv t' \<and> has t' = has t"
begin

lemma send_ready:
  assumes "inv t" and "lookup t v = Some c"
  shows "\<exists>p t' s. nextSlot t c now = Some (p, t') \<and> inv t' \<and> has t' c \<and> slot t' p = Some s"
proof -
  have h: "has t c" using lookup_has [OF assms] .
  from next_slot [OF assms(1) h, of now] h show ?thesis by auto
qed

lemma next_again:
  assumes "inv t" and "has t c"
  shows "\<exists>p t' s. nextSlot t c now = Some (p, t') \<and> inv t' \<and> has t' c \<and> slot t' p = Some s"
  using next_slot [OF assms, of now] assms(2) by auto

lemma seen_ready:
  assumes "inv t" and "lookupSlot t i sa = Some p"
  shows "\<exists>t'. touch t p now = Some t' \<and> inv t' \<and> has t' = has t"
  using lookupSlot_slot [OF assms] touch_slot [OF assms(1)] by blast

end

lemma lastIndex_update:
  assumes "p < length xs" and "P x \<longleftrightarrow> P (xs ! p)"
  shows "lastIndex P (xs[p := x]) = lastIndex P xs"
proof -
  have "filter (\<lambda>i. P (xs[p := x] ! i)) [0..<length xs] = filter (\<lambda>i. P (xs ! i)) [0..<length xs]"
    using assms by (intro filter_cong) (auto simp: nth_list_update)
  then show ?thesis by (simp add: lastIndex_def)
qed

lemma ctNext_ok:
  assumes ok: "connTableOk I ct" and c: "c < length (ctConns ct)"
  shows "\<exists>p ct'. ctNext ct c now = Some (p, ct') \<and> connTableOk I ct' \<and> ctSlots ct' = ctSlots ct \<and>
    length (ctConns ct') = length (ctConns ct) \<and> p < length (ctSlots ct) \<and>
    p \<in> set (connSlots (ctConns ct ! c)) \<and>
    map connSlots (ctConns ct') = map connSlots (ctConns ct) \<and>
    ctSrcFds ct' = ctSrcFds ct"
proof -
  let ?c = "ctConns ct ! c"
  let ?ct = "ct\<lparr>ctConns := (ctConns ct)[c := ?c\<lparr>connRr := connRr ?c + 1\<rparr>]\<rparr>"
  have okc: "connOk (ctSlots ct) ?c" using ok c by (simp add: connTableOk_def)
  obtain p where p: "connNext (ctSlots ct) ?c now = Some (p, ?c\<lparr>connRr := connRr ?c + 1\<rparr>)"
      "p \<in> set (connSlots ?c)" "p < length (ctSlots ct)"
    using connNext_member [OF okc] by blast
  have "connTableOk I ?ct"
    using ok okc c set_update_subset_insert [of "ctConns ct" c "?c\<lparr>connRr := connRr ?c + 1\<rparr>"]
    by (auto simp: connTableOk_def vipsOk_def ctLookup_def entriesOk_def lastIndex_update connOk_def)
  moreover have "map connSlots (ctConns ?ct) = map connSlots (ctConns ct)"
    using c by (simp add: map_update list_update_same_conv)
  ultimately show ?thesis using p c by (simp add: ctNext_def)
qed

lemma ctTouch_ok:
  assumes ok: "connTableOk I ct" and p: "p < length (ctSlots ct)"
  shows "\<exists>ct'. ctTouch ct p now = Some ct' \<and> connTableOk I ct' \<and>
    length (ctConns ct') = length (ctConns ct) \<and>
    ctSlots ct' = (ctSlots ct)[p := (ctSlots ct ! p)\<lparr>slotLastSeen := now\<rparr>]"
proof -
  have "slotKey (s\<lparr>slotLastSeen := now\<rparr>) = slotKey s" for s by (simp add: slotKey_def)
  then have "connTableOk I (ct\<lparr>ctSlots := (ctSlots ct)[p := (ctSlots ct ! p)\<lparr>slotLastSeen := now\<rparr>]\<rparr>)"
    using ok p
    by (auto simp: connTableOk_def vipsOk_def ctLookup_def entriesOk_def lastIndex_update connOk_def)
  then show ?thesis using p by (simp add: ctTouch_def)
qed

interpretation cv: conn_view "connTableOk I" "\<lambda>ct c. c < ctSize ct" "ctLookup I" "ctLookupSlot I"
  ctNext ctSlot ctTouch for I :: "'i int_ops"
proof unfold_locales
  fix ct :: "'i conn_table" and v c i sa p s now
  assume ok: "connTableOk I ct"
  show "c < ctSize ct" if "ctLookup I ct v = Some c"
    using ok that lastIndex_Some [of "\<lambda>c. connVip c = v" "ctConns ct" c]
    by (simp add: connTableOk_def vipsOk_def ctSize_def)
  show "\<exists>s. ctSlot ct p = Some s" if "ctLookupSlot I ct i sa = Some p"
    using ok that lastIndex_Some [of "\<lambda>s. slotKey s = entryKey i sa" "ctSlots ct" p]
    by (simp add: connTableOk_def entriesOk_def ctLookupSlot_def ctSlot_def)
  show "\<exists>p ct' s. ctNext ct c now = Some (p, ct') \<and> connTableOk I ct' \<and> ctSlot ct' = ctSlot ct \<and>
      (\<lambda>c. c < ctSize ct') = (\<lambda>c. c < ctSize ct) \<and> ctSlot ct p = Some s" if "c < ctSize ct"
    using ctNext_ok [OF ok, of c now] that by (force simp: ctSize_def ctSlot_def fun_eq_iff)
  show "\<exists>ct'. ctTouch ct p now = Some ct' \<and> connTableOk I ct' \<and>
      (\<lambda>c. c < ctSize ct') = (\<lambda>c. c < ctSize ct)" if "ctSlot ct p = Some s"
    using ctTouch_ok [OF ok, of p now] that
    by (auto simp: ctSlot_def deref_def ctSize_def split: if_splits)
qed

section \<open>Properties of the table\<close>

lemma slotsOf_nonempty: "peerDsts me \<noteq> [] \<Longrightarrow> peerDsts p \<noteq> [] \<Longrightarrow> slotsOf me fds p startMs \<noteq> []"
  by (auto simp: slotsOf_def dstCount_def intro: exI [of _ 0])

lemma set_otherPeers: "set (otherPeers t self) \<subseteq> set (tabPeers t)"
  by (auto simp: otherPeers_def peersSize_def)

lemma builds_connTableOk:
  assumes b: "builds I me fds timeoutMs startMs ps ct" and me: "peerDsts me \<noteq> []"
    and ps: "\<forall>p\<in>set ps. peerDsts p \<noteq> []"
  shows "connTableOk I ct"
proof -
  have "connOk (ctSlots ct) c" if c: "c \<in> set (ctConns ct)" for c
  proof -
    obtain i where i: "i < length (ctConns ct)" "c = ctConns ct ! i"
      using c unfolding in_set_conv_nth by blast
    have l: "list_all2 (connFor (ctSlots ct) me fds timeoutMs startMs) ps (ctConns ct)"
      using b unfolding builds_def by blast
    then have "connFor (ctSlots ct) me fds timeoutMs startMs (ps ! i) c" "i < length ps"
      using i by (auto simp: list_all2_conv_all_nth)
    moreover from this(2) have "slotsOf me fds (ps ! i) startMs \<noteq> []"
      using me ps by (intro slotsOf_nonempty) auto
    ultimately show ?thesis by (auto simp: connFor_def connOk_def)
  qed
  then show ?thesis using b by (simp add: connTableOk_def builds_def)
qed

lemma createConnTable_facts:
  assumes "mapOk I" and "tableOk I t" and "peersAt t self = Some me"
  shows "(\<exists>r es. createConnTable L I t self rb sb timeoutMs os h = Some (r, h @ es)) \<and>
    (\<forall>ct h'. createConnTable L I t self rb sb timeoutMs os h = Some (Inr ct, h') \<longrightarrow>
      connTableOk I ct \<and>
      (\<exists>fds names startMs. ctSrcFds ct = fds \<and> length fds = dstCount me \<and>
        h' = h @ concat (map (\<lambda>i. socketCalls (fds ! i) (names i) (peerDsts me ! i) rb sb)
               [0..<dstCount me]) @ [Clock] \<and>
        startMs = fst (nowMs os (butlast h')) \<and>
        ctSlots ct = concat (map (\<lambda>p. slotsOf me fds p startMs) (otherPeers t self)) \<and>
        list_all2 (connFor (ctSlots ct) me fds timeoutMs startMs) (otherPeers t self) (ctConns ct)))"
proof (intro conjI allI impI)
  show "\<exists>r es. createConnTable L I t self rb sb timeoutMs os h = Some (r, h @ es)"
    using createConnTable_returns [OF assms(1,3)] .
  fix ct h'
  assume run: "createConnTable L I t self rb sb timeoutMs os h = Some (Inr ct, h')"
  obtain fds names startMs where b: "length fds = dstCount me"
      "h' = h @ concat (map (\<lambda>i. socketCalls (fds ! i) (names i) (peerDsts me ! i) rb sb)
        [0..<dstCount me]) @ [Clock]" "startMs = fst (nowMs os (butlast h'))"
      "builds I me fds timeoutMs startMs (otherPeers t self) ct"
    using createConnTable_run [OF assms(1,3) run] by blast
  have dsts: "\<forall>p\<in>set (tabPeers t). peerDsts p \<noteq> []" using assms(2) by (simp add: tableOk_def)
  moreover have "me \<in> set (tabPeers t)"
    using assms(3) by (auto simp: peersAt_def deref_def split: if_splits)
  ultimately show "connTableOk I ct"
    using builds_connTableOk [OF b(4)] set_otherPeers [of t self] by auto
  show "\<exists>fds names startMs. ctSrcFds ct = fds \<and> length fds = dstCount me \<and>
      h' = h @ concat (map (\<lambda>i. socketCalls (fds ! i) (names i) (peerDsts me ! i) rb sb)
             [0..<dstCount me]) @ [Clock] \<and>
      startMs = fst (nowMs os (butlast h')) \<and>
      ctSlots ct = concat (map (\<lambda>p. slotsOf me fds p startMs) (otherPeers t self)) \<and>
      list_all2 (connFor (ctSlots ct) me fds timeoutMs startMs) (otherPeers t self) (ctConns ct)"
    using b by (auto simp: builds_def)
qed

text \<open>
  Property C24. Building the connection table of a well-formed peer table always returns or
  throws. If it returns, one socket per own endpoint was opened, in order, each with the full
  sequence of calls, and then the clock was read; the table has one connection per other peer,
  whose slots are all pairs (source, endpoint) with the sources fastest, started as live at the
  time that the clock gave after the sockets; and the table satisfies the invariant the data
  plane needs.
\<close>

theorem createConnTable_correct:
  assumes "mapOk I" and "tableOk I t" and "peersAt t self = Some me"
  shows "(\<exists>r es. createConnTable L I t self rb sb timeoutMs os h = Some (r, h @ es)) \<and>
    (\<forall>ct h'. createConnTable L I t self rb sb timeoutMs os h = Some (Inr ct, h') \<longrightarrow>
      connTableOk I ct \<and>
      (\<exists>fds names startMs. ctSrcFds ct = fds \<and> length fds = dstCount me \<and>
        h' = h @ concat (map (\<lambda>i. socketCalls (fds ! i) (names i) (peerDsts me ! i) rb sb)
               [0..<dstCount me]) @ [Clock] \<and>
        startMs = fst (nowMs os (butlast h')) \<and>
        ctSlots ct = concat (map (\<lambda>p. slotsOf me fds p startMs) (otherPeers t self)) \<and>
        list_all2 (connFor (ctSlots ct) me fds timeoutMs startMs) (otherPeers t self) (ctConns ct)))"
  using assms by (rule createConnTable_facts)

lemma exTable_run:
  "\<exists>ct h'. createConnTable exLib exMap exTable 0 1 2 50 exOs [] = Some (Inr ct, h')"
  by (simp add: createConnTable_def io_simps peersAt_def exTable_def dst_def dstCount_def
      openUdpSocket_def ifaceFor_def setBufForce_def findIface_find exOs_def exLib_def owns_def
      AF_INET_def peersSize_def upt_rec pushSlot_def exMap_def Let_def)

theorem createConnTable_correct_witness:
  "\<exists>ct h'. createConnTable exLib exMap exTable 0 1 2 50 exOs [] = Some (Inr ct, h') \<and>
     connTableOk exMap ct \<and> map slotDstAddr (ctSlots ct) = [Sin 7 2]"
proof -
  let ?me = "\<lparr>peerVip = 5, peerDsts = [Sin 7 1]\<rparr>"
  have at: "peersAt exTable 0 = Some ?me" by (simp add: peersAt_def exTable_def)
  have other: "otherPeers exTable 0 = [\<lparr>peerVip = 6, peerDsts = [Sin 7 2]\<rparr>]"
    by (simp add: otherPeers_def peersSize_def exTable_def upt_rec)
  obtain ct h' where run: "createConnTable exLib exMap exTable 0 1 2 50 exOs [] = Some (Inr ct, h')"
    using exTable_run by blast
  from createConnTable_correct [OF mapOk_exMap tableOk_exTable at,
      where L = exLib and rb = 1 and sb = 2 and timeoutMs = 50 and os = exOs and h = "[]"] run
  obtain fds startMs where "connTableOk exMap ct"
      "ctSlots ct = concat (map (\<lambda>p. slotsOf ?me fds p startMs) (otherPeers exTable 0))"
    by auto
  then show ?thesis
    using run by (auto simp: other slotsOf_def slotOf_def dstCount_def)
qed

text \<open>The key of an entry determines the source and the IPv4 address, and nothing else.\<close>

lemma entryKey_eq:
  "entryKey i sa = entryKey i' sa' \<longleftrightarrow> i = i' \<and> sinAddrOf sa = sinAddrOf sa'"
proof -
  have hi: "ucast (drop_bit 32 (push_bit 32 (ucast a) OR ucast b :: u64)) = a"
    and lo: "ucast (push_bit 32 (ucast a) OR ucast b :: u64) = b" for a b :: u32
    by (rule bit_eqI, auto simp: bit_simps dest: bit_imp_le_length)+
  show ?thesis
    unfolding entryKey_def using hi lo by metis
qed

text \<open>
  Property C37. In a table in use, the slot that an incoming packet refreshes is the last one
  made with the receiving socket and the IPv4 address of the sender. The port of the sender
  plays no role: of two peer endpoints that share an address only the last one's slot is
  ever refreshed, and a packet from any port of the address refreshes it.
\<close>

theorem ctLookupSlot_address:
  assumes "connTableOk I ct"
  shows "ctLookupSlot I ct srcIdx peerSrc =
    lastIndex (\<lambda>s. slotSrcIdx s = srcIdx \<and> sinAddrOf (slotDstAddr s) = sinAddrOf peerSrc) (ctSlots ct)"
  using assms by (simp add: connTableOk_def entriesOk_def ctLookupSlot_def slotKey_def entryKey_eq)

definition exConnTable :: "(u64 \<Rightarrow> nat option) conn_table" where
  "exConnTable = snd (pushAll exMap
     [\<lparr>slotSrcAddr = Sin 7 1, slotSrcFd = 5, slotSrcIdx = 0, slotDstAddr = Sin 7 2, slotLastSeen = 3\<rparr>,
      \<lparr>slotSrcAddr = Sin 7 1, slotSrcFd = 5, slotSrcIdx = 0, slotDstAddr = Sin 8 2, slotLastSeen = 3\<rparr>]
     (exConn, emptyTable exMap [5] 50))"

theorem ctLookupSlot_address_witness:
  "ctLookupSlot exMap exConnTable 0 (Sin 7 2) = Some 1"
proof -
  obtain ct' where ct': "pushAll exMap
     [\<lparr>slotSrcAddr = Sin 7 1, slotSrcFd = 5, slotSrcIdx = 0, slotDstAddr = Sin 7 2, slotLastSeen = 3\<rparr>,
      \<lparr>slotSrcAddr = Sin 7 1, slotSrcFd = 5, slotSrcIdx = 0, slotDstAddr = Sin 8 2, slotLastSeen = 3\<rparr>]
     (exConn, emptyTable exMap [5] 50) = (exConn\<lparr>connSlots := connSlots exConn @ [0, 1]\<rparr>, ct')"
    "ctSlots ct' = [\<lparr>slotSrcAddr = Sin 7 1, slotSrcFd = 5, slotSrcIdx = 0, slotDstAddr = Sin 7 2, slotLastSeen = 3\<rparr>,
      \<lparr>slotSrcAddr = Sin 7 1, slotSrcFd = 5, slotSrcIdx = 0, slotDstAddr = Sin 8 2, slotLastSeen = 3\<rparr>]"
    "entriesOk exMap ct'" "ctConns ct' = []" "ctByVip ct' = (\<lambda>_. None)"
    using pushAll_eq [OF mapOk_exMap, of "emptyTable exMap [5] 50" _ exConn]
      emptyTable_builds [OF mapOk_exMap, where me = undefined and fds = "[5]" and timeoutMs = 50
        and startMs = 0]
    by (force simp: builds_def emptyTable_def exMap_def)
  have "connTableOk exMap ct'"
    using ct'(3-5) by (simp add: connTableOk_def vipsOk_def ctLookup_def exMap_def)
  from ctLookupSlot_address [OF this, of 0 "Sin 7 2"] show ?thesis
    by (simp add: exConnTable_def ct'(1,2) lastIndex_def Let_def upt_rec del: pushAll.simps)
qed

end
