(* ===== verification/Csum.thy ===== *)
theory Csum
  imports Prelude
begin

text \<open>
  Model of \<^verbatim>\<open>csum.cpp\<close>: the Internet checksum, computed on native little-endian
  64-bit words in a 128-bit accumulator with one byte swap at each end, and folded to
  16 bits. The lemmas relate it to the definition of RFC 1071: the one's complement sum
  of the data's big-endian 16-bit words.
\<close>

section \<open>The code\<close>

text \<open>\<open>loadU64\<close>, \<open>loadU32\<close>, \<open>loadU16\<close>: unaligned native loads of the first bytes.\<close>

definition loadU64 :: "bytes \<Rightarrow> u64" where
  "loadU64 p = leWord (take 8 p)"

definition loadU32 :: "bytes \<Rightarrow> u32" where
  "loadU32 p = leWord (take 4 p)"

definition loadU16 :: "bytes \<Rightarrow> u16" where
  "loadU16 p = leWord (take 2 p)"

text \<open>\<^verbatim>\<open>__builtin_bswap64\<close>.\<close>

definition bswap64 :: "u64 \<Rightarrow> u64" where
  "bswap64 x = leWord (rev (leBytes 8 x))"

text \<open>The \<open>while (len >= 8)\<close> loop: the accumulator and the bytes it leaves.\<close>

fun sumU64 :: "128 word \<Rightarrow> bytes \<Rightarrow> 128 word \<times> bytes" where
  "sumU64 ac d =
     (if 8 \<le> length d then sumU64 (ac + ucast (loadU64 d)) (drop 8 d) else (ac, d))"

declare sumU64.simps [simp del]

definition sumU32 :: "128 word \<times> bytes \<Rightarrow> 128 word \<times> bytes" where
  "sumU32 s = (case s of (ac, d) \<Rightarrow>
     if 4 \<le> length d then (ac + ucast (loadU32 d), drop 4 d) else (ac, d))"

definition sumU16 :: "128 word \<times> bytes \<Rightarrow> 128 word \<times> bytes" where
  "sumU16 s = (case s of (ac, d) \<Rightarrow>
     if 2 \<le> length d then (ac + ucast (loadU16 d), drop 2 d) else (ac, d))"

definition sumTail :: "128 word \<times> bytes \<Rightarrow> 128 word" where
  "sumTail s = (case s of (ac, d) \<Rightarrow>
     if length d = 1 then ac + ucast (ucast (d ! 0) :: u64) else ac)"

text \<open>The end-around carry from 128 to 64 bits.\<close>

definition foldCarry64 :: "128 word \<Rightarrow> u64" where
  "foldCarry64 ac =
     (let lo = ucast ac :: u64;
          hi = ucast (drop_bit 64 ac) :: u64;
          sum = lo + hi
      in if sum < lo then sum + 1 else sum)"

definition checksumNoFold :: "bytes \<Rightarrow> u64 \<Rightarrow> u64" where
  "checksumNoFold data initial =
     (let ac = ucast (bswap64 initial) :: 128 word
      in bswap64 (foldCarry64 (sumTail (sumU16 (sumU32 (sumU64 ac data))))))"

definition fold16 :: "u64 \<Rightarrow> u64" where
  "fold16 ac = drop_bit 16 ac + (ac AND 0xFFFF)"

definition checksum :: "bytes \<Rightarrow> u64 \<Rightarrow> u16" where
  "checksum data initial =
     (let ac = checksumNoFold data initial;
          ac = fold16 ac;
          ac = fold16 ac;
          ac = fold16 ac;
          ac = fold16 ac
      in ucast ac)"

definition pseudoHeaderChecksumNoFold :: "u8 \<Rightarrow> bytes \<Rightarrow> bytes \<Rightarrow> u16 \<Rightarrow> u64" where
  "pseudoHeaderChecksumNoFold protocol srcAddr dstAddr totalLen =
     (let sum = checksumNoFold srcAddr 0;
          sum = checksumNoFold dstAddr sum;
          tail = [0, protocol, ucast (drop_bit 8 totalLen), ucast totalLen]
      in checksumNoFold tail sum)"

section \<open>The reference: one's complement sums\<close>

text \<open>
  \<open>be16_sum\<close> adds the big-endian 16-bit words of the data, an odd last byte padded with
  a zero byte (RFC 1071, section 1). \<open>oc16\<close> is the 16-bit one's complement value of a sum:
  every carry out of bit 15 is added back in, so a positive sum is never reduced to 0.
\<close>

fun be16_sum :: "bytes \<Rightarrow> nat" where
  "be16_sum [] = 0"
| "be16_sum [a] = be16 a 0"
| "be16_sum (a # b # xs) = be16 a b + be16_sum xs"

definition oc16 :: "nat \<Rightarrow> nat" where
  "oc16 n = (if n = 0 then 0 else (n - 1) mod 65535 + 1)"

text \<open>Two sums with the same one's complement value.\<close>

definition ocEq :: "nat \<Rightarrow> nat \<Rightarrow> bool" where
  "ocEq x y \<longleftrightarrow> x mod 65535 = y mod 65535 \<and> (x = 0 \<longleftrightarrow> y = 0)"

lemma ocEq_refl [simp]: "ocEq x x"
  by (simp add: ocEq_def)

lemma ocEq_sym: "ocEq x y \<Longrightarrow> ocEq y x"
  by (simp add: ocEq_def)

lemma ocEq_trans [trans]: "ocEq x y \<Longrightarrow> ocEq y z \<Longrightarrow> ocEq x z"
  by (simp add: ocEq_def)

lemma ocEq_add: "ocEq x x' \<Longrightarrow> ocEq y y' \<Longrightarrow> ocEq (x + y) (x' + y')"
  unfolding ocEq_def by (metis add_is_0 mod_add_cong)

lemma ocEq_mult: "ocEq x y \<Longrightarrow> 0 < c \<Longrightarrow> ocEq (c * x) (c * y)"
  unfolding ocEq_def by (metis mod_mult_cong mult_eq_0_iff less_numeral_extra(3))

lemma ocEq_65536: "ocEq (65536 * x) x"
proof -
  have "(65536 * x) mod 65535 = (65535 * x + x) mod 65535" by simp
  also have "\<dots> = x mod 65535" by (simp only: mod_mult_self4)
  finally show ?thesis by (simp add: ocEq_def)
qed

lemma ocEq_reduce: "ocEq (x + 65535 * k) x" if "0 < x"
  using that by (simp add: ocEq_def)

lemma oc16_eq_iff: "oc16 x = oc16 y \<longleftrightarrow> ocEq x y"
proof (cases "x = 0 \<or> y = 0")
  case False
  then obtain a b where xy: "x = Suc a" "y = Suc b" by (metis not0_implies_Suc)
  have "Suc a mod 65535 = Suc b mod 65535 \<longleftrightarrow> a mod 65535 = b mod 65535"
    by (auto simp: mod_Suc)
  with xy show ?thesis by (simp add: oc16_def ocEq_def)
qed (auto simp: oc16_def ocEq_def)

lemma ocEq_oc16: "ocEq x (oc16 x)"
  by (cases x) (auto simp: oc16_def ocEq_def mod_Suc_eq)

lemma oc16_le: "oc16 x \<le> 65535"
proof -
  have "(x - 1) mod 65535 < 65535" by (rule mod_less_divisor) simp
  then show ?thesis by (auto simp: oc16_def)
qed

lemma oc16_small: "x \<le> 65535 \<Longrightarrow> oc16 x = x"
  by (cases x) (auto simp: oc16_def)

lemma oc16_ocEq: "ocEq x y \<Longrightarrow> oc16 x = oc16 y"
  by (simp add: oc16_eq_iff)

section \<open>Each step of the code keeps the one's complement value\<close>

text \<open>
  \<open>leSum\<close> adds the little-endian 16-bit words. A load of 2, 4 or 8 bytes has the one's
  complement value of the words it covers, since \<open>2 ^ 16\<close> is 1 modulo 65535, and a byte
  swap exchanges the two readings, up to a factor of 256 (RFC 1071, section 2(B)).
\<close>

fun leSum :: "bytes \<Rightarrow> nat" where
  "leSum [] = 0"
| "leSum [a] = unat a"
| "leSum (a # b # xs) = unat a + 256 * unat b + leSum xs"

lemma leSum_append: "even (length xs) \<Longrightarrow> leSum (xs @ ys) = leSum xs + leSum ys"
  by (induction xs rule: leSum.induct) auto

lemma be16_sum_append: "even (length xs) \<Longrightarrow> be16_sum (xs @ ys) = be16_sum xs + be16_sum ys"
  by (induction xs rule: be16_sum.induct) auto

lemma be16_sum_update:
  "even at \<Longrightarrow> Suc at < length d \<Longrightarrow>
   be16_sum (d[at := x, Suc at := y]) + be16 (d ! at) (d ! Suc at) = be16_sum d + be16 x y"
proof (induction d arbitrary: at rule: be16_sum.induct)
  case (3 a b xs)
  show ?case
  proof (cases at)
    case (Suc k)
    with "3.prems" obtain j where at: "at = Suc (Suc j)" "even j"
      by (cases k) auto
    with "3.IH" [of j] "3.prems" show ?thesis by simp
  qed simp
qed simp_all

lemma leNat_leSum: "ocEq (leNat bs) (leSum bs)"
proof (induction bs rule: leSum.induct)
  case (3 a b xs)
  have "ocEq (65536 * leNat xs) (leSum xs)"
    using ocEq_65536 "3.IH" by (rule ocEq_trans)
  then have "ocEq ((unat a + 256 * unat b) + 65536 * leNat xs) ((unat a + 256 * unat b) + leSum xs)"
    by (intro ocEq_add) simp_all
  then show ?case by (simp add: algebra_simps)
qed simp_all

lemma leSum_be16_sum: "ocEq (256 * leSum bs) (be16_sum bs)"
proof (induction bs rule: leSum.induct)
  case (3 a b xs)
  have "ocEq (256 * unat a + 65536 * unat b) (256 * unat a + unat b)"
    by (intro ocEq_add ocEq_refl ocEq_65536)
  from ocEq_add [OF this "3.IH"] show ?case
    by (simp add: be16_def algebra_simps)
qed (simp_all add: be16_def)

lemma leSum_rev: "even (length bs) \<Longrightarrow> leSum (rev bs) = be16_sum bs"
  by (induction bs rule: leSum.induct) (auto simp: leSum_append be16_def)

lemma leNat_rev: "even (length bs) \<Longrightarrow> ocEq (leNat (rev bs)) (256 * leNat bs)"
proof -
  assume "even (length bs)"
  then have "ocEq (leNat (rev bs)) (be16_sum bs)"
    using leNat_leSum [of "rev bs"] by (simp add: leSum_rev)
  also have "ocEq (be16_sum bs) (256 * leSum bs)"
    by (rule ocEq_sym, rule leSum_be16_sum)
  also have "ocEq (256 * leSum bs) (256 * leNat bs)"
    by (rule ocEq_mult [OF ocEq_sym [OF leNat_leSum]]) simp
  finally show ?thesis .
qed

lemma leNat_leBytes8: "leNat (leBytes 8 (x :: u64)) = unat x"
proof -
  have "unat x < 2 ^ LENGTH(64)" by (rule unsigned_less)
  then show ?thesis by (simp add: leNat_leBytes)
qed

lemma bswap64_ocEq: "ocEq (unat (bswap64 x)) (256 * unat x)"
proof -
  have "leNat (leBytes 8 x) = unat x"
    by (rule leNat_leBytes8)
  moreover have "unat (bswap64 x) = leNat (rev (leBytes 8 x))"
    by (simp add: bswap64_def leWord_leNat unat_leNat)
  ultimately show ?thesis
    using leNat_rev [of "leBytes 8 x"] by simp
qed

lemma bswap64_involutive: "bswap64 (bswap64 x) = x"
proof -
  have "leBytes 8 (bswap64 x) = rev (leBytes 8 x)"
    using leBytes_leNat [of "rev (leBytes 8 x)", where 'a = 64]
    by (simp add: bswap64_def leWord_leNat)
  then have "bswap64 (bswap64 x) = word_of_nat (leNat (leBytes 8 x))"
    by (simp add: bswap64_def leWord_leNat)
  then show ?thesis by (simp add: leNat_leBytes8)
qed

section \<open>The accumulator never overflows and keeps the value\<close>

text \<open>
  \<open>accOk ac d\<close> is the loop invariant: the accumulator has room for all the bytes still to
  come, so no 128-bit addition wraps.
\<close>

definition accOk :: "128 word \<Rightarrow> bytes \<Rightarrow> bool" where
  "accOk ac d \<longleftrightarrow> unat ac + 2 ^ 64 * length d < 2 ^ 128"

definition accVal :: "128 word \<times> bytes \<Rightarrow> nat" where
  "accVal s = unat (fst s) + leSum (snd s)"

lemma unat_acc_add:
  "accOk ac d \<Longrightarrow> d \<noteq> [] \<Longrightarrow> v < 2 ^ 64 \<Longrightarrow> unat (ac + word_of_nat v) = unat ac + v"
proof -
  assume "accOk ac d" "d \<noteq> []" and v: "v < 2 ^ 64"
  then have "unat ac + 2 ^ 64 * 1 < 2 ^ 128"
    unfolding accOk_def by (cases d) auto
  with v show ?thesis by (simp add: unat_word_ariths unat_of_nat)
qed

lemma accOk_step:
  assumes "accOk ac d" and "0 < n" and "n \<le> length d" and "v < 2 ^ 64"
  shows "accOk (ac + word_of_nat v) (drop n d)"
proof -
  have "d \<noteq> []" using assms(2,3) by auto
  then have "unat (ac + word_of_nat v) = unat ac + v"
    using assms by (intro unat_acc_add)
  moreover have "v + 2 ^ 64 * (length d - n) \<le> 2 ^ 64 * length d"
  proof -
    have "2 ^ 64 * (length d - n) \<le> (2 ^ 64 * (length d - 1) :: nat)"
      using assms(2) by simp
    moreover have "2 ^ 64 * length d = 2 ^ 64 * (length d - 1) + (2 ^ 64 :: nat)"
      using \<open>d \<noteq> []\<close> by (cases d) auto
    ultimately show ?thesis using assms(4) by linarith
  qed
  ultimately show ?thesis using assms(1) by (simp add: accOk_def)
qed

lemma accVal_step:
  assumes "accOk ac d" and "even n" and "0 < n" and "n \<le> length d" and "n \<le> 8"
  shows "ocEq (accVal (ac + word_of_nat (leNat (take n d)), drop n d)) (accVal (ac, d))"
proof -
  have "d \<noteq> []" using assms(3,4) by auto
  moreover have v: "leNat (take n d) < 2 ^ 64"
  proof -
    have "(256::nat) ^ n \<le> 256 ^ 8" using assms(5) by (intro power_increasing) auto
    with leNat_less [of "take n d"] assms(4) show ?thesis by simp
  qed
  ultimately have "unat (ac + word_of_nat (leNat (take n d))) = unat ac + leNat (take n d)"
    using assms(1) by (intro unat_acc_add)
  moreover have "leSum d = leSum (take n d) + leSum (drop n d)"
    using leSum_append [of "take n d" "drop n d"] assms(2,4) by simp
  moreover have "ocEq (unat ac + leNat (take n d) + leSum (drop n d))
                      (unat ac + leSum (take n d) + leSum (drop n d))"
    by (intro ocEq_add ocEq_refl leNat_leSum)
  ultimately show ?thesis by (simp add: accVal_def algebra_simps)
qed

lemma leNat_take_less: "n \<le> 8 \<Longrightarrow> leNat (take n d) < 2 ^ 64"
proof -
  assume "n \<le> 8"
  then have "(256::nat) ^ length (take n d) \<le> 256 ^ 8" by (intro power_increasing) auto
  with leNat_less [of "take n d"] show ?thesis by simp
qed

lemma ucast_word_of_nat:
  "unat (word_of_nat n :: 'a::len word) = n \<Longrightarrow>
   (ucast (word_of_nat n :: 'a word) :: 'b::len word) = word_of_nat n"
  by (metis of_nat_unat)

lemma ucast_loadU64: "(ucast (loadU64 d) :: 128 word) = word_of_nat (leNat (take 8 d))"
  unfolding loadU64_def leWord_leNat by (intro ucast_word_of_nat unat_leNat) simp

lemma ucast_loadU32: "(ucast (loadU32 d) :: 128 word) = word_of_nat (leNat (take 4 d))"
  unfolding loadU32_def leWord_leNat by (intro ucast_word_of_nat unat_leNat) simp

lemma ucast_loadU16: "(ucast (loadU16 d) :: 128 word) = word_of_nat (leNat (take 2 d))"
  unfolding loadU16_def leWord_leNat by (intro ucast_word_of_nat unat_leNat) simp

lemma sumU64_inv:
  "accOk ac d \<Longrightarrow> sumU64 ac d = (ac', d') \<Longrightarrow>
   accOk ac' d' \<and> length d' < 8 \<and> ocEq (accVal (ac', d')) (accVal (ac, d))"
proof (induction ac d rule: sumU64.induct)
  case (1 ac d)
  show ?case
  proof (cases "8 \<le> length d")
    case True
    let ?ac = "ac + word_of_nat (leNat (take 8 d)) :: 128 word"
    have "sumU64 ?ac (drop 8 d) = (ac', d')"
      using "1.prems"(2) True by (subst (asm) sumU64.simps) (simp add: ucast_loadU64)
    moreover have "accOk ?ac (drop 8 d)"
      using "1.prems"(1) True by (intro accOk_step leNat_take_less) auto
    ultimately have "accOk ac' d' \<and> length d' < 8 \<and>
        ocEq (accVal (ac', d')) (accVal (?ac, drop 8 d))"
      using "1.IH" True by (simp add: ucast_loadU64)
    moreover have "ocEq (accVal (?ac, drop 8 d)) (accVal (ac, d))"
      using "1.prems"(1) True by (intro accVal_step) auto
    ultimately show ?thesis by (blast intro: ocEq_trans)
  next
    case False
    with "1.prems" show ?thesis by (subst (asm) sumU64.simps) simp
  qed
qed

lemma sumU32_inv:
  assumes "accOk ac d" and "length d < 8" and "sumU32 (ac, d) = (ac', d')"
  shows "accOk ac' d' \<and> length d' < 4 \<and> ocEq (accVal (ac', d')) (accVal (ac, d))"
proof (cases "4 \<le> length d")
  case True
  with assms have eq: "ac' = ac + word_of_nat (leNat (take 4 d))" "d' = drop 4 d"
    by (auto simp: sumU32_def ucast_loadU32)
  have "accOk ac' d'"
    unfolding eq using assms(1) True by (intro accOk_step leNat_take_less) auto
  moreover have "ocEq (accVal (ac', d')) (accVal (ac, d))"
    unfolding eq using assms(1) True by (intro accVal_step) auto
  ultimately show ?thesis using assms(2) True eq by simp
next
  case False
  with assms show ?thesis by (auto simp: sumU32_def)
qed

lemma sumU16_inv:
  assumes "accOk ac d" and "length d < 4" and "sumU16 (ac, d) = (ac', d')"
  shows "accOk ac' d' \<and> length d' < 2 \<and> ocEq (accVal (ac', d')) (accVal (ac, d))"
proof (cases "2 \<le> length d")
  case True
  with assms have eq: "ac' = ac + word_of_nat (leNat (take 2 d))" "d' = drop 2 d"
    by (auto simp: sumU16_def ucast_loadU16)
  have "accOk ac' d'"
    unfolding eq using assms(1) True by (intro accOk_step leNat_take_less) auto
  moreover have "ocEq (accVal (ac', d')) (accVal (ac, d))"
    unfolding eq using assms(1) True by (intro accVal_step) auto
  ultimately show ?thesis using assms(2) True eq by simp
next
  case False
  with assms show ?thesis by (auto simp: sumU16_def)
qed

lemma sumTail_val:
  assumes "accOk ac d" and "length d < 2"
  shows "unat (sumTail (ac, d)) = accVal (ac, d)"
proof (cases d)
  case Nil
  then show ?thesis by (simp add: sumTail_def accVal_def)
next
  case (Cons b bs)
  with assms have d: "d = [b]" by simp
  have "(ucast (ucast b :: u64) :: 128 word) = word_of_nat (unat b)"
  proof -
    have "(word_of_nat (unat (ucast b :: u64)) :: 128 word) = ucast (ucast b :: u64)"
      by (rule of_nat_unat)
    then show ?thesis by (simp add: unat_ucast_up)
  qed
  moreover have "unat b < 2 ^ 64" by (rule order_less_trans [OF unat_u8_less]) simp
  ultimately show ?thesis
    using unat_acc_add [OF assms(1), of "unat b"] d by (simp add: sumTail_def accVal_def)
qed

section \<open>Folding\<close>

lemma ocEq_carry:
  assumes "65535 dvd m" and "0 < m" shows "ocEq (Suc m * h + l) (h + l)"
proof -
  obtain k where m: "m = 65535 * k" using assms(1) by (elim dvdE)
  have "(Suc m * h + l) mod 65535 = (h + l + 65535 * (k * h)) mod 65535"
    by (simp add: m algebra_simps)
  also have "\<dots> = (h + l) mod 65535" by (rule mod_mult_self2)
  finally show ?thesis using assms(2) by (auto simp: ocEq_def)
qed

lemma ocEq_endAround: "2 ^ 64 \<le> n \<Longrightarrow> ocEq n (n - 2 ^ 64 + 1)"
proof -
  assume "2 ^ 64 \<le> n"
  then have "n = (n - 2 ^ 64 + 1) + 65535 * 281479271743489" by simp
  moreover have "ocEq ((n - 2 ^ 64 + 1) + 65535 * 281479271743489) (n - 2 ^ 64 + 1)"
    by (rule ocEq_reduce) simp
  ultimately show ?thesis by metis
qed

lemma foldCarry64_ocEq: "ocEq (unat (foldCarry64 ac)) (unat ac)"
proof -
  let ?lo = "ucast ac :: u64" and ?hi = "ucast (drop_bit 64 ac) :: u64"
  have lo: "unat ?lo = unat ac mod 2 ^ 64"
    by (simp add: unat_ucast_mod)
  have "unat ac < 2 ^ LENGTH(128)" by (rule unsigned_less)
  then have "unat ac div 2 ^ 64 < 2 ^ 64" by (simp add: div_less_iff_less_mult)
  then have hi: "unat ?hi = unat ac div 2 ^ 64"
    unfolding unat_ucast_mod unat_drop_bit_div by simp
  have lob: "unat ?lo < 2 ^ 64" and hib: "unat ?hi < 2 ^ 64"
    using unsigned_less [of ?lo] unsigned_less [of ?hi] by simp_all
  have sum: "ocEq (unat ?lo + unat ?hi) (unat ac)"
  proof -
    have "ocEq (Suc (2 ^ 64 - 1) * (unat ac div 2 ^ 64) + unat ac mod 2 ^ 64)
               (unat ac div 2 ^ 64 + unat ac mod 2 ^ 64)"
      by (rule ocEq_carry) simp_all
    then show ?thesis unfolding lo hi by (simp add: ocEq_sym add.commute)
  qed
  show ?thesis
  proof (cases "unat ?lo + unat ?hi < 2 ^ 64")
    case True
    then have "unat (?lo + ?hi) = unat ?lo + unat ?hi"
      by (simp add: unat_word_ariths)
    then show ?thesis using sum by (simp add: foldCarry64_def Let_def word_less_nat_alt)
  next
    case False
    then have w: "unat (?lo + ?hi) = unat ?lo + unat ?hi - 2 ^ 64"
      using lob hib by (simp add: unat_word_ariths le_mod_geq)
    then have less: "?lo + ?hi < ?lo" using hib lob False
      by (simp add: word_less_nat_alt)
    have "unat (?lo + ?hi + 1) = unat ?lo + unat ?hi - 2 ^ 64 + 1"
    proof -
      have "unat (?lo + ?hi) + 1 < 2 ^ LENGTH(64)" using w lob hib False by simp
      then show ?thesis using w by (simp add: unat_word_ariths(1) [of "?lo + ?hi"])
    qed
    then have "unat (foldCarry64 ac) = unat ?lo + unat ?hi - 2 ^ 64 + 1"
      using less by (simp add: foldCarry64_def Let_def)
    moreover have "ocEq (unat ?lo + unat ?hi) (unat ?lo + unat ?hi - 2 ^ 64 + 1)"
      using False by (intro ocEq_endAround) simp
    ultimately have "ocEq (unat ?lo + unat ?hi) (unat (foldCarry64 ac))" by metis
    then show ?thesis using sum ocEq_sym ocEq_trans by blast
  qed
qed

lemma unat_fold16: "unat (fold16 x) = unat x div 65536 + unat x mod 65536"
proof -
  have x: "unat x < 2 ^ LENGTH(64)" by (rule unsigned_less)
  have hi: "unat (drop_bit 16 x) = unat x div 65536"
    unfolding unat_drop_bit_div by simp
  have "x AND 0xFFFF = take_bit 16 x"
    by (simp add: take_bit_eq_mask mask_eq_exp_minus_1)
  have lo: "unat (x AND 0xFFFF) = unat x mod 65536"
    unfolding \<open>x AND 0xFFFF = take_bit 16 x\<close> unat_take_bit_mod by simp
  have "unat x div 65536 < 2 ^ 48" "unat x mod 65536 < 65536"
    using x by (simp_all add: div_less_iff_less_mult)
  then show ?thesis
    unfolding fold16_def using hi lo by (simp add: unat_word_ariths)
qed

lemma fold16_ocEq: "ocEq (unat (fold16 x)) (unat x)"
proof -
  have "ocEq (65536 * (unat x div 65536) + unat x mod 65536) (unat x div 65536 + unat x mod 65536)"
    by (intro ocEq_add ocEq_refl ocEq_65536)
  then show ?thesis unfolding unat_fold16 by (simp add: ocEq_sym)
qed

text \<open>
  Four folds always reach 16 bits: the bounds after each fold are
  \<open>2^48 + 65534\<close>, \<open>2^32 + 65534\<close>, \<open>131070\<close> and \<open>65535\<close>.
\<close>

lemma fold16_four: "unat (fold16 (fold16 (fold16 (fold16 x)))) \<le> 65535"
proof -
  have fold: "n div 65536 + n mod 65536 \<le> b div 65536 + 65534" if "n \<le> b" "b mod 65536 = 65534" for n b :: nat
  proof (cases "n div 65536 = b div 65536")
    case True
    have "n = 65536 * (n div 65536) + n mod 65536" "b = 65536 * (b div 65536) + b mod 65536"
      by simp_all
    with True that have "n mod 65536 \<le> 65534" by linarith
    with True show ?thesis by simp
  next
    case False
    with that(1) have "n div 65536 < b div 65536"
      by (simp add: div_le_mono order_le_neq_trans)
    moreover have "n mod 65536 \<le> 65535" by (simp add: less_Suc_eq_le [symmetric])
    ultimately show ?thesis by linarith
  qed
  have "unat x < 2 ^ LENGTH(64)" by (rule unsigned_less)
  then have "unat x div 65536 < 281474976710656" by (simp add: div_less_iff_less_mult)
  moreover have "unat x mod 65536 < 65536" by simp
  ultimately have 1: "unat (fold16 x) \<le> 281474976776190" unfolding unat_fold16 by linarith
  have 2: "unat (fold16 (fold16 x)) \<le> 4295032830"
    unfolding unat_fold16 [of "fold16 x"] using fold [OF 1] by simp
  have 3: "unat (fold16 (fold16 (fold16 x))) \<le> 131070"
    unfolding unat_fold16 [of "fold16 (fold16 x)"] using fold [OF 2] by simp
  show ?thesis
    unfolding unat_fold16 [of "fold16 (fold16 (fold16 x))"] using fold [OF 3] by simp
qed

section \<open>The checksum is the one of RFC 1071\<close>

lemma checksumNoFold_value:
  assumes "length data < 2 ^ 64"
  shows "ocEq (unat (checksumNoFold data initial)) (be16_sum data + unat initial)"
proof -
  let ?ac = "ucast (bswap64 initial) :: 128 word"
  have ac: "unat ?ac = unat (bswap64 initial)"
    by (rule unat_ucast_up) simp
  have "unat (bswap64 initial) < 2 ^ LENGTH(64)" by (rule unsigned_less)
  with ac assms have ok: "accOk ?ac data" by (simp add: accOk_def)
  obtain ac1 d1 where s1: "sumU64 ?ac data = (ac1, d1)" by (cases "sumU64 ?ac data")
  obtain ac2 d2 where s2: "sumU32 (ac1, d1) = (ac2, d2)" by (cases "sumU32 (ac1, d1)")
  obtain ac3 d3 where s3: "sumU16 (ac2, d2) = (ac3, d3)" by (cases "sumU16 (ac2, d2)")
  note i1 = sumU64_inv [OF ok s1]
  note i2 = sumU32_inv [OF conjunct1 [OF i1] _ s2]
  note i3 = sumU16_inv [OF conjunct1 [OF i2] _ s3]
  have "accOk ac3 d3 \<and> length d3 < 2 \<and> ocEq (accVal (ac3, d3)) (accVal (?ac, data))"
    using i1 i2 i3 by (blast intro: ocEq_trans)
  then have "ocEq (unat (sumTail (ac3, d3))) (accVal (?ac, data))"
    by (simp add: sumTail_val)
  then have tail: "ocEq (unat (sumTail (ac3, d3))) (unat (bswap64 initial) + leSum data)"
    by (simp add: accVal_def ac)
  have "ocEq (unat (checksumNoFold data initial)) (256 * unat (foldCarry64 (sumTail (ac3, d3))))"
    using bswap64_ocEq by (simp add: checksumNoFold_def Let_def s1 s2 s3)
  also have "ocEq \<dots> (256 * (unat (bswap64 initial) + leSum data))"
    by (intro ocEq_mult ocEq_trans [OF foldCarry64_ocEq tail]) simp
  also have "\<dots> = 256 * unat (bswap64 initial) + 256 * leSum data"
    by (simp add: algebra_simps)
  also have "ocEq \<dots> (unat initial + be16_sum data)"
  proof (intro ocEq_add leSum_be16_sum)
    have "ocEq (256 * unat (bswap64 initial)) (65536 * unat initial)"
      using ocEq_mult [OF bswap64_ocEq, of 256 initial] by simp
    then show "ocEq (256 * unat (bswap64 initial)) (unat initial)"
      using ocEq_65536 by (rule ocEq_trans)
  qed
  finally show ?thesis by (simp add: add.commute)
qed

lemma checksum_value:
  assumes "length data < 2 ^ 64"
  shows "unat (checksum data initial) = oc16 (be16_sum data + unat initial)"
proof -
  let ?f = "fold16 (fold16 (fold16 (fold16 (checksumNoFold data initial))))"
  have "ocEq (unat ?f) (be16_sum data + unat initial)"
    by (intro ocEq_trans [OF fold16_ocEq] checksumNoFold_value assms)
  then have "oc16 (unat ?f) = oc16 (be16_sum data + unat initial)" by (rule oc16_ocEq)
  moreover have "oc16 (unat ?f) = unat ?f" by (rule oc16_small [OF fold16_four])
  moreover have "unat (checksum data initial) = unat ?f mod 65536"
    by (simp add: checksum_def Let_def unat_ucast_mod)
  moreover have "unat ?f < 65536" using fold16_four by (rule le_less_trans) simp
  ultimately show ?thesis by simp
qed

section \<open>The interface the packet code uses\<close>

text \<open>
  Callers rely on two laws only: what the unfolded sum is worth, so that sums over several
  pieces can be chained, and what the folded checksum returns.
\<close>

locale inet_checksum =
  fixes noFold :: "bytes \<Rightarrow> u64 \<Rightarrow> u64"
    and csum :: "bytes \<Rightarrow> u64 \<Rightarrow> u16"
  assumes noFold_val: "length d < 2 ^ 64 \<Longrightarrow> ocEq (unat (noFold d i)) (be16_sum d + unat i)"
    and csum_val: "length d < 2 ^ 64 \<Longrightarrow> unat (csum d i) = oc16 (be16_sum d + unat i)"
begin

lemma chained:
  assumes "even (length a)" and "length a + length b < 2 ^ 64"
  shows "csum b (noFold a i) = csum (a @ b) i"
proof -
  have "ocEq (unat (noFold a i)) (be16_sum a + unat i)"
    using assms(2) by (intro noFold_val) simp
  then have "ocEq (be16_sum b + unat (noFold a i)) (be16_sum b + (be16_sum a + unat i))"
    by (rule ocEq_add [OF ocEq_refl])
  then have "ocEq (be16_sum b + unat (noFold a i)) (be16_sum (a @ b) + unat i)"
    using assms(1) by (simp add: be16_sum_append ac_simps)
  then show ?thesis
    using assms(2) by (simp add: word_unat_eq_iff csum_val oc16_ocEq)
qed

text \<open>
  Storing the complement of the checksum into a zeroed, even-aligned field makes the
  checksum over the result all ones: the receiver's test of RFC 1071 succeeds.
\<close>

lemma stored_valid:
  assumes d: "length d < 2 ^ 64" and "even at" and "Suc at < length d"
    and "d ! at = 0" and "d ! Suc at = 0"
    and c: "c = NOT (csum d i)"
  shows "oc16 (be16_sum (d[at := hiByte c, Suc at := loByte c]) + unat i) = 65535"
proof -
  let ?n = "be16_sum d + unat i"
  have "be16_sum (d[at := hiByte c, Suc at := loByte c]) = be16_sum d + unat c"
    using be16_sum_update [OF assms(2,3), of "hiByte c" "loByte c"] assms(4,5)
    by (simp add: be16_def [of 0 0])
  moreover have "unat c = 65535 - oc16 ?n"
    using c d by (simp add: unat_not_u16 csum_val)
  ultimately have "be16_sum (d[at := hiByte c, Suc at := loByte c]) + unat i
      = ?n + (65535 - oc16 ?n)" by simp
  moreover have "oc16 (?n + (65535 - oc16 ?n)) = 65535"
  proof -
    have "ocEq (?n + (65535 - oc16 ?n)) (oc16 ?n + (65535 - oc16 ?n))"
      by (intro ocEq_add ocEq_oc16 ocEq_refl)
    then have "oc16 (?n + (65535 - oc16 ?n)) = oc16 65535"
      using oc16_le [of ?n] oc16_ocEq by fastforce
    then show ?thesis by (simp add: oc16_small)
  qed
  ultimately show ?thesis by (simp only:)
qed

end

interpretation cs: inet_checksum checksumNoFold checksum
proof unfold_locales
  show "ocEq (unat (checksumNoFold d i)) (be16_sum d + unat i)" if "length d < 2 ^ 64" for d i
    by (rule checksumNoFold_value [OF that])
  show "unat (checksum d i) = oc16 (be16_sum d + unat i)" if "length d < 2 ^ 64" for d i
    by (rule checksum_value [OF that])
qed

text \<open>
  Property C14. For every data shorter than the address space and every 64-bit initial
  value, \<open>checksum\<close> returns the 16-bit one's complement sum of the initial value and the
  data's big-endian words, as RFC 1071 defines it: the wide loads, the byte swaps, the
  carry and the four folds lose nothing.
\<close>

theorem checksum_rfc1071:
  assumes "length data < 2 ^ 64"
  shows "unat (checksum data initial) = oc16 (be16_sum data + unat initial)"
  using assms by (rule cs.csum_val)

theorem checksum_rfc1071_witness:
  "unat (checksum [0x45, 0x00, 0x00, 0x73, 0xff, 0xff, 0xff, 0xff, 0x11] 0xffffffff) = 22131"
  by (subst checksum_rfc1071) (simp_all add: be16_def oc16_def)

lemma pseudoHeader_ocEq:
  assumes "even (length src)" and "even (length dst)"
    and "length src < 2 ^ 64" and "length dst < 2 ^ 64"
  shows "ocEq (unat (pseudoHeaderChecksumNoFold proto src dst len))
              (be16_sum (src @ dst @ [0, proto, hiByte len, loByte len]))"
proof -
  let ?t = "[0, proto, hiByte len, loByte len]"
  have a: "ocEq (unat (checksumNoFold src 0)) (be16_sum src)"
    using checksumNoFold_value [OF assms(3), of 0] by simp
  have b: "ocEq (unat (checksumNoFold dst (checksumNoFold src 0))) (be16_sum dst + be16_sum src)"
    by (intro ocEq_trans [OF checksumNoFold_value [OF assms(4)]] ocEq_add ocEq_refl a)
  have "ocEq (unat (checksumNoFold ?t (checksumNoFold dst (checksumNoFold src 0))))
             (be16_sum ?t + (be16_sum dst + be16_sum src))"
    by (intro ocEq_trans [OF checksumNoFold_value] ocEq_add ocEq_refl b) simp
  then show ?thesis
    using assms(1,2)
    by (simp add: pseudoHeaderChecksumNoFold_def Let_def hiByte_def loByte_def be16_sum_append
        algebra_simps)
qed

text \<open>
  The unfolded pseudo-header sum has the one's complement value of the
  pseudo-header of RFC 793 and RFC 768: source address, destination address, a zero byte,
  the protocol and the big-endian length of the segment.
\<close>

lemma pseudoHeader_value:
  assumes "even (length src)" and "even (length dst)"
    and "length src < 2 ^ 64" and "length dst < 2 ^ 64"
  shows "oc16 (unat (pseudoHeaderChecksumNoFold proto src dst len))
       = oc16 (be16_sum (src @ dst @ [0, proto, hiByte len, loByte len]))"
  using assms by (intro oc16_ocEq pseudoHeader_ocEq)

end
