(* ===== verification/Gso.thy ===== *)
theory Gso
  imports Csum
begin

text \<open>
  Model of \<^verbatim>\<open>gso.h\<close> and \<^verbatim>\<open>gso.cpp\<close>: the virtio-net header in front of every packet of
  the TUN queue, the checksum the kernel leaves to user space, and \<open>gsoSplit\<close>, which cuts
  a TCP/IPv4 super-packet into MTU-sized packets with headers of their own.

  Every read and write of a packet buffer is checked (theory Prelude): \<open>None\<close> is an
  access outside the buffer. The output buffers are separate objects from the input and
  from each other, as the arrays of \<^verbatim>\<open>TunReaderScratch\<close> are. Sizes are \<open>nat\<close>; the one
  subtraction of sizes that can go below zero is written \<open>sizeSub\<close>.
\<close>

section \<open>The virtio-net header\<close>

record virtio_net_hdr =
  flags :: u8
  gsoType :: u8
  hdrLen :: u16
  gsoSize :: u16
  csumStart :: u16
  csumOffset :: u16

definition VIRTIO_NET_HDR_LEN :: nat where "VIRTIO_NET_HDR_LEN = 10"
definition VIRTIO_NET_HDR_F_NEEDS_CSUM :: u8 where "VIRTIO_NET_HDR_F_NEEDS_CSUM = 0x01"
definition VIRTIO_NET_HDR_GSO_NONE :: u8 where "VIRTIO_NET_HDR_GSO_NONE = 0x00"
definition VIRTIO_NET_HDR_GSO_TCPV4 :: u8 where "VIRTIO_NET_HDR_GSO_TCPV4 = 0x01"

text \<open>The header is copied into the struct byte by byte, so its fields are little-endian.\<close>

definition decodeVirtioNetHdr :: "bytes \<Rightarrow> virtio_net_hdr option" where
  "decodeVirtioNetHdr data = do {
     b \<leftarrow> rdBlk data 0 VIRTIO_NET_HDR_LEN;
     Some \<lparr>flags = b ! 0, gsoType = b ! 1, hdrLen = loadU16 (drop 2 b),
           gsoSize = loadU16 (drop 4 b), csumStart = loadU16 (drop 6 b),
           csumOffset = loadU16 (drop 8 b)\<rparr>
   }"

definition zeroVirtioNetHdr :: "bytes \<Rightarrow> bytes option" where
  "zeroVirtioNetHdr data = wrBlk data 0 (replicate VIRTIO_NET_HDR_LEN 0)"

section \<open>Big-endian fields\<close>

definition IPV4_SRC_ADDR_OFFSET :: nat where "IPV4_SRC_ADDR_OFFSET = 12"
definition IPV4_ADDR_LEN :: nat where "IPV4_ADDR_LEN = 4"
definition TCP_FLAGS_OFFSET :: nat where "TCP_FLAGS_OFFSET = 13"
definition TCP_FLAG_FIN :: u8 where "TCP_FLAG_FIN = 0x01"
definition TCP_FLAG_PSH :: u8 where "TCP_FLAG_PSH = 0x08"
definition IPPROTO_TCP_V :: u8 where "IPPROTO_TCP_V = 6"

definition putBE16 :: "bytes \<Rightarrow> nat \<Rightarrow> u16 \<Rightarrow> bytes option" where
  "putBE16 p at v = do {
     p \<leftarrow> wr8 p at (ucast (drop_bit 8 v));
     wr8 p (at + 1) (ucast v)
   }"

definition putBE32 :: "bytes \<Rightarrow> nat \<Rightarrow> u32 \<Rightarrow> bytes option" where
  "putBE32 p at v = do {
     p \<leftarrow> wr8 p at (ucast (drop_bit 24 v));
     p \<leftarrow> wr8 p (at + 1) (ucast (drop_bit 16 v));
     p \<leftarrow> wr8 p (at + 2) (ucast (drop_bit 8 v));
     wr8 p (at + 3) (ucast v)
   }"

definition getBE16 :: "bytes \<Rightarrow> nat \<Rightarrow> u16 option" where
  "getBE16 p at = do {
     a \<leftarrow> rd8 p at;
     b \<leftarrow> rd8 p (at + 1);
     Some (ucast (push_bit 8 (ucast a :: u32) OR ucast b))
   }"

definition getBE32 :: "bytes \<Rightarrow> nat \<Rightarrow> u32 option" where
  "getBE32 p at = do {
     a \<leftarrow> rd8 p at;
     b \<leftarrow> rd8 p (at + 1);
     c \<leftarrow> rd8 p (at + 2);
     d \<leftarrow> rd8 p (at + 3);
     Some (push_bit 24 (ucast a) OR push_bit 16 (ucast b) OR push_bit 8 (ucast c) OR ucast d)
   }"

section \<open>Checksum of a packet that was not segmented\<close>

definition gsoNoneChecksum :: "bytes \<Rightarrow> nat \<Rightarrow> u16 \<Rightarrow> u16 \<Rightarrow> bytes option" where
  "gsoNoneChecksum pkt pktLen cStart cOffset = do {
     let at = unat cStart + unat cOffset;
     initial \<leftarrow> getBE16 pkt at;
     pkt \<leftarrow> wr8 pkt at 0;
     pkt \<leftarrow> wr8 pkt (at + 1) 0;
     l4 \<leftarrow> rdBlk pkt (unat cStart) (sizeSub pktLen (unat cStart));
     let csum = NOT (checksum l4 (ucast initial));
     putBE16 pkt at csum
   }"

section \<open>Segmentation of a TCP/IPv4 super-packet\<close>

text \<open>
  \<open>gsoSegment\<close> is the body of the loop: it builds segment \<open>i\<close>, the payload
  \<open>nextDataAt ..< nextEnd\<close> of \<open>in\<close>, in the buffer \<open>out\<close>, and returns its length.
\<close>

definition gsoSegment ::
  "bytes \<Rightarrow> nat \<Rightarrow> virtio_net_hdr \<Rightarrow> u32 \<Rightarrow> nat \<Rightarrow> nat \<Rightarrow> nat \<Rightarrow> bytes \<Rightarrow> (nat \<times> bytes) option"
where
  "gsoSegment inb inLen hdr firstTcpSeq nextDataAt nextEnd i out = do {
     let iphLen = unat (csumStart hdr);
     let hdrTotal = unat (hdrLen hdr);
     let segDataLen = nextEnd - nextDataAt;
     let totalLen = hdrTotal + segDataLen;
     iph \<leftarrow> rdBlk inb 0 iphLen;
     out \<leftarrow> wrBlk out 0 iph;
     out \<leftarrow> (if i > 0
              then do {
                id \<leftarrow> getBE16 out 4;
                putBE16 out 4 (id + of_nat i)
              }
              else Some out);
     out \<leftarrow> putBE16 out 2 (of_nat totalLen);
     ip \<leftarrow> rdBlk out 0 iphLen;
     out \<leftarrow> putBE16 out 10 (NOT (checksum ip 0));
     let transportHdrLen = sizeSub hdrTotal iphLen;
     th \<leftarrow> rdBlk inb iphLen transportHdrLen;
     out \<leftarrow> wrBlk out iphLen th;
     out \<leftarrow> putBE32 out (iphLen + 4) (firstTcpSeq + ucast (gsoSize hdr) * of_nat i);
     out \<leftarrow> (if nextEnd \<noteq> inLen
              then do {
                f \<leftarrow> rd8 out (iphLen + TCP_FLAGS_OFFSET);
                wr8 out (iphLen + TCP_FLAGS_OFFSET) (f AND NOT (TCP_FLAG_FIN OR TCP_FLAG_PSH))
              }
              else Some out);
     payload \<leftarrow> rdBlk inb nextDataAt segDataLen;
     out \<leftarrow> wrBlk out hdrTotal payload;
     src \<leftarrow> rdBlk inb IPV4_SRC_ADDR_OFFSET IPV4_ADDR_LEN;
     dst \<leftarrow> rdBlk inb (IPV4_SRC_ADDR_OFFSET + IPV4_ADDR_LEN) IPV4_ADDR_LEN;
     let pseudo = pseudoHeaderChecksumNoFold IPPROTO_TCP_V src dst
                    (of_nat (transportHdrLen + segDataLen));
     tr \<leftarrow> rdBlk out iphLen (sizeSub totalLen iphLen);
     out \<leftarrow> putBE16 out (iphLen + unat (csumOffset hdr)) (NOT (checksum tr pseudo));
     Some (totalLen, out)
   }"

text \<open>The caller's arrays: the output buffers and their sizes.\<close>

record gso_out =
  outBufs :: "bytes list"
  outSizes :: "nat list"

text \<open>
  The loop over the segments. Its result is the C++ return value with the arrays as the
  loop left them; \<open>outSizes[i]\<close> is written before the segment is built.
\<close>

definition segEnd :: "nat \<Rightarrow> virtio_net_hdr \<Rightarrow> nat \<Rightarrow> nat" where
  "segEnd inLen hdr nextDataAt =
     (if nextDataAt + unat (gsoSize hdr) > inLen then inLen
      else nextDataAt + unat (gsoSize hdr))"

definition gsoStep ::
  "bytes \<Rightarrow> nat \<Rightarrow> virtio_net_hdr \<Rightarrow> u32 \<Rightarrow> nat \<Rightarrow> nat \<Rightarrow> gso_out \<Rightarrow> gso_out option"
where
  "gsoStep inb inLen hdr firstTcpSeq nextDataAt i st =
     (if i < length (outSizes st) \<and> i < length (outBufs st)
      then do {
        (n, out) \<leftarrow> gsoSegment inb inLen hdr firstTcpSeq nextDataAt
                       (segEnd inLen hdr nextDataAt) i (outBufs st ! i);
        Some (st\<lparr>outBufs := (outBufs st)[i := out], outSizes := (outSizes st)[i := n]\<rparr>)
      }
      else None)"

partial_function (option) gsoLoop ::
  "bytes \<Rightarrow> nat \<Rightarrow> virtio_net_hdr \<Rightarrow> u32 \<Rightarrow> nat \<Rightarrow> nat \<Rightarrow> nat \<Rightarrow> gso_out \<Rightarrow> (int \<times> gso_out) option"
where
  "gsoLoop inb inLen hdr firstTcpSeq maxSegs nextDataAt i st =
     (if nextDataAt < inLen
      then (if i = maxSegs then Some (-1, st)
            else do {
              st \<leftarrow> gsoStep inb inLen hdr firstTcpSeq nextDataAt i st;
              gsoLoop inb inLen hdr firstTcpSeq maxSegs
                (nextDataAt + unat (gsoSize hdr)) (i + 1) st
            })
      else Some (int i, st))"

declare gsoLoop.simps [code]

definition gsoSplit ::
  "bytes \<Rightarrow> nat \<Rightarrow> virtio_net_hdr \<Rightarrow> gso_out \<Rightarrow> nat \<Rightarrow> (int \<times> bytes \<times> gso_out) option"
where
  "gsoSplit inb inLen hdr st maxSegs =
     (if gsoType hdr \<noteq> VIRTIO_NET_HDR_GSO_TCPV4 then Some (-1, inb, st)
      else do {
        inb \<leftarrow> wr8 inb 10 0;
        inb \<leftarrow> wr8 inb 11 0;
        let transportCsumAt = unat (csumStart hdr) + unat (csumOffset hdr);
        inb \<leftarrow> wr8 inb transportCsumAt 0;
        inb \<leftarrow> wr8 inb (transportCsumAt + 1) 0;
        firstTcpSeq \<leftarrow> getBE32 inb (unat (csumStart hdr) + 4);
        (r, st) \<leftarrow> gsoLoop inb inLen hdr firstTcpSeq maxSegs (unat (hdrLen hdr)) 0 st;
        Some (r, inb, st)
      })"

section \<open>Field accesses inside the buffer\<close>

definition put16 :: "bytes \<Rightarrow> nat \<Rightarrow> u16 \<Rightarrow> bytes" where
  "put16 p at v = p[at := hiByte v, Suc at := loByte v]"

definition put32 :: "bytes \<Rightarrow> nat \<Rightarrow> u32 \<Rightarrow> bytes" where
  "put32 p at v = p[at := ucast (drop_bit 24 v), Suc at := ucast (drop_bit 16 v),
                    Suc (Suc at) := ucast (drop_bit 8 v), Suc (Suc (Suc at)) := ucast v]"

definition word16 :: "u8 \<Rightarrow> u8 \<Rightarrow> u16" where
  "word16 a b = ucast (push_bit 8 (ucast a :: u32) OR ucast b)"

lemma length_put16 [simp]: "length (put16 p at v) = length p"
  by (simp add: put16_def)

lemma length_put32 [simp]: "length (put32 p at v) = length p"
  by (simp add: put32_def)

lemma nth_put16:
  "Suc at < length p \<Longrightarrow>
   put16 p at v ! j = (if j = at then hiByte v else if j = Suc at then loByte v else p ! j)"
  by (auto simp: put16_def nth_list_update)

lemma nth_put32:
  "Suc (Suc (Suc at)) < length p \<Longrightarrow>
   put32 p at v ! j =
     (if j = at then ucast (drop_bit 24 v) else if j = Suc at then ucast (drop_bit 16 v)
      else if j = Suc (Suc at) then ucast (drop_bit 8 v)
      else if j = Suc (Suc (Suc at)) then ucast v else p ! j)"
  by (auto simp: put32_def nth_list_update)

lemma putBE16_Some [mem_simps]:
  "at + 1 < length p \<Longrightarrow> putBE16 p at v = Some (put16 p at v)"
  by (simp add: putBE16_def put16_def wr8_def hiByte_def loByte_def)

lemma putBE32_Some [mem_simps]:
  "at + 3 < length p \<Longrightarrow> putBE32 p at v = Some (put32 p at v)"
  by (simp add: putBE32_def put32_def wr8_def numeral_2_eq_2 numeral_3_eq_3)

lemma getBE16_Some [mem_simps]:
  "at + 1 < length p \<Longrightarrow> getBE16 p at = Some (word16 (p ! at) (p ! Suc at))"
  by (simp add: getBE16_def word16_def rd8_def)

lemma getBE32_Some [mem_simps]:
  "at + 3 < length p \<Longrightarrow>
   getBE32 p at = Some (word32 (p ! at) (p ! Suc at) (p ! Suc (Suc at)) (p ! Suc (Suc (Suc at))))"
  by (simp add: getBE32_def word32_def rd8_def numeral_2_eq_2 numeral_3_eq_3)

lemma putBE16_None: "length p \<le> at + 1 \<Longrightarrow> putBE16 p at v = None"
  by (auto simp: putBE16_def wr8_def)

lemma word16_hi_lo [simp]: "word16 (hiByte v) (loByte v) = v"
  by (rule bit_eqI) (auto simp: word16_def hiByte_def loByte_def bit_simps)

lemma hi_lo_word16 [simp]: "hiByte (word16 a b) = a" "loByte (word16 a b) = b"
  by (rule bit_eqI, auto simp: word16_def hiByte_def loByte_def bit_simps dest: bit_imp_le_length)+

lemma unat_word16: "unat (word16 a b) = be16 a b"
  using be16_bytes [of "word16 a b"] by simp

lemma put16_self [simp]: "put16 p at (word16 (p ! at) (p ! Suc at)) = p"
  by (cases "Suc at < length p") (auto simp: put16_def list_update_beyond)

text \<open>What is stored in network order is read back.\<close>

lemma getBE16_put16: "at + 1 < length p \<Longrightarrow> getBE16 (put16 p at v) at = Some v"
  by (simp add: getBE16_Some nth_put16)

lemma getBE32_put32: "at + 3 < length p \<Longrightarrow> getBE32 (put32 p at v) at = Some v"
  by (simp add: getBE32_Some nth_put32)

subsection \<open>Buffers laid out in parts\<close>

lemma rdBlk_part:
  "length xs = off \<Longrightarrow> length ys = n \<Longrightarrow> rdBlk (xs @ ys @ zs) off n = Some ys"
  by (simp add: rdBlk_def)

lemma rdBlk_front: "length xs = n \<Longrightarrow> rdBlk (xs @ ys) 0 n = Some xs"
  by (simp add: rdBlk_def)

lemma wrBlk_front:
  "length xs \<le> length b \<Longrightarrow> wrBlk b 0 xs = Some (xs @ drop (length xs) b)"
  by (simp add: wrBlk_def splice_def)

lemma wrBlk_part:
  "length xs = off \<Longrightarrow> length v \<le> length ys \<Longrightarrow>
   wrBlk (xs @ ys) off v = Some (xs @ v @ drop (length v) ys)"
  by (simp add: wrBlk_def splice_append)

lemma put16_front: "at + 1 < length xs \<Longrightarrow> put16 (xs @ ys) at v = put16 xs at v @ ys"
  by (simp add: put16_def list_update_append1)

lemma put16_part:
  "length xs = off \<Longrightarrow> at + 1 < length ys \<Longrightarrow>
   put16 (xs @ ys) (off + at) v = xs @ put16 ys at v"
  by (simp add: put16_def list_update_append)

lemma put32_front: "at + 3 < length xs \<Longrightarrow> put32 (xs @ ys) at v = put32 xs at v @ ys"
  by (simp add: put32_def list_update_append1)

lemma put32_part:
  "length xs = off \<Longrightarrow> at + 3 < length ys \<Longrightarrow>
   put32 (xs @ ys) (off + at) v = xs @ put32 ys at v"
  by (simp add: put32_def list_update_append eval_nat_numeral)

end
