(* ===== verification/Plane.thy ===== *)
theory Plane
  imports Conn Gso
begin

text \<open>
  Model of \<^verbatim>\<open>plane.h\<close> and \<^verbatim>\<open>plane.cpp\<close>: the loops of the data threads. A routine takes
  the state it works on and the calls made so far and returns both; \<open>None\<close> is an access
  outside a buffer, a wild pointer or an endless inner loop. The loops \<^verbatim>\<open>for (;;)\<close> never
  return; one round of a loop is a definition, and \<open>rounds n\<close> is what the first \<open>n\<close> rounds
  do. Memory the constructors leave uninitialised is zero in the model; nothing reads it.
\<close>

section \<open>Scratch memory\<close>

definition MAX_SEGS :: nat where "MAX_SEGS = 64"
definition SEG_SIZE :: nat where "SEG_SIZE = 2048"
definition READ_SIZE :: nat where "READ_SIZE = 10 + 65535 + 128"

text \<open>\<open>tsIovs\<close> holds (segment, length) for \<^verbatim>\<open>iov_base = segBufs[k]\<close>, \<^verbatim>\<open>iov_len\<close>.\<close>

record tun_scratch =
  tsReadBuf :: bytes
  tsSegs :: gso_out
  tsIovs :: "(nat \<times> nat) list"

definition makeTunReaderScratch :: tun_scratch where
  "makeTunReaderScratch = \<lparr>tsReadBuf = replicate READ_SIZE 0,
     tsSegs = \<lparr>outBufs = replicate MAX_SEGS (replicate SEG_SIZE 0), outSizes = replicate MAX_SEGS 0\<rparr>,
     tsIovs = replicate MAX_SEGS (0, 0)\<rparr>"

definition BATCH :: nat where "BATCH = 64"
definition MSG_SIZE :: nat where "MSG_SIZE = 10 + 65536"
definition CBUF_LEN :: nat where "CBUF_LEN = 24"
definition SOCKADDR_STORAGE_LEN :: nat where "SOCKADDR_STORAGE_LEN = 128"

text \<open>
  A \<^verbatim>\<open>mmsghdr\<close>: the lengths the kernel reads and overwrites, the length of the message, and
  the contents of the buffers for the address and the control messages.
\<close>

record udp_msg =
  msgNamelen :: nat
  msgControllen :: nat
  msgLen :: u32
  msgFrom :: sockaddr
  msgCmsgs :: "cmsg list"

record udp_scratch =
  usMsgs :: "udp_msg list"
  usBufs :: "bytes list"
  usZeroHdr :: bytes

definition makeUdpReaderScratch :: "udp_scratch option" where
  "makeUdpReaderScratch = do {
     buf \<leftarrow> zeroVirtioNetHdr (replicate MSG_SIZE 0);
     Some \<lparr>usMsgs = replicate BATCH \<lparr>msgNamelen = SOCKADDR_STORAGE_LEN, msgControllen = CBUF_LEN,
             msgLen = 0, msgFrom = SaOther 0 0, msgCmsgs = []\<rparr>,
           usBufs = replicate BATCH buf, usZeroHdr = replicate VIRTIO_NET_HDR_LEN 0\<rparr> }"

section \<open>Sending\<close>

text \<open>A call whose failure is only logged: \<^verbatim>\<open>if (r < 0) warnErrno(what, errno)\<close>.\<close>

definition callWarn :: "os \<Rightarrow> ev list \<Rightarrow> ev \<Rightarrow> string \<Rightarrow> ev list" where
  "callWarn os h e what =
     (if osRes os h e < 0 then h @ [e, WarnErrno what (osErrno os (h @ [e]))] else h @ [e])"

definition warn :: "string \<Rightarrow> ev" where "warn msg = LogLine (''gofra: '' @ msg)"

lemma warn_LogLine [simp]: "warn msg = LogLine (''gofra: '' @ msg)" by (simp add: warn_def)

definition sendOne ::
  "os \<Rightarrow> nat \<Rightarrow> bytes \<Rightarrow> 'i conn_table \<Rightarrow> ev list \<Rightarrow> ('i conn_table \<times> ev list) option"
where
  "sendOne os conn pkt ct h = do {
     let (now, h) = nowMs os h;
     (p, ct) \<leftarrow> ctNext ct conn now;
     s \<leftarrow> ctSlot ct p;
     Some (ct, callWarn os h (SendTo (slotSrcFd s) pkt (slotDstAddr s) (addrLen (slotDstAddr s)))
                 ''udp sendto'') }"

definition USO_PARTS :: nat where "USO_PARTS = 8"

fun fillIovs :: "nat list \<Rightarrow> tun_scratch \<Rightarrow> tun_scratch option" where
  "fillIovs [] sc = Some sc"
| "fillIovs (k # ks) sc =
     (if k < length (tsIovs sc) \<and> k < length (outBufs (tsSegs sc))
      then do { n \<leftarrow> deref (outSizes (tsSegs sc)) k;
                fillIovs ks (sc\<lparr>tsIovs := (tsIovs sc)[k := (k, n)]\<rparr>) }
      else None)"

text \<open>The bytes that \<^verbatim>\<open>sendmsg\<close> gathers from \<open>iovs[i ..< end]\<close>.\<close>

fun gatherIovs :: "tun_scratch \<Rightarrow> nat list \<Rightarrow> bytes list option" where
  "gatherIovs sc [] = Some []"
| "gatherIovs sc (k # ks) = do {
     (b, n) \<leftarrow> deref (tsIovs sc) k;
     buf \<leftarrow> deref (outBufs (tsSegs sc)) b;
     x \<leftarrow> rdBlk buf 0 n;
     xs \<leftarrow> gatherIovs sc ks;
     Some (x # xs) }"

definition usoPart ::
  "os \<Rightarrow> nat \<Rightarrow> u16 \<Rightarrow> u64 \<Rightarrow> nat \<Rightarrow> nat \<Rightarrow> 'i conn_table \<times> tun_scratch \<times> ev list
    \<Rightarrow> ('i conn_table \<times> tun_scratch \<times> ev list) option"
where
  "usoPart os conn gso now i end st = (case st of (ct, sc, h) \<Rightarrow> do {
     sc \<leftarrow> fillIovs [i..<end] sc;
     (p, ct) \<leftarrow> ctNext ct conn now;
     s \<leftarrow> ctSlot ct p;
     iovs \<leftarrow> gatherIovs sc [i..<end];
     Some (ct, sc, callWarn os h
       (SendMsg (slotSrcFd s) iovs (slotDstAddr s) (addrLen (slotDstAddr s)) gso)
       ''udp sendmsg(USO)'') })"

definition usoEnd :: "nat \<Rightarrow> nat \<Rightarrow> nat \<Rightarrow> nat" where
  "usoEnd i partSize segs = (if i + partSize > segs then segs else i + partSize)"

partial_function (option) usoLoop ::
  "os \<Rightarrow> nat \<Rightarrow> u16 \<Rightarrow> u64 \<Rightarrow> nat \<Rightarrow> nat \<Rightarrow> nat \<Rightarrow> 'i conn_table \<times> tun_scratch \<times> ev list
    \<Rightarrow> ('i conn_table \<times> tun_scratch \<times> ev list) option"
where
  "usoLoop os conn gso now partSize segs i st =
     (if i < segs
      then do { st \<leftarrow> usoPart os conn gso now i (usoEnd i partSize segs) st;
                usoLoop os conn gso now partSize segs (usoEnd i partSize segs) st }
      else Some st)"

declare usoLoop.simps [code]

definition sendUso ::
  "os \<Rightarrow> nat \<Rightarrow> nat \<Rightarrow> 'i conn_table \<times> tun_scratch \<times> ev list
    \<Rightarrow> ('i conn_table \<times> tun_scratch \<times> ev list) option"
where
  "sendUso os conn segs st = (case st of (ct, sc, h) \<Rightarrow> do {
     let partSize = (segs + USO_PARTS - 1) div USO_PARTS;
     n0 \<leftarrow> deref (outSizes (tsSegs sc)) 0;
     let gso = of_nat n0;
     let (now, h) = nowMs os h;
     usoLoop os conn gso now partSize segs 0 (ct, sc, h) })"

section \<open>The TUN reader\<close>

text \<open>What a round does with a packet of \<open>innerLen\<close> bytes behind its virtio header.\<close>

definition tunPacket ::
  "os \<Rightarrow> 'i int_ops \<Rightarrow> virtio_net_hdr \<Rightarrow> nat \<Rightarrow> 'i conn_table \<times> tun_scratch \<times> ev list
    \<Rightarrow> ('i conn_table \<times> tun_scratch \<times> ev list) option"
where
  "tunPacket os I hdr innerLen st = (case st of (ct, sc, h) \<Rightarrow> do {
     let inner = drop VIRTIO_NET_HDR_LEN (tsReadBuf sc);
     let back = (\<lambda>b. take VIRTIO_NET_HDR_LEN (tsReadBuf sc) @ b);
     dstVip \<leftarrow> dstFromIPv4 inner innerLen;
     (case dstVip of None \<Rightarrow> Some (ct, sc, h) | Some v \<Rightarrow>
     (case ctLookup I ct v of None \<Rightarrow> Some (ct, sc, h) | Some conn \<Rightarrow>
     if gsoType hdr = VIRTIO_NET_HDR_GSO_NONE
     then do {
       inner \<leftarrow> (if flags hdr AND VIRTIO_NET_HDR_F_NEEDS_CSUM \<noteq> 0
                then gsoNoneChecksum inner innerLen (csumStart hdr) (csumOffset hdr)
                else Some inner);
       pkt \<leftarrow> rdBlk inner 0 innerLen;
       (ct, h) \<leftarrow> sendOne os conn pkt ct h;
       Some (ct, sc\<lparr>tsReadBuf := back inner\<rparr>, h) }
     else if gsoType hdr = VIRTIO_NET_HDR_GSO_TCPV4
     then do {
       (segs, inner, out) \<leftarrow> gsoSplit inner innerLen hdr (tsSegs sc) MAX_SEGS;
       let sc = sc\<lparr>tsReadBuf := back inner, tsSegs := out\<rparr>;
       (if segs < 0
        then Some (ct, sc, h @ [warn ''gsoSplit: too many segments / unsupported gso_type''])
        else sendUso os conn (nat segs) (ct, sc, h)) }
     else Some (ct, sc, h @ [warn ''tunReader: unsupported gso_type'']))) })"

text \<open>One round. The kernel writes the packet it returns into the read buffer.\<close>

definition tunStep ::
  "os \<Rightarrow> 'i int_ops \<Rightarrow> int \<Rightarrow> 'i conn_table \<times> tun_scratch \<times> ev list
    \<Rightarrow> ('i conn_table \<times> tun_scratch \<times> ev list) option"
where
  "tunStep os I tunFd st = (case st of (ct, sc, h) \<Rightarrow>
     let e = ReadFd tunFd (length (tsReadBuf sc)); n = osRes os h e; h = h @ [e]
     in if n < 0 then Some (ct, sc, h @ [WarnErrno ''tun read'' (osErrno os h)])
        else do {
          buf \<leftarrow> wrBlk (tsReadBuf sc) 0 (take (nat n) (osRead os h));
          let sc = sc\<lparr>tsReadBuf := buf\<rparr>;
          if nat n < VIRTIO_NET_HDR_LEN + 20 then Some (ct, sc, h)
          else do {
            hdr \<leftarrow> decodeVirtioNetHdr buf;
            tunPacket os I hdr (nat n - VIRTIO_NET_HDR_LEN) (ct, sc, h) } })"

text \<open>The first \<open>n\<close> rounds of an endless loop.\<close>

fun rounds :: "nat \<Rightarrow> ('s \<Rightarrow> 's option) \<Rightarrow> 's \<Rightarrow> 's option" where
  "rounds 0 f st = Some st"
| "rounds (Suc n) f st = do { st \<leftarrow> f st; rounds n f st }"

definition tunReader ::
  "os \<Rightarrow> 'i int_ops \<Rightarrow> int \<Rightarrow> nat \<Rightarrow> 'i conn_table \<times> tun_scratch \<times> ev list
    \<Rightarrow> ('i conn_table \<times> tun_scratch \<times> ev list) option"
where
  "tunReader os I tunFd n st = rounds n (tunStep os I tunFd) st"

section \<open>The UDP reader\<close>

definition SOL_UDP :: int where "SOL_UDP = 17"
definition UDP_GRO :: int where "UDP_GRO = 104"

text \<open>
  What the kernel does with a message header: it stores the address, the control messages
  (none if the space given is too small) and the data, and overwrites the lengths. \<open>None\<close>:
  the address or the data do not fit, which the kernel never does silently here.
\<close>

definition deliver :: "rx \<Rightarrow> udp_msg \<Rightarrow> bytes \<Rightarrow> (udp_msg \<times> bytes) option" where
  "deliver r m buf =
     (if rxNamelen r \<le> msgNamelen m
      then do {
        buf \<leftarrow> wrBlk buf VIRTIO_NET_HDR_LEN (rxData r);
        Some (\<lparr>msgNamelen = rxNamelen r,
               msgControllen = (if rxControllen r \<le> msgControllen m then rxControllen r else 0),
               msgLen = of_nat (length (rxData r)), msgFrom = rxFrom r,
               msgCmsgs = (if rxControllen r \<le> msgControllen m then rxCmsgs r else [])\<rparr>, buf) }
      else None)"

fun deliverAll :: "nat \<Rightarrow> rx list \<Rightarrow> udp_scratch \<Rightarrow> udp_scratch option" where
  "deliverAll i [] sc = Some sc"
| "deliverAll i (r # rs) sc = do {
     m \<leftarrow> deref (usMsgs sc) i;
     b \<leftarrow> deref (usBufs sc) i;
     (m, b) \<leftarrow> deliver r m b;
     deliverAll (Suc i) rs (sc\<lparr>usMsgs := (usMsgs sc)[i := m], usBufs := (usBufs sc)[i := b]\<rparr>) }"

text \<open>The GRO size among the control messages; 0 if there is none.\<close>

fun groSize :: "cmsg list \<Rightarrow> i32 option" where
  "groSize [] = Some 0"
| "groSize (c # cs) =
     (if cmLevel c = SOL_UDP \<and> cmType c = UDP_GRO
      then do { b \<leftarrow> rdBlk (cmData c) 0 4; Some (leWord b) }
      else groSize cs)"

definition chunkLen :: "u32 \<Rightarrow> u32 \<Rightarrow> u32 \<Rightarrow> u32" where
  "chunkLen gso payloadLen off = (if gso > payloadLen - off then payloadLen - off else gso)"

partial_function (option) splitLoop ::
  "os \<Rightarrow> int \<Rightarrow> bytes \<Rightarrow> bytes \<Rightarrow> u32 \<Rightarrow> u32 \<Rightarrow> u32 \<Rightarrow> ev list \<Rightarrow> ev list option"
where
  "splitLoop os tunFd zeroHdr buf gso payloadLen off h =
     (if off < payloadLen
      then do {
        x \<leftarrow> rdBlk buf (VIRTIO_NET_HDR_LEN + unat off) (unat (chunkLen gso payloadLen off));
        splitLoop os tunFd zeroHdr buf gso payloadLen (off + chunkLen gso payloadLen off)
          (callWarn os h (WriteV tunFd [zeroHdr, x]) ''tun writev'') }
      else Some h)"

declare splitLoop.simps [code]

text \<open>Message \<open>i\<close> of a batch, with the clock read before the batch.\<close>

definition udpMessage ::
  "os \<Rightarrow> 'i int_ops \<Rightarrow> int \<Rightarrow> u32 \<Rightarrow> u64 \<Rightarrow> nat \<Rightarrow> 'i conn_table \<times> udp_scratch \<times> ev list
    \<Rightarrow> ('i conn_table \<times> udp_scratch \<times> ev list) option"
where
  "udpMessage os I tunFd srcIdx now i st = (case st of (ct, sc, h) \<Rightarrow> do {
     m \<leftarrow> deref (usMsgs sc) i;
     buf \<leftarrow> deref (usBufs sc) i;
     ct \<leftarrow> (case ctLookupSlot I ct srcIdx (msgFrom m) of
              Some p \<Rightarrow> ctTouch ct p now | None \<Rightarrow> Some ct);
     gso \<leftarrow> groSize (msgCmsgs m);
     let sc = sc\<lparr>usMsgs := (usMsgs sc)[i := m\<lparr>msgNamelen := SOCKADDR_STORAGE_LEN,
                                             msgControllen := CBUF_LEN\<rparr>]\<rparr>;
     if msgLen m < 20 then Some (ct, sc, h)
     else if sint gso > 0 \<and> gso < msgLen m
     then do {
       h \<leftarrow> splitLoop os tunFd (usZeroHdr sc) buf gso (msgLen m) 0 h;
       Some (ct, sc, h) }
     else do {
       x \<leftarrow> rdBlk buf 0 (VIRTIO_NET_HDR_LEN + unat (msgLen m));
       Some (ct, sc, callWarn os h (WriteFd tunFd x) ''tun write'') } })"

fun udpMessages ::
  "os \<Rightarrow> 'i int_ops \<Rightarrow> int \<Rightarrow> u32 \<Rightarrow> u64 \<Rightarrow> nat list \<Rightarrow> 'i conn_table \<times> udp_scratch \<times> ev list
    \<Rightarrow> ('i conn_table \<times> udp_scratch \<times> ev list) option"
where
  "udpMessages os I tunFd srcIdx now [] st = Some st"
| "udpMessages os I tunFd srcIdx now (i # is) st = do {
     st \<leftarrow> udpMessage os I tunFd srcIdx now i st;
     udpMessages os I tunFd srcIdx now is st }"

definition udpStep ::
  "os \<Rightarrow> 'i int_ops \<Rightarrow> int \<Rightarrow> int \<Rightarrow> u32 \<Rightarrow> 'i conn_table \<times> udp_scratch \<times> ev list
    \<Rightarrow> ('i conn_table \<times> udp_scratch \<times> ev list) option"
where
  "udpStep os I udpFd tunFd srcIdx st = (case st of (ct, sc, h) \<Rightarrow>
     let e = RecvMMsg udpFd BATCH; n = osRes os h e; h = h @ [e]
     in if n < 0 then Some (ct, sc, h @ [WarnErrno ''udp recvmmsg'' (osErrno os h)])
        else do {
          sc \<leftarrow> deliverAll 0 (take (nat n) (osRecv os h)) sc;
          let (now, h) = nowMs os h;
          udpMessages os I tunFd srcIdx now [0..<nat n] (ct, sc, h) })"

definition udpReader ::
  "os \<Rightarrow> 'i int_ops \<Rightarrow> int \<Rightarrow> int \<Rightarrow> u32 \<Rightarrow> nat \<Rightarrow> 'i conn_table \<times> udp_scratch \<times> ev list
    \<Rightarrow> ('i conn_table \<times> udp_scratch \<times> ev list) option"
where
  "udpReader os I udpFd tunFd srcIdx n st = rounds n (udpStep os I udpFd tunFd srcIdx) st"

section \<open>The prober and the statistics\<close>

definition collectSlots :: "'i conn_table \<Rightarrow> nat list" where
  "collectSlots ct = visitSlots (\<lambda>p ps. ps @ [p]) ct []"

fun probeSlots :: "os \<Rightarrow> 'i conn_table \<Rightarrow> nat list \<Rightarrow> ev list \<Rightarrow> ev list option" where
  "probeSlots os ct [] h = Some h"
| "probeSlots os ct (p # ps) h = do {
     s \<leftarrow> ctSlot ct p;
     probeSlots os ct ps (callWarn os h
       (SendTo (slotSrcFd s) [] (slotDstAddr s) (addrLen (slotDstAddr s))) ''probe sendto'') }"

definition probeStep :: "os \<Rightarrow> 'i conn_table \<Rightarrow> nat list \<Rightarrow> u64 \<Rightarrow> ev list \<Rightarrow> ev list option" where
  "probeStep os ct slots intervalMs h = do {
     h \<leftarrow> probeSlots os ct slots h;
     Some (h @ [USleep (ucast (intervalMs * 1000))]) }"

definition prober :: "os \<Rightarrow> 'i conn_table \<Rightarrow> u64 \<Rightarrow> nat \<Rightarrow> ev list \<Rightarrow> ev list option" where
  "prober os ct intervalMs n h = rounds n (probeStep os ct (collectSlots ct) intervalMs) h"

fun showNat :: "nat \<Rightarrow> string" where
  "showNat n = (if n < 10 then [char_of (48 + n)] else showNat (n div 10) @ [char_of (48 + n mod 10)])"

declare showNat.simps [simp del]

text \<open>The counters and the line being built.\<close>

record stats =
  statAlive :: u64
  statDead :: u64
  statLine :: string

fun statSlots :: "os \<Rightarrow> 'i conn_table \<Rightarrow> u64 \<Rightarrow> u64 \<Rightarrow> nat list \<Rightarrow> stats \<Rightarrow> stats option" where
  "statSlots os ct timeoutMs now [] st = Some st"
| "statSlots os ct timeoutMs now (p # ps) st = do {
     s \<leftarrow> ctSlot ct p;
     let alive = (if slotAlive timeoutMs now s then 1 else 0 :: u64);
     let st = (if alive \<noteq> 0 then st\<lparr>statAlive := statAlive st + 1\<rparr>
               else st\<lparr>statDead := statDead st + 1\<rparr>);
     statSlots os ct timeoutMs now ps (st\<lparr>statLine := statLine st @ '' ['' @
       osNtop os (sinAddrOf (slotSrcAddr s)) @ '','' @ osNtop os (sinAddrOf (slotDstAddr s)) @ '','' @
       showNat (unat alive) @ '']''\<rparr>) }"

definition statStep :: "os \<Rightarrow> 'i conn_table \<Rightarrow> nat list \<Rightarrow> u64 \<Rightarrow> u64 \<Rightarrow> ev list \<Rightarrow> ev list option" where
  "statStep os ct slots timeoutMs intervalSec h = do {
     let (now, h) = nowMs os h;
     st \<leftarrow> statSlots os ct timeoutMs now slots
              \<lparr>statAlive = 0, statDead = 0, statLine = ''gofra slots:''\<rparr>;
     Some (h @ [LogLine (statLine st),
                LogLine (''gofra slot_health alive='' @ showNat (unat (statAlive st)) @
                         '' dead='' @ showNat (unat (statDead st))),
                SleepS (ucast intervalSec)]) }"

text \<open>
  The rounds of \<^verbatim>\<open>slotsStats\<close>, each with the table as it is then: other threads change the
  times in it.
\<close>

fun statRounds ::
  "os \<Rightarrow> nat list \<Rightarrow> u64 \<Rightarrow> u64 \<Rightarrow> 'i conn_table list \<Rightarrow> ev list \<Rightarrow> ev list option"
where
  "statRounds os slots timeoutMs intervalSec [] h = Some h"
| "statRounds os slots timeoutMs intervalSec (ct # cts) h = do {
     h \<leftarrow> statStep os ct slots timeoutMs intervalSec h;
     statRounds os slots timeoutMs intervalSec cts h }"

definition slotsStats ::
  "os \<Rightarrow> 'i conn_table \<Rightarrow> u64 \<Rightarrow> u64 \<Rightarrow> 'i conn_table list \<Rightarrow> ev list \<Rightarrow> ev list option"
where
  "slotsStats os ct0 timeoutMs intervalSec cts h =
     statRounds os (collectSlots ct0) timeoutMs intervalSec cts h"

end
