(* ===== verification/Program.thy ===== *)
theory Program
  imports Config Tun Plane
begin

text \<open>
  Model of \<^verbatim>\<open>main.cpp\<close>: the command line, dropping privileges, and the start of the
  threads in \<^verbatim>\<open>run\<close>. A thread is the value of type \<open>thread\<close> that says which routine of
  \<^verbatim>\<open>plane.cpp\<close> it runs with which arguments; starting one and waiting for one are events.
  The exceptions of \<^verbatim>\<open>std\<close> (\<open>VerifyFailed\<close>, \<open>ErrnoError\<close>) get their text from the
  parameter \<open>stdText\<close>. \<^verbatim>\<open>exit\<close> is the outcome \<open>Exited\<close>. Allocation is invisible, and the
  \<^verbatim>\<open>catch (...)\<close> branch has no counterpart: every exception of the model is one of \<open>error\<close>.
\<close>

datatype outcome = Returned | Exited int

section \<open>The command line\<close>

text \<open>The loop from \<open>argv[1]\<close> on: the path so far, \<open>None\<close> when it calls \<open>usage\<close>.\<close>

fun parseArgs :: "string list \<Rightarrow> string \<Rightarrow> string option" where
  "parseArgs [] path = Some path"
| "parseArgs [arg] path = None"
| "parseArgs (arg # v # args) path = (if arg = ''--config'' then parseArgs args v else None)"

definition usage :: "outcome io" where
  "usage =
     andThen (call (LogLine ''usage: gofra --config /path/to/config.ini'')) (\<lambda>_.
     andThen (call (Exit 2)) (\<lambda>_. ret (Exited 2)))"

section \<open>Privileges\<close>

text \<open>A call whose result must be zero.\<close>

definition callZero :: "ev \<Rightarrow> string \<Rightarrow> int io" where
  "callZero e msg = andThen (call e) (\<lambda>r. if r \<noteq> 0 then throwErrno msg else ret r)"

definition dropPrivs :: "string \<Rightarrow> int io" where
  "dropPrivs user =
     andThen (call (GetPwNam (cstr user))) (\<lambda>_.
     andThen (ask (\<lambda>os h. osPasswd os h (cstr user))) (\<lambda>pw.
     case pw of
       None \<Rightarrow> throw (ErrnoError 0 (''unknown user: '' @ cstr user))
     | Some (uid, gid) \<Rightarrow>
         andThen (callZero SetGroups ''setgroups'') (\<lambda>_.
         andThen (callZero (SetResGid gid) ''setresgid'') (\<lambda>_.
         callZero (SetResUid uid) ''setresuid''))))"

section \<open>Start\<close>

definition startLine :: "'i config \<Rightarrow> 'i conn_table \<Rightarrow> string" where
  "startLine cfg conns =
     ''gofra: tun='' @ cstr (tunDev cfg) @
     '' mtu='' @ showNat (unat (scast (tunMtu cfg) :: u64)) @
     '' queues='' @ showNat (ctSrcCount conns) @
     '' peers='' @ showNat (ctSize conns)"

text \<open>The two threads of queue \<open>i\<close>.\<close>

definition spawnQueue :: "'i conn_table \<Rightarrow> int list \<Rightarrow> nat \<Rightarrow> thread list io" where
  "spawnQueue conns tunFds i =
     andThen (lift (map_option Inr (deref tunFds i))) (\<lambda>tunFd.
     andThen (lift (map_option Inr (ctSrcFd conns i))) (\<lambda>srcFd.
     let srcIdx = of_nat i :: u32; ts = makeTunReaderScratch
     in andThen (lift (map_option Inr makeUdpReaderScratch)) (\<lambda>us.
     andThen (call (Spawn (TunReader tunFd))) (\<lambda>_.
     andThen (call (Spawn (UdpReader srcFd tunFd srcIdx))) (\<lambda>_.
     ret [TunReader tunFd, UdpReader srcFd tunFd srcIdx])))))"

text \<open>\<^verbatim>\<open>run\<close> from the loaded configuration on.\<close>

definition runConfig :: "lib \<Rightarrow> 'i int_ops \<Rightarrow> 'i config \<Rightarrow> outcome io" where
  "runConfig L I cfg =
     andThen (lift (map_option Inr (cfgPeers cfg))) (\<lambda>peers.
     andThen (lift (map_option Inr (cfgSelf cfg))) (\<lambda>self.
     andThen (createConnTable L I peers self (udpRecvBuf cfg) (udpSendBuf cfg) (probeTimeoutMs cfg)) (\<lambda>conns.
     let n = ctSrcCount conns
     in andThen (forEachIO (\<lambda>_. openTun (tunDev cfg)) [0..<n]) (\<lambda>tunFds.
     andThen (configureTun (tunDev cfg) (tunMtu cfg) (tunVip cfg) (tunPrefixLen cfg)) (\<lambda>_.
     andThen (case cfgUser cfg of Some user \<Rightarrow> dropPrivs user | None \<Rightarrow> ret 0) (\<lambda>_.
     andThen (call (LogLine (startLine cfg conns))) (\<lambda>_.
     andThen (forEachIO (spawnQueue conns tunFds) [0..<n]) (\<lambda>queues.
     let pr = Prober (probeIntervalMs cfg);
         st = SlotsStats (probeTimeoutMs cfg) (statsIntervalSec cfg)
     in andThen (call (Spawn pr)) (\<lambda>_.
     andThen (call (Spawn st)) (\<lambda>_.
     andThen (forEachIO (\<lambda>t. call (Join t)) (concat queues @ [pr, st])) (\<lambda>_.
     ret Returned)))))))))))"

definition run ::
  "lib \<Rightarrow> 'm sec_ops \<Rightarrow> 'c cfg_ops \<Rightarrow> 'i int_ops \<Rightarrow> (string \<Rightarrow> error + string) \<Rightarrow> string list
    \<Rightarrow> outcome io"
where
  "run L M C I readFile argv =
     (case parseArgs (drop 1 argv) [] of
        None \<Rightarrow> usage
      | Some path \<Rightarrow>
          if path = [] then usage
          else andThen (call IgnoreSigPipe) (\<lambda>_.
               andThen (lift (loadConfig L M C I readFile path)) (\<lambda>cfg.
               runConfig L I cfg)))"

text \<open>\<^verbatim>\<open>e.description()\<close>\<close>

fun description :: "(error \<Rightarrow> string) \<Rightarrow> error \<Rightarrow> string" where
  "description stdText (AddrError msg) = fst (AddrError_description (new_AddrError msg))"
| "description stdText (IniError msg) = fst (IniError_description (new_IniError msg))"
| "description stdText (PeerError msg) = fst (PeerError_description (new_PeerError msg))"
| "description stdText (ConfigError msg) = fst (ConfigError_description (new_ConfigError msg))"
| "description stdText e = stdText e"

text \<open>\<^verbatim>\<open>main\<close>: the exit status and the calls made.\<close>

definition gofraMain ::
  "(error \<Rightarrow> string) \<Rightarrow> lib \<Rightarrow> 'm sec_ops \<Rightarrow> 'c cfg_ops \<Rightarrow> 'i int_ops \<Rightarrow> (string \<Rightarrow> error + string)
    \<Rightarrow> string list \<Rightarrow> os \<Rightarrow> ev list \<Rightarrow> (int \<times> ev list) option"
where
  "gofraMain stdText L M C I readFile argv os h =
     (case run L M C I readFile argv os h of
        None \<Rightarrow> None
      | Some (Inr Returned, h) \<Rightarrow> Some (0, h)
      | Some (Inr (Exited code), h) \<Rightarrow> Some (code, h)
      | Some (Inl e, h) \<Rightarrow> Some (1, h @ [LogLine (description stdText e)]))"

section \<open>The start in detail\<close>

text \<open>Calls made before privileges are dropped.\<close>

definition setsUp :: "ev \<Rightarrow> bool" where
  "setsUp e \<longleftrightarrow> (case e of SetGroups \<Rightarrow> False | SetResGid _ \<Rightarrow> False | SetResUid _ \<Rightarrow> False
     | Spawn _ \<Rightarrow> False | Join _ \<Rightarrow> False | Exit _ \<Rightarrow> False | LogLine _ \<Rightarrow> False | _ \<Rightarrow> True)"

definition notSpawn :: "ev \<Rightarrow> bool" where
  "notSpawn e \<longleftrightarrow> (case e of Spawn _ \<Rightarrow> False | _ \<Rightarrow> True)"

definition privCalls :: "string option \<Rightarrow> u32 \<times> u32 \<Rightarrow> ev list" where
  "privCalls user ids =
     (case user of None \<Rightarrow> []
      | Some u \<Rightarrow> [GetPwNam (cstr u), SetGroups, SetResGid (snd ids), SetResUid (fst ids)])"

text \<open>
  The identity that the password database gave for the user after the calls \<open>h\<close>, and that the
  calls that take it were made with success.
\<close>

definition idsOf :: "os \<Rightarrow> ev list \<Rightarrow> string option \<Rightarrow> u32 \<times> u32 \<Rightarrow> bool" where
  "idsOf os h user ids \<longleftrightarrow> (case user of None \<Rightarrow> True
     | Some u \<Rightarrow> osPasswd os (h @ [GetPwNam (cstr u)]) (cstr u) = Some ids \<and>
         osRes os (h @ [GetPwNam (cstr u)]) SetGroups = 0 \<and>
         osRes os (h @ [GetPwNam (cstr u), SetGroups]) (SetResGid (snd ids)) = 0 \<and>
         osRes os (h @ [GetPwNam (cstr u), SetGroups, SetResGid (snd ids)]) (SetResUid (fst ids)) = 0)"

definition queueThreads :: "int list \<Rightarrow> int list \<Rightarrow> nat \<Rightarrow> thread list" where
  "queueThreads tunFds srcFds i = [TunReader (tunFds ! i), UdpReader (srcFds ! i) (tunFds ! i) (of_nat i)]"

definition allThreads :: "'i config \<Rightarrow> int list \<Rightarrow> int list \<Rightarrow> thread list" where
  "allThreads cfg tunFds srcFds =
     concat (map (queueThreads tunFds srcFds) [0..<length srcFds]) @
     [Prober (probeIntervalMs cfg), SlotsStats (probeTimeoutMs cfg) (statsIntervalSec cfg)]"

text \<open>The calls of a start that succeeds, before the privileges and all; \<open>me\<close> is the own peer.\<close>

definition setupCalls ::
  "'i config \<Rightarrow> peer \<Rightarrow> int list \<Rightarrow> (nat \<Rightarrow> string) \<Rightarrow> int list \<Rightarrow> int \<Rightarrow> i32 \<Rightarrow> u32 \<Rightarrow> ev list"
where
  "setupCalls cfg me srcFds names tunFds s idx pid =
     concat (map (\<lambda>i. socketCalls (srcFds ! i) (names i) (peerDsts me ! i) (udpRecvBuf cfg) (udpSendBuf cfg))
       [0..<dstCount me]) @ [Clock] @
     concat (map (\<lambda>fd. openTunCalls fd (tunDev cfg)) tunFds) @
     configureCalls s idx pid (tunDev cfg) (tunMtu cfg) (tunVip cfg) (tunPrefixLen cfg)"

definition startCalls ::
  "'i config \<Rightarrow> peer \<Rightarrow> int list \<Rightarrow> (nat \<Rightarrow> string) \<Rightarrow> int list \<Rightarrow> int \<Rightarrow> i32 \<Rightarrow> u32 \<Rightarrow> u32 \<times> u32 \<Rightarrow> string \<Rightarrow> ev list"
where
  "startCalls cfg me srcFds names tunFds s idx pid ids line =
     setupCalls cfg me srcFds names tunFds s idx pid @
     privCalls (cfgUser cfg) ids @ [LogLine line] @
     map Spawn (allThreads cfg tunFds srcFds) @ map Join (allThreads cfg tunFds srcFds)"

lemma callZero_run [io_simps]:
  "callZero e msg os h = (if osRes os h e \<noteq> 0
     then Some (Inl (ErrnoError (osErrno os (h @ [e])) msg), h @ [e])
     else Some (Inr (osRes os h e), h @ [e]))"
  by (simp add: callZero_def io_simps)

lemma dropPrivs_run:
  "\<exists>r es. dropPrivs user os h = Some (r, h @ es) \<and> list_all notSpawn es \<and>
     (\<forall>x. r = Inr x \<longrightarrow> (\<exists>ids. idsOf os h (Some user) ids \<and> es = privCalls (Some user) ids))"
  by (simp add: dropPrivs_def io_simps privCalls_def notSpawn_def idsOf_def split: option.split prod.split)

lemma openTuns_ok:
  assumes "forEachIO (\<lambda>_. openTun dev) [0..<n] os h = Some (Inr fds, h')"
  shows "length fds = n \<and> h' = h @ concat (map (\<lambda>fd. openTunCalls fd dev) fds)"
proof -
  obtain ess where ess: "length fds = n" "length ess = n" "h' = h @ concat ess"
      "\<forall>i<n. ess ! i = openTunCalls (fds ! i) dev"
    using forEachIO_rounds [of "\<lambda>_. openTun dev" os "\<lambda>i fd es. es = openTunCalls fd dev", OF _ assms]
      openTun_ok [of dev os]
    by auto
  then have "ess = map (\<lambda>fd. openTunCalls fd dev) fds" by (intro nth_equalityI) simp_all
  with ess show ?thesis by simp
qed

lemma makeUdp_Some: "makeUdpReaderScratch \<noteq> None"
  by (simp add: makeUdpReaderScratch_def zeroVirtioNetHdr_def wrBlk_def MSG_SIZE_def VIRTIO_NET_HDR_LEN_def)

lemma spawnQueue_run:
  assumes "i < length tunFds" and "i < length (ctSrcFds conns)"
  shows "spawnQueue conns tunFds i os h =
    Some (Inr (queueThreads tunFds (ctSrcFds conns) i), h @ map Spawn (queueThreads tunFds (ctSrcFds conns) i))"
proof -
  obtain us where "makeUdpReaderScratch = Some us" using makeUdp_Some by blast
  then have "lift (map_option Inr makeUdpReaderScratch) = ret us" by (rule lift_Some)
  then show ?thesis
    using assms by (simp add: spawnQueue_def io_simps ctSrcFd_def queueThreads_def Let_def)
qed

text \<open>What a start needs of the configuration; \<open>loadConfig\<close> provides it.\<close>

definition cfgOk :: "'i int_ops \<Rightarrow> 'i config \<Rightarrow> peer \<Rightarrow> bool" where
  "cfgOk I cfg me \<longleftrightarrow> (\<exists>t self. cfgPeers cfg = Some t \<and> tableOk I t \<and> cfgSelf cfg = Some self \<and>
     peersAt t self = Some me)"

lemma emits_quiet:
  "emits setsUp m \<Longrightarrow> \<exists>r es. m os h = Some (r, h @ es) \<and> list_all setsUp es"
  by (rule emitsD)

lemma setsUp_notSpawn: "list_all setsUp es \<Longrightarrow> list_all notSpawn es"
  by (erule list.pred_mono_strong) (auto simp: setsUp_def notSpawn_def split: ev.splits)

lemma setup_emits:
  "mapOk I \<Longrightarrow> peersAt t self = Some me \<Longrightarrow> emits setsUp (createConnTable L I t self rb sb timeoutMs)"
  "emits setsUp (forEachIO (\<lambda>_. openTun dev) xs)"
  "emits setsUp (configureTun dev mtu vip p)"
proof -
  show "emits setsUp (createConnTable L I t self rb sb timeoutMs)" if "mapOk I" "peersAt t self = Some me"
    using that by (rule createConnTable_emits) (auto simp: setsUp_def isSocketCall_def split: ev.splits)
  show "emits setsUp (forEachIO (\<lambda>_. openTun dev) xs)"
    by (rule emits_forEachIO, rule emits_mono [OF openTun_emits]) (auto simp: setsUp_def split: ev.splits)
  show "emits setsUp (configureTun dev mtu vip p)"
    by (rule configureTun_emits) (auto simp: setsUp_def isNetlinkCall_def split: ev.splits)
qed

text \<open>The part of \<open>runConfig\<close> behind the TUN queues, for a table with its sockets.\<close>

definition startThreads :: "'i config \<Rightarrow> 'i conn_table \<Rightarrow> int list \<Rightarrow> outcome io" where
  "startThreads cfg conns tunFds =
     andThen (case cfgUser cfg of Some user \<Rightarrow> dropPrivs user | None \<Rightarrow> ret 0) (\<lambda>_.
     andThen (call (LogLine (startLine cfg conns))) (\<lambda>_.
     andThen (forEachIO (spawnQueue conns tunFds) [0..<ctSrcCount conns]) (\<lambda>queues.
     let pr = Prober (probeIntervalMs cfg);
         st = SlotsStats (probeTimeoutMs cfg) (statsIntervalSec cfg)
     in andThen (call (Spawn pr)) (\<lambda>_.
     andThen (call (Spawn st)) (\<lambda>_.
     andThen (forEachIO (\<lambda>t. call (Join t)) (concat queues @ [pr, st])) (\<lambda>_.
     ret Returned))))))"

lemma spawnQueues_run:
  assumes "length tunFds = ctSrcCount conns"
  shows "forEachIO (spawnQueue conns tunFds) [0..<ctSrcCount conns] os h =
    Some (Inr (map (queueThreads tunFds (ctSrcFds conns)) [0..<ctSrcCount conns]),
          h @ concat (map (\<lambda>i. map Spawn (queueThreads tunFds (ctSrcFds conns) i)) [0..<ctSrcCount conns]))"
  using assms by (intro forEachIO_total spawnQueue_run) (auto simp: ctSrcCount_def)

lemma joins_run: "\<exists>ys. forEachIO (\<lambda>t. call (Join t)) ts os h = Some (Inr ys, h @ map Join ts)"
  using forEachIO_succeeds [of ts "\<lambda>t. call (Join t)" os "\<lambda>t. [Join t]" h] by (simp add: call_run)

lemma startThreads_run:
  assumes "length tunFds = ctSrcCount conns"
  shows "\<exists>r es. startThreads cfg conns tunFds os h = Some (r, h @ es) \<and>
    (case r of
       Inl e \<Rightarrow> list_all notSpawn es
     | Inr x \<Rightarrow> x = Returned \<and> (\<exists>ids. idsOf os h (cfgUser cfg) ids \<and>
           es = privCalls (cfgUser cfg) ids @ [LogLine (startLine cfg conns)] @
           map Spawn (allThreads cfg tunFds (ctSrcFds conns)) @
           map Join (allThreads cfg tunFds (ctSrcFds conns))))"
proof -
  obtain r es where pr: "(case cfgUser cfg of Some user \<Rightarrow> dropPrivs user | None \<Rightarrow> ret 0) os h = Some (r, h @ es)"
      and no: "list_all notSpawn es" and ok: "\<And>x. r = Inr x \<Longrightarrow> \<exists>ids. idsOf os h (cfgUser cfg) ids \<and> es = privCalls (cfgUser cfg) ids"
    using dropPrivs_run [of _ os h]
    by (cases "cfgUser cfg") (fastforce simp: ret_run privCalls_def idsOf_def)+
  show ?thesis
  proof (cases r)
    case (Inl e)
    then show ?thesis using pr no by (simp add: startThreads_def andThen_run)
  next
    case (Inr x)
    let ?ts = "allThreads cfg tunFds (ctSrcFds conns)"
    have "map Spawn (concat (map f xs)) = concat (map (\<lambda>i. map Spawn (f i)) xs)" for f and xs :: "nat list"
      by (simp add: map_concat comp_def)
    moreover obtain ys where "forEachIO (\<lambda>t. call (Join t)) ?ts os ((h @ es @ [LogLine (startLine cfg conns)]) @ map Spawn ?ts)
        = Some (Inr ys, ((h @ es @ [LogLine (startLine cfg conns)]) @ map Spawn ?ts) @ map Join ?ts)"
      using joins_run by blast
    ultimately have "startThreads cfg conns tunFds os h = Some (Inr Returned,
        h @ es @ [LogLine (startLine cfg conns)] @ map Spawn ?ts @ map Join ?ts)"
      using pr Inr spawnQueues_run [OF assms]
      by (simp add: startThreads_def io_simps Let_def allThreads_def ctSrcCount_def)
    then show ?thesis using ok [OF Inr] Inr by auto
  qed
qed

text \<open>
  The table that a start builds after the calls \<open>h\<close>: from the peers of its configuration, as the
  peer that it is.
\<close>

definition builtFor :: "lib \<Rightarrow> 'i int_ops \<Rightarrow> 'i config \<Rightarrow> os \<Rightarrow> ev list \<Rightarrow> 'i conn_table \<Rightarrow> bool" where
  "builtFor L I cfg os h conns \<longleftrightarrow> (\<exists>t self es. cfgPeers cfg = Some t \<and> cfgSelf cfg = Some self \<and>
     createConnTable L I t self (udpRecvBuf cfg) (udpSendBuf cfg) (probeTimeoutMs cfg) os h = Some (Inr conns, h @ es))"

text \<open>The calls of a start: those of a table in use with one socket per own endpoint.\<close>

definition started :: "lib \<Rightarrow> 'i int_ops \<Rightarrow> os \<Rightarrow> 'i config \<Rightarrow> peer \<Rightarrow> ev list \<Rightarrow> ev list \<Rightarrow> bool" where
  "started L I os cfg me h es \<longleftrightarrow> (\<exists>conns names tunFds s idx pid ids.
     connTableOk I conns \<and> builtFor L I cfg os h conns \<and> ctSrcCount conns = dstCount me \<and>
     length tunFds = dstCount me \<and>
     idsOf os (h @ setupCalls cfg me (ctSrcFds conns) names tunFds s idx pid) (cfgUser cfg) ids \<and>
     es = startCalls cfg me (ctSrcFds conns) names tunFds s idx pid ids (startLine cfg conns))"

lemma runConfig_run:
  assumes I: "mapOk I" and cfg: "cfgOk I cfg me"
  shows "\<exists>r es. runConfig L I cfg os h = Some (r, h @ es) \<and>
    (case r of
       Inl e \<Rightarrow> list_all notSpawn es
     | Inr x \<Rightarrow> x = Returned \<and> started L I os cfg me h es)"
proof -
  obtain t self where ts: "cfgPeers cfg = Some t" "tableOk I t" "cfgSelf cfg = Some self"
      "peersAt t self = Some me"
    using cfg by (auto simp: cfgOk_def)
  let ?mk = "createConnTable L I t self (udpRecvBuf cfg) (udpSendBuf cfg) (probeTimeoutMs cfg)"
  let ?conf = "configureTun (tunDev cfg) (tunMtu cfg) (tunVip cfg) (tunPrefixLen cfg)"
  have eq: "runConfig L I cfg = andThen ?mk (\<lambda>conns.
      andThen (forEachIO (\<lambda>_. openTun (tunDev cfg)) [0..<ctSrcCount conns]) (\<lambda>tunFds.
      andThen ?conf (\<lambda>_. startThreads cfg conns tunFds)))"
    by (simp add: runConfig_def startThreads_def ts(1,3) lift_def andThen_def Let_def)
  obtain r1 e1 where mk: "?mk os h = Some (r1, h @ e1)" and n1: "list_all notSpawn e1"
    using emits_quiet [OF setup_emits(1) [OF I ts(4)]] setsUp_notSpawn by blast
  show ?thesis
  proof (cases r1)
    case (Inl e)
    then show ?thesis using mk n1 by (simp add: eq andThen_run)
  next
    case (Inr conns)
    have built: "builtFor L I cfg os h conns" unfolding builtFor_def using ts(1,3) mk Inr by blast
    have b: "connTableOk I conns \<and> (\<exists>names. length (ctSrcFds conns) = dstCount me \<and>
        h @ e1 = h @ concat (map (\<lambda>i. socketCalls (ctSrcFds conns ! i) (names i) (peerDsts me ! i)
          (udpRecvBuf cfg) (udpSendBuf cfg)) [0..<dstCount me]) @ [Clock])"
      using createConnTable_facts [OF I ts(2,4), where L = L and rb = "udpRecvBuf cfg"
          and sb = "udpSendBuf cfg" and timeoutMs = "probeTimeoutMs cfg" and os = os and h = h] mk Inr
      by blast
    then obtain names where conns: "connTableOk I conns" "ctSrcCount conns = dstCount me"
        "e1 = concat (map (\<lambda>i. socketCalls (ctSrcFds conns ! i) (names i) (peerDsts me ! i)
          (udpRecvBuf cfg) (udpSendBuf cfg)) [0..<dstCount me]) @ [Clock]"
      by (auto simp: ctSrcCount_def)
    obtain r2 e2 where tuns: "forEachIO (\<lambda>_. openTun (tunDev cfg)) [0..<ctSrcCount conns] os (h @ e1)
        = Some (r2, (h @ e1) @ e2)" and n2: "list_all notSpawn e2"
      using emits_quiet [OF setup_emits(2)] setsUp_notSpawn by blast
    show ?thesis
    proof (cases r2)
      case (Inl e)
      then show ?thesis using mk Inr tuns n1 n2 by (simp add: eq andThen_run)
    next
      case (Inr tunFds)
      have fds: "length tunFds = ctSrcCount conns" "e2 = concat (map (\<lambda>fd. openTunCalls fd (tunDev cfg)) tunFds)"
        using openTuns_ok [of "tunDev cfg" "ctSrcCount conns" os "h @ e1" tunFds] tuns Inr by auto
      obtain r3 e3 where conf: "?conf os ((h @ e1) @ e2) = Some (r3, ((h @ e1) @ e2) @ e3)"
          and n3: "list_all notSpawn e3"
        using emits_quiet [OF setup_emits(3)] setsUp_notSpawn by blast
      have upto: "runConfig L I cfg os h = andThen ?conf (\<lambda>_. startThreads cfg conns tunFds) os ((h @ e1) @ e2)"
        by (simp only: eq andThen_run mk \<open>r1 = Inr conns\<close> tuns Inr option.case prod.case sum.case)
      show ?thesis
      proof (cases r3)
        case (Inl e)
        then show ?thesis using upto conf n1 n2 n3 by (simp add: andThen_run)
      next
        case (Inr nl)
        obtain s idx pid where e3: "e3 = configureCalls s idx pid (tunDev cfg) (tunMtu cfg) (tunVip cfg) (tunPrefixLen cfg)"
          using configureTun_run [of "tunDev cfg" "tunMtu cfg" "tunVip cfg" "tunPrefixLen cfg" os "(h @ e1) @ e2"]
            conf Inr by auto
        obtain r4 e4 where st: "startThreads cfg conns tunFds os (((h @ e1) @ e2) @ e3) = Some (r4, (((h @ e1) @ e2) @ e3) @ e4)"
            and r4: "case r4 of Inl e \<Rightarrow> list_all notSpawn e4
              | Inr x \<Rightarrow> x = Returned \<and> (\<exists>ids. idsOf os (((h @ e1) @ e2) @ e3) (cfgUser cfg) ids \<and>
                e4 = privCalls (cfgUser cfg) ids @ [LogLine (startLine cfg conns)] @
                  map Spawn (allThreads cfg tunFds (ctSrcFds conns)) @
                  map Join (allThreads cfg tunFds (ctSrcFds conns)))"
          using startThreads_run [OF fds(1), of cfg os "((h @ e1) @ e2) @ e3"] by blast
        have all: "runConfig L I cfg os h = Some (r4, h @ (e1 @ e2 @ e3 @ e4))"
          using upto conf Inr st by (simp add: andThen_run)
        show ?thesis
        proof (cases r4)
          case (Inl e)
          then show ?thesis using all r4 n1 n2 n3 by simp
        next
          case (Inr x)
          have pre: "((h @ e1) @ e2) @ e3 = h @ setupCalls cfg me (ctSrcFds conns) names tunFds s idx pid"
            by (simp add: setupCalls_def conns(3) fds(2) e3)
          obtain ids where "idsOf os (h @ setupCalls cfg me (ctSrcFds conns) names tunFds s idx pid) (cfgUser cfg) ids"
              "x = Returned"
              "e1 @ e2 @ e3 @ e4 = startCalls cfg me (ctSrcFds conns) names tunFds s idx pid ids (startLine cfg conns)"
            using r4 Inr unfolding pre by (auto simp: startCalls_def setupCalls_def conns(3) fds(2) e3)
          moreover have "length tunFds = dstCount me" using fds(1) conns(2) by simp
          ultimately have "started L I os cfg me h (e1 @ e2 @ e3 @ e4)"
            using conns(1,2) built unfolding started_def by blast
          then show ?thesis using all Inr \<open>x = Returned\<close> by simp
        qed
      qed
    qed
  qed
qed

text \<open>The command line that is accepted: pairs of \<open>--config\<close> and a path; the last one counts.\<close>

lemma parseArgs_Some:
  "parseArgs args p0 = Some p \<longleftrightarrow>
     (\<exists>ps. args = concat (map (\<lambda>v. [''--config'', v]) ps) \<and> p = last (p0 # ps))"
proof (induction args p0 rule: parseArgs.induct)
  case (1 path)
  then show ?case by auto
next
  case (2 arg path)
  have "[arg] \<noteq> concat (map (\<lambda>v. [''--config'', v]) ps)" for ps by (cases ps) auto
  then show ?case by simp
next
  case (3 arg v args path)
  have "(arg # v # args = concat (map (\<lambda>v. [''--config'', v]) ps) \<and> p = last (path # ps)) \<longleftrightarrow>
      arg = ''--config'' \<and> (\<exists>qs. ps = v # qs \<and> args = concat (map (\<lambda>v. [''--config'', v]) qs) \<and> p = last (v # qs))" for ps
    by (cases ps) auto
  then show ?case using 3 by auto
qed

definition accepted :: "string list \<Rightarrow> string \<Rightarrow> bool" where
  "accepted argv path \<longleftrightarrow> path \<noteq> [] \<and>
     (\<exists>ps. drop 1 argv = concat (map (\<lambda>v. [''--config'', v]) ps) \<and> path = last ([] # ps))"

lemma accepted_eq: "accepted argv path \<longleftrightarrow> path \<noteq> [] \<and> parseArgs (drop 1 argv) [] = Some path"
  by (auto simp: accepted_def parseArgs_Some)

lemma loadConfig_returns:
  assumes "splitOk L" "stripOk L" "affixOk L" "mapOk M" "mapOk C" "mapOk I"
  shows "\<exists>r. loadConfig L M C I readFile path = Some r"
proof (cases "readFile path")
  case (Inr src)
  then show ?thesis
    using loadConfig_reads [OF assms, of readFile path src] by (fastforce split: sum.splits)
qed (simp add: loadConfig_def)

lemma loadConfig_cfgOk:
  assumes "splitOk L" "stripOk L" "affixOk L" "mapOk M" "mapOk C" "mapOk I"
    and "loadConfig L M C I readFile path = Some (Inr cfg)"
  shows "\<exists>me. cfgOk I cfg me"
  using loadConfig_usable [OF assms] by (auto simp: cfgOk_def)

text \<open>What \<open>main\<close> does with an accepted command line.\<close>

definition mainRun ::
  "(error \<Rightarrow> string) \<Rightarrow> lib \<Rightarrow> 'i int_ops \<Rightarrow> os \<Rightarrow> ev list \<Rightarrow> error + 'i config \<Rightarrow> int \<Rightarrow> ev list \<Rightarrow> bool"
where
  "mainRun stdText L I os h loaded status es \<longleftrightarrow>
     (case loaded of
        Inl e \<Rightarrow> status = 1 \<and> es = [IgnoreSigPipe, LogLine (description stdText e)]
      | Inr cfg \<Rightarrow>
          (status = 0 \<and> (\<exists>me es'. cfgOk I cfg me \<and> es = IgnoreSigPipe # es' \<and>
             started L I os cfg me (h @ [IgnoreSigPipe]) es')) \<or>
          (status = 1 \<and> (\<exists>e es'. es = IgnoreSigPipe # es' @ [LogLine (description stdText e)] \<and>
             list_all notSpawn es')))"

lemma gofraMain_run:
  assumes laws: "splitOk L" "stripOk L" "affixOk L" "mapOk M" "mapOk C" "mapOk I"
    and acc: "accepted argv path"
  shows "\<exists>loaded status es. loadConfig L M C I readFile path = Some loaded \<and>
    gofraMain stdText L M C I readFile argv os h = Some (status, h @ es) \<and>
    mainRun stdText L I os h loaded status es"
proof -
  obtain loaded where ld: "loadConfig L M C I readFile path = Some loaded"
    using loadConfig_returns [OF laws] by blast
  have run: "run L M C I readFile argv os h =
      andThen (lift (Some loaded)) (\<lambda>cfg. runConfig L I cfg) os (h @ [IgnoreSigPipe])"
    using acc by (simp add: run_def accepted_eq ld andThen_run call_run)
  show ?thesis
  proof (cases loaded)
    case (Inl e)
    then show ?thesis
      using ld run by (simp add: gofraMain_def mainRun_def andThen_run lift_run)
  next
    case (Inr cfg)
    obtain me where me: "cfgOk I cfg me" using loadConfig_cfgOk [OF laws] ld Inr by blast
    obtain r es where rc: "runConfig L I cfg os (h @ [IgnoreSigPipe]) = Some (r, (h @ [IgnoreSigPipe]) @ es)"
        and r: "case r of Inl e \<Rightarrow> list_all notSpawn es | Inr x \<Rightarrow> x = Returned \<and> started L I os cfg me (h @ [IgnoreSigPipe]) es"
      using runConfig_run [OF laws(6) me] by blast
    then have "run L M C I readFile argv os h = Some (r, h @ IgnoreSigPipe # es)"
      using run Inr by (simp add: andThen_run lift_run)
    then show ?thesis
      using ld Inr me r by (cases r) (auto simp: gofraMain_def mainRun_def)
  qed
qed

section \<open>Properties\<close>

lemma gofraMain_usage:
  "\<nexists>path. accepted argv path \<Longrightarrow> gofraMain stdText L M C I readFile argv os h =
     Some (2, h @ [LogLine ''usage: gofra --config /path/to/config.ini'', Exit 2])"
  by (cases "parseArgs (drop 1 argv) []")
    (auto simp: accepted_eq gofraMain_def run_def usage_def io_simps)

text \<open>
  Property C12. The program as a whole. A command line other than one or more
  \<^verbatim>\<open>--config path\<close> prints the usage and exits with 2. Otherwise the configuration is
  loaded. When that throws, or anything in the start does, its description is printed, the
  exit status is 1 and no thread has been started. Otherwise the calls are exactly those of a
  start: one socket per own endpoint, the clock, one TUN queue per socket, the configuration
  of the device, the privileges, one line, then per queue the two readers, paired with the
  socket of the same index, the prober and the statistics, all of which are then waited for.
\<close>

theorem main_exits:
  assumes "splitOk L" "stripOk L" "affixOk L" "mapOk M" "mapOk C" "mapOk I"
  shows "(\<forall>path. accepted argv path \<longrightarrow>
      (\<exists>loaded status es. loadConfig L M C I readFile path = Some loaded \<and>
        gofraMain stdText L M C I readFile argv os h = Some (status, h @ es) \<and>
        mainRun stdText L I os h loaded status es)) \<and>
    ((\<nexists>path. accepted argv path) \<longrightarrow> gofraMain stdText L M C I readFile argv os h =
      Some (2, h @ [LogLine ''usage: gofra --config /path/to/config.ini'', Exit 2]))"
  using gofraMain_run [OF assms] gofraMain_usage by blast

lemma before_privileges: "list_all notSpawn (setupCalls cfg me fds names tunFds s idx pid)"
  by (auto simp: setupCalls_def list_all_iff socketCalls_def openTunCalls_def configureCalls_def
      netlinkCalls_def notSpawn_def)

lemma mainRun_privileges:
  assumes "mainRun stdText L I os h (Inr cfg) status es" and "Spawn t \<in> set es" and u: "cfgUser cfg = Some u"
  shows "\<exists>pre post uid gid. es = pre @ [GetPwNam (cstr u), SetGroups, SetResGid gid, SetResUid uid] @ post \<and>
    list_all notSpawn pre \<and> idsOf os (h @ pre) (Some u) (uid, gid)"
proof -
  have no: "Spawn t \<notin> set es'" if "list_all notSpawn es'" for es'
    using that by (auto simp: list_all_iff notSpawn_def)
  have "status = 0"
    using assms(1,2) no by (auto simp: mainRun_def)
  then obtain me es' where es: "es = IgnoreSigPipe # es'" "started L I os cfg me (h @ [IgnoreSigPipe]) es'"
    using assms(1) by (auto simp: mainRun_def)
  then obtain pre ids post where "es' = pre @ privCalls (cfgUser cfg) ids @ post" "list_all notSpawn pre"
      "idsOf os ((h @ [IgnoreSigPipe]) @ pre) (cfgUser cfg) ids"
    unfolding started_def startCalls_def
    by (elim exE conjE) (rule that [OF _ before_privileges], simp, assumption)
  then have "es = (IgnoreSigPipe # pre) @ [GetPwNam (cstr u), SetGroups, SetResGid (snd ids), SetResUid (fst ids)] @ post"
      "list_all notSpawn (IgnoreSigPipe # pre)" "idsOf os (h @ IgnoreSigPipe # pre) (Some u) (fst ids, snd ids)"
    using es(1) u by (simp_all add: privCalls_def notSpawn_def)
  then show ?thesis by blast
qed

text \<open>
  Property C13. No thread ever runs with the privileges the program was started with when a
  user is configured: if any thread is started, then before the first one the supplementary
  groups were dropped and the group and then the user identity were taken that the password
  database gave for the configured user, and each of the three calls succeeded.
\<close>

theorem main_privileges:
  assumes "splitOk L" "stripOk L" "affixOk L" "mapOk M" "mapOk C" "mapOk I"
    and "gofraMain stdText L M C I readFile argv os h = Some (status, h @ es)" and "Spawn t \<in> set es"
  shows "\<exists>path cfg. accepted argv path \<and> loadConfig L M C I readFile path = Some (Inr cfg) \<and>
    (\<forall>u. cfgUser cfg = Some u \<longrightarrow>
      (\<exists>pre post uid gid. es = pre @ [GetPwNam (cstr u), SetGroups, SetResGid gid, SetResUid uid] @ post \<and>
        list_all notSpawn pre \<and> osPasswd os (h @ pre @ [GetPwNam (cstr u)]) (cstr u) = Some (uid, gid) \<and>
        osRes os (h @ pre @ [GetPwNam (cstr u)]) SetGroups = 0 \<and>
        osRes os (h @ pre @ [GetPwNam (cstr u), SetGroups]) (SetResGid gid) = 0 \<and>
        osRes os (h @ pre @ [GetPwNam (cstr u), SetGroups, SetResGid gid]) (SetResUid uid) = 0))"
proof -
  have "\<exists>path. accepted argv path"
  proof (rule ccontr)
    assume "\<not> ?thesis"
    from gofraMain_usage [OF this, of stdText L M C I readFile os h] assms(7,8) show False by auto
  qed
  then obtain path where acc: "accepted argv path" by blast
  obtain loaded where ld: "loadConfig L M C I readFile path = Some loaded" "mainRun stdText L I os h loaded status es"
    using gofraMain_run [OF assms(1-6) acc, of readFile stdText os h] assms(7) by auto
  then obtain cfg where cfg: "loaded = Inr cfg"
    using assms(8) by (cases loaded) (auto simp: mainRun_def)
  then show ?thesis
    using acc ld mainRun_privileges [OF _ assms(8), of stdText L I os h cfg status]
    by (intro exI [of _ path] exI [of _ cfg]) (simp add: idsOf_def)
qed

section \<open>A concrete run\<close>

definition exKernel :: os where
  "exKernel = exOs\<lparr>osIfAddrs := (\<lambda>_. [(''eth0'', Some (Sin 0 (exAddr 10 0 0 1)))])\<rparr>"

definition exMain :: "string list \<Rightarrow> (int \<times> ev list) option" where
  "exMain argv = gofraMain (\<lambda>_. ''err'') exLib exMap exMap (exMap :: (u64 \<Rightarrow> nat option) int_ops)
     (\<lambda>_. Inr exConf) argv exKernel []"

lemma exConf_loaded:
  "\<exists>t. loadConfig exLib exMap exMap (exMap :: (u64 \<Rightarrow> nat option) int_ops) (\<lambda>_. Inr exConf) ''x'' =
     Some (Inr \<lparr>tunVip = 0x0A090001, tunPrefixLen = 24, tunMtu = 1400, tunDev = ''gofra0'' @ [CHR 0x00],
      cfgPeers = Some t, cfgSelf = Some 0, udpRecvBuf = 16777216, udpSendBuf = 16777216,
      probeIntervalMs = 200, probeTimeoutMs = 500, statsIntervalSec = 10,
      cfgUser = Some (''ann'' @ [CHR 0x00])\<rparr>) \<and>
     tabPeers t = [\<lparr>peerVip = 0x0A090001, peerDsts = [Sin 7 (exAddr 10 0 0 1)]\<rparr>]"
  using loadConfig_reads [of exLib "exMap :: (string \<Rightarrow> string option) sec_ops"
      "exMap :: (string \<Rightarrow> nat option) cfg_ops" "exMap :: (u64 \<Rightarrow> nat option) int_ops"
      "\<lambda>_. Inr exConf" "''x''" exConf]
  by (auto simp: exConf_config)

lemma exMain_run: "\<exists>es. exMain [''gofra'', ''--config'', ''x''] = Some (0, es) \<and> Spawn (TunReader 7) \<in> set es"
proof -
  obtain t where cfg: "loadConfig exLib exMap exMap (exMap :: (u64 \<Rightarrow> nat option) int_ops) (\<lambda>_. Inr exConf) ''x'' =
     Some (Inr \<lparr>tunVip = 0x0A090001, tunPrefixLen = 24, tunMtu = 1400, tunDev = ''gofra0'' @ [CHR 0x00],
      cfgPeers = Some t, cfgSelf = Some 0, udpRecvBuf = 16777216, udpSendBuf = 16777216,
      probeIntervalMs = 200, probeTimeoutMs = 500, statsIntervalSec = 10,
      cfgUser = Some (''ann'' @ [CHR 0x00])\<rparr>)"
     "tabPeers t = [\<lparr>peerVip = 0x0A090001, peerDsts = [Sin 7 (exAddr 10 0 0 1)]\<rparr>]"
    using exConf_loaded by blast
  have table: "\<exists>ct es. createConnTable exLib exMap t 0 16777216 16777216 500 exKernel h = Some (Inr ct, es) \<and>
      ctSrcFds ct = [5] \<and> length (ctConns ct) = 0" for h
    using cfg(2)
    by (simp add: createConnTable_def io_simps peersAt_def peersSize_def dst_def dstCount_def
        openUdpSocket_def ifaceFor_def setBufForce_def findIface_find exKernel_def exOs_def
        exLib_def owns_def AF_INET_def exMap_def)
  have tun: "openTun (''gofra0'' @ [CHR 0x00]) exKernel h = Some (Inr 7, h @ openTunCalls 7 (''gofra0'' @ [CHR 0x00]))" for h
    by (simp add: openTun_def io_simps copyIfName_def TUN_IFNAMSIZ_def openTunCalls_def cstr_def
        exKernel_def exOs_def)
  have conf: "\<exists>nl es. configureTun (''gofra0'' @ [CHR 0x00]) 1400 0x0A090001 24 exKernel h = Some (Inr nl, es)" for h
    by (simp add: configureTun_def ifIndexFor_def netlinkOpen_def copyIfName_def TUN_IFNAMSIZ_def
        cstr_def setMtu_def addAddr_def linkUp_def nextSeq_def netlinkRun_def io_simps exKernel_def exOs_def)
  obtain ct h1 where 1: "createConnTable exLib exMap t 0 16777216 16777216 500 exKernel [IgnoreSigPipe] = Some (Inr ct, h1)"
      "ctSrcFds ct = [5]" using table by blast
  obtain nl h2 where 2: "configureTun (''gofra0'' @ [CHR 0x00]) 1400 0x0A090001 24 exKernel
      (h1 @ openTunCalls 7 (''gofra0'' @ [CHR 0x00])) = Some (Inr nl, h2)" using conf by blast
  obtain us where "makeUdpReaderScratch = Some us" using makeUdp_Some by blast
  then have us: "lift (map_option Inr makeUdpReaderScratch) = ret us" by (rule lift_Some)
  have res: "osRes exKernel h SetGroups = 0" "osRes exKernel h (SetResGid g) = 0"
      "osRes exKernel h (SetResUid g) = 0" "osPasswd exKernel h u = Some (100, 200)" for h g u
    by (simp_all add: exKernel_def exOs_def)
  show ?thesis
    using 1 2 tun
    by (simp add: exMain_def gofraMain_def run_def cfg(1) runConfig_def andThen_run call_run lift_run
        ctSrcCount_def dropPrivs_def ask_run callZero_run ret_run Let_def spawnQueue_def us ctSrcFd_def res)
qed

theorem main_exits_witness:
  "\<exists>cfg me es. exMain [''gofra'', ''--config'', ''x''] = Some (0, IgnoreSigPipe # es) \<and>
     started exLib exMap exKernel cfg me [IgnoreSigPipe] es \<and> exMain [''gofra''] =
       Some (2, [LogLine ''usage: gofra --config /path/to/config.ini'', Exit 2])"
proof -
  note exits = main_exits [OF splitOk_exLib stripOk_exLib affixOk_exLib mapOk_exMap mapOk_exMap
    mapOk_exMap, where stdText = "\<lambda>_. ''err''" and readFile = "\<lambda>_. Inr exConf" and os = exKernel and h = "[]"]
  have acc: "accepted [''gofra'', ''--config'', ''x''] ''x''" by (simp add: accepted_eq)
  obtain loaded status es where run: "exMain [''gofra'', ''--config'', ''x''] = Some (status, es)"
      "mainRun (\<lambda>_. ''err'') exLib exMap exKernel [] loaded status es"
    using exits [THEN conjunct1, rule_format, OF acc] unfolding exMain_def by auto
  moreover have "status = 0" using exMain_run run(1) by auto
  ultimately obtain cfg me es' where "es = IgnoreSigPipe # es'" "started exLib exMap exKernel cfg me [IgnoreSigPipe] es'"
    by (auto simp: mainRun_def split: sum.splits)
  moreover have "\<nexists>path. accepted [''gofra''] path" by (auto simp: accepted_eq)
  then have "exMain [''gofra''] = Some (2, [LogLine ''usage: gofra --config /path/to/config.ini'', Exit 2])"
    using exits [THEN conjunct2, rule_format, of "[''gofra'']"] unfolding exMain_def by simp
  ultimately show ?thesis using run(1) \<open>status = 0\<close> by blast
qed

theorem main_privileges_witness:
  "\<exists>pre post. exMain [''gofra'', ''--config'', ''x''] =
     Some (0, pre @ [GetPwNam ''ann'', SetGroups, SetResGid 200, SetResUid 100] @ post) \<and>
     list_all notSpawn pre"
proof -
  obtain es where run: "exMain [''gofra'', ''--config'', ''x''] = Some (0, es)" "Spawn (TunReader 7) \<in> set es"
    using exMain_run by blast
  from main_privileges [OF splitOk_exLib stripOk_exLib affixOk_exLib mapOk_exMap mapOk_exMap mapOk_exMap, where
      stdText = "\<lambda>_. ''err''" and readFile = "\<lambda>_. Inr exConf" and os = exKernel and h = "[]"
      and argv = "[''gofra'', ''--config'', ''x'']" and es = es and t = "TunReader 7"]
  obtain path and cfg :: "(u64 \<Rightarrow> nat option) config" where
      acc: "accepted [''gofra'', ''--config'', ''x''] path"
      and cfg: "loadConfig exLib exMap exMap (exMap :: (u64 \<Rightarrow> nat option) int_ops) (\<lambda>_. Inr exConf) path = Some (Inr cfg)"
      and priv: "\<And>u. cfgUser cfg = Some u \<Longrightarrow>
        \<exists>pre post uid gid. es = pre @ [GetPwNam (cstr u), SetGroups, SetResGid gid, SetResUid uid] @ post \<and>
        list_all notSpawn pre \<and> osPasswd exKernel (pre @ [GetPwNam (cstr u)]) (cstr u) = Some (uid, gid) \<and>
          osRes exKernel (pre @ [GetPwNam (cstr u)]) SetGroups = 0 \<and>
          osRes exKernel (pre @ [GetPwNam (cstr u), SetGroups]) (SetResGid gid) = 0 \<and>
          osRes exKernel (pre @ [GetPwNam (cstr u), SetGroups, SetResGid gid]) (SetResUid uid) = 0"
    using run unfolding exMain_def by auto
  have "path = ''x''" using acc by (simp add: accepted_eq)
  then have "cfgUser cfg = Some (''ann'' @ [CHR 0x00])" using cfg exConf_loaded by auto
  moreover have "cstr (''ann'' @ [CHR 0x00]) = ''ann''" by (simp add: cstr_def)
  moreover have "osPasswd exKernel h' u = Some (100, 200)" for h' u by (simp add: exKernel_def exOs_def)
  ultimately obtain pre post where "es = pre @ [GetPwNam ''ann'', SetGroups, SetResGid 200, SetResUid 100] @ post"
      "list_all notSpawn pre"
    using priv [of "''ann'' @ [CHR 0x00]"] by auto
  then show ?thesis using run(1) by blast
qed

end
