(* ===== verification/GsoSegments.thy ===== *)
theory GsoSegments
  imports Gso
begin

text \<open>
  Correctness of \<open>gsoSplit\<close>. A segment is specified by its parts (IP header, TCP header,
  payload); the loop body is shown to build exactly that segment in its buffer, without an
  access outside a buffer, and the loop to build the segments of the whole payload. The
  properties of the segments (lengths, sequence numbers, flags, checksums) are then proved
  on the specification.
\<close>

section \<open>A segment, by its parts\<close>

definition ipSeg :: "bytes \<Rightarrow> nat \<Rightarrow> nat \<Rightarrow> bytes" where
  "ipSeg H tot i =
     (let h = put16 (put16 H 4 (word16 (H ! 4) (H ! 5) + of_nat i)) 2 (of_nat tot)
      in put16 h 10 (NOT (checksum h 0)))"

definition tcpHead :: "bytes \<Rightarrow> u32 \<Rightarrow> bool \<Rightarrow> bytes" where
  "tcpHead T seq notLast =
     (let t = put32 T 4 seq
      in if notLast then t[13 := t ! 13 AND NOT (TCP_FLAG_FIN OR TCP_FLAG_PSH)] else t)"

definition tcpSeg :: "bytes \<Rightarrow> bytes \<Rightarrow> bytes \<Rightarrow> bytes \<Rightarrow> bytes" where
  "tcpSeg src dst t payload =
     put16 t 16 (NOT (checksum (t @ payload)
       (pseudoHeaderChecksumNoFold IPPROTO_TCP_V src dst (of_nat (length t + length payload)))))
     @ payload"

lemma length_ipSeg [simp]: "length (ipSeg H tot i) = length H"
  by (simp add: ipSeg_def Let_def)

lemma length_tcpHead [simp]: "length (tcpHead T seq notLast) = length T"
  by (simp add: tcpHead_def Let_def)

lemma length_tcpSeg [simp]: "length (tcpSeg src dst t p) = length t + length p"
  by (simp add: tcpSeg_def)

text \<open>
  The input of the loop: an IP header \<open>H\<close>, a TCP header \<open>T\<close> and the payload, followed by
  whatever else the read buffer holds.
\<close>

definition gsoShape :: "bytes \<Rightarrow> virtio_net_hdr \<Rightarrow> bytes \<Rightarrow> bytes \<Rightarrow> bytes \<Rightarrow> bool" where
  "gsoShape inb hdr H T D \<longleftrightarrow>
     inb = H @ T @ D \<and> length H = unat (csumStart hdr) \<and>
     length H + length T = unat (hdrLen hdr) \<and>
     20 \<le> length H \<and> 20 \<le> length T \<and> csumOffset hdr = 16"

lemma flags_update:
  "13 < length T \<Longrightarrow> length H = n \<Longrightarrow>
   (do { f \<leftarrow> rd8 (H @ put32 T 4 s @ R) (n + TCP_FLAGS_OFFSET);
         wr8 (H @ put32 T 4 s @ R) (n + TCP_FLAGS_OFFSET) (f AND m) })
   = Some (H @ (put32 T 4 s)[13 := put32 T 4 s ! 13 AND m] @ R)"
  by (simp add: rd8_def wr8_def TCP_FLAGS_OFFSET_def nth_append list_update_append)

text \<open>The body of the loop builds the specified segment at the front of its buffer.\<close>

lemma gsoSegment_eq:
  assumes shape: "gsoShape inb hdr H T D"
    and a: "unat (hdrLen hdr) \<le> a" and e: "a \<le> e" "e \<le> length inb"
    and P: "P = take (e - a) (drop a inb)"
    and room: "unat (hdrLen hdr) + (e - a) \<le> length out"
  shows "gsoSegment inb inLen hdr s0 a e i out =
    Some (unat (hdrLen hdr) + (e - a),
      ipSeg H (unat (hdrLen hdr) + (e - a)) i
      @ tcpSeg (take 4 (drop 12 H)) (take 4 (drop 16 H))
          (tcpHead T (s0 + ucast (gsoSize hdr) * of_nat i) (e \<noteq> inLen)) P
      @ drop (unat (hdrLen hdr) + (e - a)) out)"
proof -
  let ?n = "unat (hdrLen hdr) + (e - a)"
  let ?c = "unat (csumStart hdr)" and ?h = "unat (hdrLen hdr)"
  let ?R = "drop ?c out"
  from shape have inb: "inb = H @ T @ D" and H: "length H = ?c" and HT: "?c + length T = ?h"
    and H20: "20 \<le> length H" and T20: "20 \<le> length T" and co: "unat (csumOffset hdr) = 16"
    by (auto simp: gsoShape_def)
  have lenP: "length P = e - a" using P e by simp
  have sub: "sizeSub ?h ?c = length T" "sizeSub ?n ?c = length T + length P"
    using HT lenP by auto
  define H1 where "H1 = put16 H 4 (word16 (H ! 4) (H ! 5) + of_nat i)"
  define H2 where "H2 = put16 H1 2 (of_nat ?n)"
  have H12: "length H1 = ?c" "length H2 = ?c" using H by (simp_all add: H1_def H2_def)
  have id: "(if i > 0 then do { id \<leftarrow> getBE16 (H @ R) 4; putBE16 (H @ R) 4 (id + of_nat i) }
             else Some (H @ R)) = Some (H1 @ R)" for R
    using H20 put16_self [of H 4]
    by (simp add: getBE16_Some putBE16_Some put16_front nth_append H1_def)
  have len: "putBE16 (H1 @ R) 2 (of_nat ?n) = Some (H2 @ R)" for R
    using H20 H H12 by (simp add: putBE16_Some put16_front H2_def)
  have ip: "putBE16 (H2 @ R) 10 (NOT (checksum H2 0)) = Some (ipSeg H ?n i @ R)" for R
    using H20 H H12 by (simp add: putBE16_Some put16_front ipSeg_def Let_def H1_def H2_def)
  define t where "t = tcpHead T (s0 + ucast (gsoSize hdr) * of_nat i) (e \<noteq> inLen)"
  have lt: "length t = length T" by (simp add: t_def)
  let ?I = "ipSeg H ?n i"
  have I: "length ?I = ?c" using H by simp
  have seq: "putBE32 (?I @ T @ R) (?c + 4) v = Some (?I @ put32 T 4 v @ R)" for R v
    using T20 I by (simp add: putBE32_Some put32_part put32_front)
  have fl: "(if e \<noteq> inLen
        then do { f \<leftarrow> rd8 (?I @ put32 T 4 v @ R) (?c + TCP_FLAGS_OFFSET);
                  wr8 (?I @ put32 T 4 v @ R) (?c + TCP_FLAGS_OFFSET)
                    (f AND NOT (TCP_FLAG_FIN OR TCP_FLAG_PSH)) }
        else Some (?I @ put32 T 4 v @ R)) = Some (?I @ tcpHead T v (e \<noteq> inLen) @ R)" for R v
    using T20 I by (simp add: flags_update tcpHead_def Let_def)
  have pay: "wrBlk (?I @ t @ R) ?h P = Some (?I @ t @ P @ drop (length P) R)"
    if "length P \<le> length R" for R
    using wrBlk_part [of "?I @ t" ?h P R] that I lt HT by simp
  have tr: "rdBlk (?I @ t @ P @ R) ?c (length T + length P) = Some (t @ P)" for R
    using rdBlk_part [of ?I ?c "t @ P"] I lt by simp
  have cs: "putBE16 (?I @ t @ P @ R) (?c + 16) v = Some (?I @ put16 t 16 v @ P @ R)" for R v
    using T20 I lt by (simp add: putBE16_Some put16_part put16_front)
  have addr: "rdBlk inb IPV4_SRC_ADDR_OFFSET IPV4_ADDR_LEN = Some (take 4 (drop 12 H))"
       "rdBlk inb (IPV4_SRC_ADDR_OFFSET + IPV4_ADDR_LEN) IPV4_ADDR_LEN = Some (take 4 (drop 16 H))"
    using H20 by (simp_all add: inb rdBlk_def IPV4_SRC_ADDR_OFFSET_def IPV4_ADDR_LEN_def)
  have io: "rdBlk inb 0 ?c = Some H" "wrBlk out 0 H = Some (H @ ?R)" "rdBlk (H2 @ ?R) 0 ?c = Some H2"
    "rdBlk inb ?c (length T) = Some T" "rdBlk inb a (e - a) = Some P"
    "wrBlk (?I @ ?R) ?c T = Some (?I @ T @ drop (length T) ?R)"
    using H H12 I HT room e P
    by (auto simp: inb rdBlk_front rdBlk_part wrBlk_front wrBlk_part rdBlk_def)
  have rest: "drop (length P) (drop (length T) ?R) = drop ?n out"
    using lenP HT by (simp add: ac_simps)
  have "length P \<le> length (drop (length T) ?R)" using room lenP HT by simp
  note pay' = pay [OF this]
  show ?thesis
    unfolding gsoSegment_def Let_def
    by (simp only: io id len ip sub seq fl t_def [symmetric] pay' addr tr cs co rest bind.bind_lunit)
      (simp add: tcpSeg_def lt lenP)
qed

section \<open>The loop\<close>

definition segStart :: "virtio_net_hdr \<Rightarrow> nat \<Rightarrow> nat" where
  "segStart hdr j = unat (hdrLen hdr) + j * unat (gsoSize hdr)"

text \<open>How many segments the payload needs: its length over \<open>gsoSize\<close>, rounded up.\<close>

definition segCount :: "nat \<Rightarrow> virtio_net_hdr \<Rightarrow> nat" where
  "segCount inLen hdr =
     (inLen - unat (hdrLen hdr) + (unat (gsoSize hdr) - 1)) div unat (gsoSize hdr)"

definition segLen :: "nat \<Rightarrow> virtio_net_hdr \<Rightarrow> nat \<Rightarrow> nat" where
  "segLen inLen hdr j =
     unat (hdrLen hdr) + (segEnd inLen hdr (segStart hdr j) - segStart hdr j)"

definition segPayload :: "bytes \<Rightarrow> nat \<Rightarrow> virtio_net_hdr \<Rightarrow> nat \<Rightarrow> bytes" where
  "segPayload inb inLen hdr j =
     take (segEnd inLen hdr (segStart hdr j) - segStart hdr j) (drop (segStart hdr j) inb)"

lemma segStart_less:
  "0 < unat (gsoSize hdr) \<Longrightarrow> segStart hdr j < inLen \<longleftrightarrow> j < segCount inLen hdr"
proof -
  let ?g = "unat (gsoSize hdr)" and ?h = "unat (hdrLen hdr)"
  assume g: "0 < ?g"
  have "j < segCount inLen hdr \<longleftrightarrow> Suc j * ?g \<le> inLen - ?h + (?g - 1)"
    using g by (simp add: segCount_def less_eq_Suc_le less_eq_div_iff_mult_less_eq
        del: mult_Suc)
  also have "\<dots> \<longleftrightarrow> j * ?g < inLen - ?h" using g by auto
  also have "\<dots> \<longleftrightarrow> segStart hdr j < inLen" by (auto simp: segStart_def)
  finally show ?thesis by simp
qed

lemma segStart_Suc: "segStart hdr (Suc j) = segStart hdr j + unat (gsoSize hdr)"
  by (simp add: segStart_def)

lemma segStart_0: "segStart hdr 0 = unat (hdrLen hdr)"
  by (simp add: segStart_def)

lemma segEnd_bounds:
  "a < inLen \<Longrightarrow> a \<le> segEnd inLen hdr a \<and> segEnd inLen hdr a \<le> inLen \<and>
   segEnd inLen hdr a \<le> a + unat (gsoSize hdr)"
  by (auto simp: segEnd_def)

lemma segLen_le:
  "0 < unat (gsoSize hdr) \<Longrightarrow> j < segCount inLen hdr \<Longrightarrow>
   segLen inLen hdr j \<le> unat (hdrLen hdr) + unat (gsoSize hdr)"
  using segEnd_bounds [of "segStart hdr j" inLen hdr]
  by (auto simp: segLen_def segStart_less)

text \<open>The segments, from the buffer with its checksum fields cleared.\<close>

definition segOf :: "bytes \<Rightarrow> nat \<Rightarrow> virtio_net_hdr \<Rightarrow> bytes \<Rightarrow> bytes \<Rightarrow> u32 \<Rightarrow> nat \<Rightarrow> bytes" where
  "segOf inb inLen hdr H T s0 j =
     ipSeg H (segLen inLen hdr j) j
     @ tcpSeg (take 4 (drop 12 H)) (take 4 (drop 16 H))
         (tcpHead T (s0 + ucast (gsoSize hdr) * of_nat j)
            (segEnd inLen hdr (segStart hdr j) \<noteq> inLen))
         (segPayload inb inLen hdr j)"

text \<open>The arrays after the loop has filled the entries \<open>i ..< n\<close>.\<close>

definition filled :: "(nat \<Rightarrow> bytes) \<Rightarrow> nat \<Rightarrow> nat \<Rightarrow> gso_out \<Rightarrow> gso_out \<Rightarrow> bool" where
  "filled seg i n st st' \<longleftrightarrow>
     length (outBufs st') = length (outBufs st) \<and> length (outSizes st') = length (outSizes st) \<and>
     (\<forall>j. (if i \<le> j \<and> j < n
          then outSizes st' ! j = length (seg j) \<and>
               outBufs st' ! j = seg j @ drop (length (seg j)) (outBufs st ! j)
          else outSizes st' ! j = outSizes st ! j \<and> outBufs st' ! j = outBufs st ! j))"

lemma filled_refl: "n \<le> i \<Longrightarrow> filled seg i n st st"
  by (auto simp: filled_def)

lemma filled_step:
  assumes "filled seg (Suc i) n st1 st'" and "i < n"
    and "st1 = st\<lparr>outBufs := (outBufs st)[i := seg i @ drop (length (seg i)) (outBufs st ! i)],
                  outSizes := (outSizes st)[i := length (seg i)]\<rparr>"
    and "i < length (outBufs st)" and "i < length (outSizes st)"
  shows "filled seg i n st st'"
  unfolding filled_def
proof (intro conjI allI)
  show "length (outBufs st') = length (outBufs st)" "length (outSizes st') = length (outSizes st)"
    using assms(1,3) by (auto simp: filled_def)
  fix j
  note step = assms(1) [unfolded filled_def, THEN conjunct2, THEN conjunct2, THEN spec, of j]
  show "if i \<le> j \<and> j < n
        then outSizes st' ! j = length (seg j) \<and>
             outBufs st' ! j = seg j @ drop (length (seg j)) (outBufs st ! j)
        else outSizes st' ! j = outSizes st ! j \<and> outBufs st' ! j = outBufs st ! j"
    using step assms(2-5) by (cases "j = i") (auto simp: Suc_le_eq)
qed

lemma length_segPayload:
  "inLen \<le> length inb \<Longrightarrow> 0 < unat (gsoSize hdr) \<Longrightarrow> j < segCount inLen hdr \<Longrightarrow>
   length (segPayload inb inLen hdr j) = segEnd inLen hdr (segStart hdr j) - segStart hdr j"
  using segEnd_bounds [of "segStart hdr j" inLen hdr]
  by (auto simp: segPayload_def segStart_less)

lemma length_segOf:
  assumes "gsoShape inb hdr H T D" and "inLen \<le> length inb" and "0 < unat (gsoSize hdr)"
    and "j < segCount inLen hdr"
  shows "length (segOf inb inLen hdr H T s0 j) = segLen inLen hdr j"
proof -
  have "length H + length T = unat (hdrLen hdr)"
    using assms(1) by (simp add: gsoShape_def)
  then show ?thesis
    by (simp add: segOf_def segLen_def length_segPayload [OF assms(2-4)])
qed

lemma gsoStep_eq:
  assumes shape: "gsoShape inb hdr H T D" and len: "inLen \<le> length inb"
    and g: "0 < unat (gsoSize hdr)" and i: "i < segCount inLen hdr"
    and bufs: "i < length (outBufs st)" "i < length (outSizes st)"
    and room: "segLen inLen hdr i \<le> length (outBufs st ! i)"
  shows "gsoStep inb inLen hdr s0 (segStart hdr i) i st =
    Some (st\<lparr>outBufs := (outBufs st)[i := segOf inb inLen hdr H T s0 i
                         @ drop (segLen inLen hdr i) (outBufs st ! i)],
             outSizes := (outSizes st)[i := segLen inLen hdr i]\<rparr>)"
proof -
  let ?a = "segStart hdr i" and ?e = "segEnd inLen hdr (segStart hdr i)"
  have ae: "?a \<le> ?e" "?e \<le> inLen" using segEnd_bounds [of ?a inLen hdr] segStart_less [OF g] i by auto
  have "gsoSegment inb inLen hdr s0 ?a ?e i (outBufs st ! i) =
    Some (segLen inLen hdr i, segOf inb inLen hdr H T s0 i
            @ drop (segLen inLen hdr i) (outBufs st ! i))"
    using gsoSegment_eq [OF shape, of ?a ?e "segPayload inb inLen hdr i" "outBufs st ! i" inLen s0 i]
      ae len room
    by (simp add: segLen_def segOf_def segPayload_def segStart_def)
  then show ?thesis using bufs by (simp add: gsoStep_def)
qed

lemma gsoLoop_run:
  assumes shape: "gsoShape inb hdr H T D" and len: "inLen \<le> length inb"
    and g: "0 < unat (gsoSize hdr)"
  shows "i \<le> min (segCount inLen hdr) maxSegs \<Longrightarrow>
    maxSegs \<le> length (outBufs st) \<Longrightarrow> maxSegs \<le> length (outSizes st) \<Longrightarrow>
    (\<And>j. i \<le> j \<Longrightarrow> j < min (segCount inLen hdr) maxSegs \<Longrightarrow>
       segLen inLen hdr j \<le> length (outBufs st ! j)) \<Longrightarrow>
    \<exists>st'. gsoLoop inb inLen hdr s0 maxSegs (segStart hdr i) i st =
        Some (if segCount inLen hdr \<le> maxSegs then int (segCount inLen hdr) else -1, st') \<and>
      filled (segOf inb inLen hdr H T s0) i (min (segCount inLen hdr) maxSegs) st st'"
proof (induction "min (segCount inLen hdr) maxSegs - i" arbitrary: i st)
  case 0
  then have i: "i = min (segCount inLen hdr) maxSegs" by simp
  have "gsoLoop inb inLen hdr s0 maxSegs (segStart hdr i) i st =
      Some (if segCount inLen hdr \<le> maxSegs then int (segCount inLen hdr) else -1, st)"
    using i by (subst gsoLoop.simps) (auto simp: segStart_less [OF g])
  then show ?case using i filled_refl [of "min (segCount inLen hdr) maxSegs" i] by blast
next
  case (Suc k)
  then have i: "i < segCount inLen hdr" "i < maxSegs" by simp_all
  let ?seg = "segOf inb inLen hdr H T s0"
  let ?st = "st\<lparr>outBufs := (outBufs st)[i := ?seg i @ drop (segLen inLen hdr i) (outBufs st ! i)],
                outSizes := (outSizes st)[i := segLen inLen hdr i]\<rparr>"
  have step: "gsoStep inb inLen hdr s0 (segStart hdr i) i st = Some ?st"
    using Suc.prems i by (intro gsoStep_eq [OF shape len g]) simp_all
  have "\<exists>st'. gsoLoop inb inLen hdr s0 maxSegs (segStart hdr (Suc i)) (Suc i) ?st =
        Some (if segCount inLen hdr \<le> maxSegs then int (segCount inLen hdr) else -1, st') \<and>
      filled ?seg (Suc i) (min (segCount inLen hdr) maxSegs) ?st st'"
    using Suc.prems Suc.hyps(2) i by (intro Suc.hyps(1)) auto
  then obtain st' where st': "gsoLoop inb inLen hdr s0 maxSegs (segStart hdr (Suc i)) (Suc i) ?st =
        Some (if segCount inLen hdr \<le> maxSegs then int (segCount inLen hdr) else -1, st')"
    and f: "filled ?seg (Suc i) (min (segCount inLen hdr) maxSegs) ?st st'" by blast
  have "gsoLoop inb inLen hdr s0 maxSegs (segStart hdr i) i st =
      gsoLoop inb inLen hdr s0 maxSegs (segStart hdr (Suc i)) (Suc i) ?st"
    using i step by (subst gsoLoop.simps) (simp add: segStart_less [OF g] segStart_Suc)
  moreover have "filled ?seg i (min (segCount inLen hdr) maxSegs) st st'"
    using i Suc.prems(2,3)
    by (intro filled_step [OF f]) (simp_all add: length_segOf [OF shape len g])
  ultimately show ?case using st' by metis
qed

section \<open>gsoSplit\<close>

text \<open>
  What the kernel delivers with \<open>gso_type = TCPV4\<close>: an IPv4 header of at least 20 bytes
  (\<open>csumStart\<close> is its length), a TCP header of at least 20 (its checksum at offset 16),
  both inside the packet, and segments that fit an IPv4 length field.
\<close>

definition gsoOk :: "bytes \<Rightarrow> nat \<Rightarrow> virtio_net_hdr \<Rightarrow> bool" where
  "gsoOk inb inLen hdr \<longleftrightarrow>
     gsoType hdr = VIRTIO_NET_HDR_GSO_TCPV4 \<and> 20 \<le> unat (csumStart hdr) \<and>
     unat (csumStart hdr) + 20 \<le> unat (hdrLen hdr) \<and> csumOffset hdr = 16 \<and>
     unat (hdrLen hdr) \<le> inLen \<and> inLen \<le> length inb \<and> 0 < unat (gsoSize hdr) \<and>
     unat (hdrLen hdr) + unat (gsoSize hdr) < 65536"

text \<open>The caller's promise of \<^verbatim>\<open>gso.h\<close>: every output buffer has room for a segment.\<close>

definition gsoFits :: "virtio_net_hdr \<Rightarrow> gso_out \<Rightarrow> nat \<Rightarrow> bool" where
  "gsoFits hdr st maxSegs \<longleftrightarrow>
     maxSegs \<le> length (outBufs st) \<and> maxSegs \<le> length (outSizes st) \<and>
     list_all (\<lambda>b. unat (hdrLen hdr) + unat (gsoSize hdr) \<le> length b) (outBufs st)"

definition cleanIn :: "bytes \<Rightarrow> virtio_net_hdr \<Rightarrow> bytes" where
  "cleanIn inb hdr =
     (let at = unat (csumStart hdr) + unat (csumOffset hdr)
      in inb[10 := 0, 11 := 0, at := 0, at + 1 := 0])"

definition ipHdr :: "bytes \<Rightarrow> virtio_net_hdr \<Rightarrow> bytes" where
  "ipHdr inb hdr = take (unat (csumStart hdr)) (cleanIn inb hdr)"

definition tcpHdr :: "bytes \<Rightarrow> virtio_net_hdr \<Rightarrow> bytes" where
  "tcpHdr inb hdr =
     take (unat (hdrLen hdr) - unat (csumStart hdr)) (drop (unat (csumStart hdr)) (cleanIn inb hdr))"

definition tcpSeq :: "bytes \<Rightarrow> virtio_net_hdr \<Rightarrow> u32" where
  "tcpSeq inb hdr =
     (let at = unat (csumStart hdr) + 4
      in word32 (inb ! at) (inb ! Suc at) (inb ! Suc (Suc at)) (inb ! Suc (Suc (Suc at))))"

text \<open>The \<open>j\<close>-th segment of a super-packet.\<close>

definition gsoSeg :: "bytes \<Rightarrow> nat \<Rightarrow> virtio_net_hdr \<Rightarrow> nat \<Rightarrow> bytes" where
  "gsoSeg inb inLen hdr j =
     segOf (cleanIn inb hdr) inLen hdr (ipHdr inb hdr) (tcpHdr inb hdr) (tcpSeq inb hdr) j"

text \<open>The \<open>j\<close>-th packet the caller sends: \<open>segSizes[j]\<close> bytes of \<open>segBufs[j]\<close>.\<close>

definition packet :: "gso_out \<Rightarrow> nat \<Rightarrow> bytes" where
  "packet st j = take (outSizes st ! j) (outBufs st ! j)"

lemma length_cleanIn [simp]: "length (cleanIn inb hdr) = length inb"
  by (simp add: cleanIn_def Let_def)

lemma nth_cleanIn:
  "gsoOk inb inLen hdr \<Longrightarrow>
   cleanIn inb hdr ! k =
     (if k \<in> {10, 11, unat (csumStart hdr) + 16, unat (csumStart hdr) + 17} then 0 else inb ! k)"
  by (auto simp: cleanIn_def gsoOk_def Let_def nth_list_update)

lemma gsoShape_clean:
  assumes "gsoOk inb inLen hdr"
  shows "gsoShape (cleanIn inb hdr) hdr (ipHdr inb hdr) (tcpHdr inb hdr)
           (drop (unat (hdrLen hdr)) (cleanIn inb hdr))"
proof -
  let ?c = "unat (csumStart hdr)" and ?h = "unat (hdrLen hdr)"
  have "?c \<le> ?h" "?h \<le> length inb" using assms by (auto simp: gsoOk_def)
  then have "cleanIn inb hdr = ipHdr inb hdr @ tcpHdr inb hdr @ drop ?h (cleanIn inb hdr)"
    unfolding ipHdr_def tcpHdr_def
    by (metis append_take_drop_id drop_drop le_add_diff_inverse2)
  then show ?thesis
    using assms by (auto simp: gsoShape_def gsoOk_def ipHdr_def tcpHdr_def)
qed

lemma gsoSplit_run:
  assumes ok: "gsoOk inb inLen hdr" and fits: "gsoFits hdr st maxSegs"
  shows "\<exists>st'. gsoSplit inb inLen hdr st maxSegs =
      Some (if segCount inLen hdr \<le> maxSegs then int (segCount inLen hdr) else -1,
            cleanIn inb hdr, st') \<and>
    filled (gsoSeg inb inLen hdr) 0 (min (segCount inLen hdr) maxSegs) st st'"
proof -
  let ?c = "unat (csumStart hdr)" and ?z = "cleanIn inb hdr"
  from ok have b: "20 \<le> ?c" "?c + 20 \<le> length inb" "unat (csumOffset hdr) = 16"
    "0 < unat (gsoSize hdr)" "inLen \<le> length ?z" "gsoType hdr = VIRTIO_NET_HDR_GSO_TCPV4"
    by (auto simp: gsoOk_def)
  have seq: "getBE32 ?z (?c + 4) = Some (tcpSeq inb hdr)"
    using b ok by (simp add: getBE32_Some tcpSeq_def Let_def nth_cleanIn)
  have room: "segLen inLen hdr j \<le> length (outBufs st ! j)"
    if "j < min (segCount inLen hdr) maxSegs" for j
  proof -
    have "segLen inLen hdr j \<le> unat (hdrLen hdr) + unat (gsoSize hdr)"
      using that b by (intro segLen_le) simp_all
    also have "\<dots> \<le> length (outBufs st ! j)"
      using that fits by (simp add: gsoFits_def list_all_length)
    finally show ?thesis .
  qed
  have "\<exists>st'. gsoLoop ?z inLen hdr (tcpSeq inb hdr) maxSegs (segStart hdr 0) 0 st =
        Some (if segCount inLen hdr \<le> maxSegs then int (segCount inLen hdr) else -1, st') \<and>
      filled (gsoSeg inb inLen hdr) 0 (min (segCount inLen hdr) maxSegs) st st'"
    unfolding gsoSeg_def [abs_def]
    using fits room b by (intro gsoLoop_run [OF gsoShape_clean [OF ok]]) (auto simp: gsoFits_def)
  then obtain st' where
    "gsoLoop ?z inLen hdr (tcpSeq inb hdr) maxSegs (unat (hdrLen hdr)) 0 st =
        Some (if segCount inLen hdr \<le> maxSegs then int (segCount inLen hdr) else -1, st')"
    and "filled (gsoSeg inb inLen hdr) 0 (min (segCount inLen hdr) maxSegs) st st'"
    by (auto simp: segStart_0)
  moreover have "wr8 inb 10 0 = Some (inb[10 := 0])" "wr8 (inb[10 := 0]) 11 0 = Some (inb[10 := 0, 11 := 0])"
    using b by (simp_all add: wr8_def)
  moreover have "wr8 (inb[10 := 0, 11 := 0]) (?c + 16) 0 = Some (inb[10 := 0, 11 := 0, ?c + 16 := 0])"
    "wr8 (inb[10 := 0, 11 := 0, ?c + 16 := 0]) (?c + 16 + 1) 0 = Some ?z"
    using b by (simp_all add: wr8_def cleanIn_def Let_def)
  ultimately show ?thesis
    using b seq by (simp add: gsoSplit_def Let_def)
qed

lemma gsoSplit_packet:
  assumes ok: "gsoOk inb inLen hdr" and fits: "gsoFits hdr st maxSegs"
    and run: "gsoSplit inb inLen hdr st maxSegs = Some (r, inb', st')" and j: "j < nat r"
  shows "j < segCount inLen hdr" and "segCount inLen hdr = nat r"
    and "packet st' j = gsoSeg inb inLen hdr j" and "outSizes st' ! j = segLen inLen hdr j"
proof -
  from gsoSplit_run [OF ok fits] run
  have r: "r = (if segCount inLen hdr \<le> maxSegs then int (segCount inLen hdr) else -1)"
    and f: "filled (gsoSeg inb inLen hdr) 0 (min (segCount inLen hdr) maxSegs) st st'" by auto
  from r j show n: "segCount inLen hdr = nat r" by (auto split: if_splits)
  with j show c: "j < segCount inLen hdr" by simp
  from r j have "segCount inLen hdr \<le> maxSegs" by (auto split: if_splits)
  with c have "j < min (segCount inLen hdr) maxSegs" by simp
  with f have "outSizes st' ! j = length (gsoSeg inb inLen hdr j) \<and>
      outBufs st' ! j = gsoSeg inb inLen hdr j
        @ drop (length (gsoSeg inb inLen hdr j)) (outBufs st ! j)"
    by (simp add: filled_def)
  moreover have "length (gsoSeg inb inLen hdr j) = segLen inLen hdr j"
    using ok c unfolding gsoSeg_def
    by (intro length_segOf [OF gsoShape_clean [OF ok]]) (auto simp: gsoOk_def)
  ultimately show "packet st' j = gsoSeg inb inLen hdr j"
    and "outSizes st' ! j = segLen inLen hdr j"
    by (simp_all add: packet_def)
qed

section \<open>The headers of a segment\<close>

lemma ipSeg_nth:
  "20 \<le> length H \<Longrightarrow> k \<notin> {2, 3, 4, 5, 10, 11} \<Longrightarrow> ipSeg H n j ! k = H ! k"
  by (simp add: ipSeg_def Let_def nth_put16)

lemma ipSeg_len: "20 \<le> length H \<Longrightarrow> getBE16 (ipSeg H n j @ R) 2 = Some (of_nat n)"
  by (simp add: getBE16_Some nth_append ipSeg_def Let_def nth_put16)

lemma ipSeg_id:
  "20 \<le> length H \<Longrightarrow>
   getBE16 (ipSeg H n j @ R) 4 = Some (word16 (H ! 4) (H ! 5) + of_nat j)"
  by (simp add: getBE16_Some nth_append ipSeg_def Let_def nth_put16)

lemma ipSeg_valid:
  assumes "20 \<le> length H" and "length H < 2 ^ 64" and "H ! 10 = 0" and "H ! 11 = 0"
  shows "oc16 (be16_sum (ipSeg H n j)) = 65535"
proof -
  let ?h = "put16 (put16 H 4 (word16 (H ! 4) (H ! 5) + of_nat j)) 2 (of_nat n)"
  have "oc16 (be16_sum (?h[10 := hiByte (NOT (checksum ?h 0)),
            Suc 10 := loByte (NOT (checksum ?h 0))]) + unat (0 :: u64)) = 65535"
    using assms by (intro cs.stored_valid) (simp_all add: nth_put16)
  then show ?thesis by (simp add: ipSeg_def Let_def put16_def)
qed

lemma tcpHead_nth:
  "20 \<le> length T \<Longrightarrow> k \<notin> {4, 5, 6, 7, 13} \<Longrightarrow> tcpHead T s m ! k = T ! k"
  by (simp add: tcpHead_def Let_def nth_put32)

lemma tcpHead_flags:
  "20 \<le> length T \<Longrightarrow>
   tcpHead T s m ! 13 = (if m then T ! 13 AND NOT (TCP_FLAG_FIN OR TCP_FLAG_PSH) else T ! 13)"
  by (simp add: tcpHead_def Let_def nth_put32)

lemma tcpHead_seq:
  "20 \<le> length T \<Longrightarrow> word32 (tcpHead T s m ! 4) (tcpHead T s m ! 5) (tcpHead T s m ! 6)
     (tcpHead T s m ! 7) = s"
  by (simp add: tcpHead_def Let_def nth_put32)

lemma tcpSeg_nth:
  "20 \<le> length t \<Longrightarrow> k < length t \<Longrightarrow> k \<notin> {16, 17} \<Longrightarrow> tcpSeg src dst t p ! k = t ! k"
  by (simp add: tcpSeg_def nth_append nth_put16)

lemma tcpSeg_valid:
  assumes "20 \<le> length t" and "length t + length p < 65536" and "t ! 16 = 0" and "t ! 17 = 0"
    and "length src = 4" and "length dst = 4"
    and "l = (of_nat (length t + length p) :: u16)"
  shows "oc16 (be16_sum (tcpSeg src dst t p)
           + be16_sum (src @ dst @ [0, 6, hiByte l, loByte l])) = 65535"
proof -
  let ?ps = "pseudoHeaderChecksumNoFold IPPROTO_TCP_V src dst l"
  let ?c = "NOT (checksum (t @ p) ?ps)"
  have "oc16 (be16_sum ((t @ p)[16 := hiByte ?c, Suc 16 := loByte ?c]) + unat ?ps) = 65535"
    using assms(1-4) by (intro cs.stored_valid) (simp_all add: nth_append)
  moreover have "(t @ p)[16 := hiByte ?c, Suc 16 := loByte ?c] = tcpSeg src dst t p"
    using assms(1,7) by (simp add: tcpSeg_def put16_def list_update_append1)
  ultimately have "oc16 (be16_sum (tcpSeg src dst t p) + unat ?ps) = 65535" by simp
  moreover have "ocEq (unat ?ps) (be16_sum (src @ dst @ [0, 6, hiByte l, loByte l]))"
    using pseudoHeader_ocEq [of src dst IPPROTO_TCP_V l] assms(5,6)
    by (simp add: IPPROTO_TCP_V_def)
  ultimately show ?thesis
    using oc16_ocEq [OF ocEq_add [OF ocEq_refl, of "unat ?ps" _ "be16_sum (tcpSeg src dst t p)"]]
    by metis
qed

text \<open>The parts of the \<open>j\<close>-th segment.\<close>

lemma gsoSeg_parts:
  assumes ok: "gsoOk inb inLen hdr" and j: "j < segCount inLen hdr"
  obtains t p where
    "gsoSeg inb inLen hdr j = ipSeg (ipHdr inb hdr) (segLen inLen hdr j) j
       @ tcpSeg (take 4 (drop 12 (ipHdr inb hdr))) (take 4 (drop 16 (ipHdr inb hdr))) t p"
    and "t = tcpHead (tcpHdr inb hdr) (tcpSeq inb hdr + ucast (gsoSize hdr) * of_nat j)
               (segEnd inLen hdr (segStart hdr j) \<noteq> inLen)"
    and "p = segPayload inb inLen hdr j"
    and "length (ipHdr inb hdr) = unat (csumStart hdr)"
    and "length (tcpHdr inb hdr) = unat (hdrLen hdr) - unat (csumStart hdr)"
    and "length t = unat (hdrLen hdr) - unat (csumStart hdr)"
    and "length p = segLen inLen hdr j - unat (hdrLen hdr)"
    and "unat (hdrLen hdr) \<le> segLen inLen hdr j" and "segLen inLen hdr j < 65536"
    and "20 \<le> unat (csumStart hdr)" and "unat (csumStart hdr) + 20 \<le> unat (hdrLen hdr)"
proof -
  let ?c = "unat (csumStart hdr)" and ?h = "unat (hdrLen hdr)"
  from ok have b: "?c + 20 \<le> ?h" "20 \<le> ?c" "?h \<le> length inb" "inLen \<le> length inb"
    "0 < unat (gsoSize hdr)" "unat (csumOffset hdr) = 16"
    "?h + unat (gsoSize hdr) < 65536" by (auto simp: gsoOk_def)
  have pay: "segPayload (cleanIn inb hdr) inLen hdr j = segPayload inb inLen hdr j"
  proof -
    have "drop (segStart hdr j) (cleanIn inb hdr) = drop (segStart hdr j) inb"
    proof (rule nth_equalityI)
      fix k assume "k < length (drop (segStart hdr j) (cleanIn inb hdr))"
      moreover have "segStart hdr j + k \<notin> {10, 11, ?c + 16, ?c + 17}"
        using b by (simp add: segStart_def)
      ultimately show "drop (segStart hdr j) (cleanIn inb hdr) ! k = drop (segStart hdr j) inb ! k"
        using nth_cleanIn [OF ok, of "segStart hdr j + k"] by simp
    qed simp
    then show ?thesis by (simp add: segPayload_def)
  qed
  have "?h \<le> segLen inLen hdr j" by (simp add: segLen_def)
  moreover have "segLen inLen hdr j < 65536"
    using segLen_le [OF b(5) j] b by linarith
  moreover have "length (segPayload inb inLen hdr j) = segLen inLen hdr j - ?h"
    using length_segPayload [OF b(4,5) j] by (simp add: segLen_def)
  moreover have "length (ipHdr inb hdr) = ?c" "length (tcpHdr inb hdr) = ?h - ?c"
    using b by (simp_all add: ipHdr_def tcpHdr_def)
  ultimately show ?thesis
    using b pay by (intro that [OF _ refl refl]) (simp_all add: gsoSeg_def segOf_def)
qed

lemma ipHdr_nth:
  "gsoOk inb inLen hdr \<Longrightarrow> k < unat (csumStart hdr) \<Longrightarrow>
   ipHdr inb hdr ! k = (if k \<in> {10, 11} then 0 else inb ! k)"
  by (auto simp: ipHdr_def nth_cleanIn)

lemma tcpHdr_nth:
  assumes "gsoOk inb inLen hdr" and "k < unat (hdrLen hdr) - unat (csumStart hdr)"
  shows "tcpHdr inb hdr ! k = (if k \<in> {16, 17} then 0 else inb ! (unat (csumStart hdr) + k))"
proof -
  have "20 \<le> unat (csumStart hdr)" "unat (hdrLen hdr) \<le> length inb"
    using assms(1) by (auto simp: gsoOk_def)
  then show ?thesis
    using assms(2) nth_cleanIn [OF assms(1), of "unat (csumStart hdr) + k"]
    by (auto simp: tcpHdr_def)
qed

section \<open>Properties of gsoSplit\<close>

text \<open>The payload of packet \<open>j\<close>: what follows the headers.\<close>

definition payloadOf :: "virtio_net_hdr \<Rightarrow> gso_out \<Rightarrow> nat \<Rightarrow> bytes" where
  "payloadOf hdr st j = drop (unat (hdrLen hdr)) (packet st j)"

lemma payloadOf_eq:
  assumes ok: "gsoOk inb inLen hdr" and fits: "gsoFits hdr st maxSegs"
    and run: "gsoSplit inb inLen hdr st maxSegs = Some (r, inb', st')" and j: "j < nat r"
  shows "payloadOf hdr st' j = segPayload inb inLen hdr j"
proof -
  note pk = gsoSplit_packet [OF ok fits run j]
  show ?thesis
    by (rule gsoSeg_parts [OF ok pk(1)]) (simp add: payloadOf_def pk(3) tcpSeg_def)
qed

lemma concat_segPayload:
  assumes g: "0 < unat (gsoSize hdr)" and len: "inLen \<le> length inb"
    and n: "n \<le> segCount inLen hdr"
  shows "concat (map (segPayload inb inLen hdr) [0..<n]) =
    take (min (n * unat (gsoSize hdr)) (inLen - unat (hdrLen hdr))) (drop (unat (hdrLen hdr)) inb)"
  using n
proof (induction n)
  case (Suc n)
  let ?g = "unat (gsoSize hdr)" and ?h = "unat (hdrLen hdr)"
  let ?d = "segEnd inLen hdr (segStart hdr n) - segStart hdr n"
  have lt: "?h + n * ?g < inLen"
    using segStart_less [OF g, of n inLen] Suc.prems by (simp add: segStart_def)
  then have "min (n * ?g) (inLen - ?h) = n * ?g" and "n * ?g + ?d = min (Suc n * ?g) (inLen - ?h)"
    by (auto simp: segEnd_def segStart_def)
  moreover have "segPayload inb inLen hdr n = take ?d (drop (n * ?g) (drop ?h inb))"
    by (simp add: segPayload_def segStart_def add.commute)
  ultimately show ?case
    using Suc take_add [of "n * ?g" ?d "drop ?h inb"] by simp
qed simp

text \<open>
  Property C15. On every well-formed TCP/IPv4 super-packet, with output buffers that hold a
  full segment, \<open>gsoSplit\<close> stays inside its buffers, terminates, and returns the number of
  segments the payload needs, rounded up, or -1 when that is more than \<open>maxSegs\<close>; the
  buffers hold the specified segments and those beyond are untouched.
\<close>

theorem gsoSplit_returns:
  assumes "gsoOk inb inLen hdr" and "gsoFits hdr st maxSegs"
  shows "\<exists>st'. gsoSplit inb inLen hdr st maxSegs =
      Some (if segCount inLen hdr \<le> maxSegs then int (segCount inLen hdr) else -1,
            cleanIn inb hdr, st') \<and>
    filled (gsoSeg inb inLen hdr) 0 (min (segCount inLen hdr) maxSegs) st st'"
  using assms by (rule gsoSplit_run)

text \<open>
  Property C16. No payload byte is lost, repeated or reordered: the payloads of the
  segments, in order, are the payload of the super-packet.
\<close>

theorem gsoSplit_payload:
  assumes ok: "gsoOk inb inLen hdr" and fits: "gsoFits hdr st maxSegs"
    and run: "gsoSplit inb inLen hdr st maxSegs = Some (r, inb', st')" and r: "0 \<le> r"
  shows "concat (map (payloadOf hdr st') [0..<nat r]) = drop (unat (hdrLen hdr)) (take inLen inb)"
proof -
  from ok have g: "0 < unat (gsoSize hdr)" and len: "inLen \<le> length inb"
    and h: "unat (hdrLen hdr) \<le> inLen" by (auto simp: gsoOk_def)
  have n: "segCount inLen hdr = nat r"
    using gsoSplit_run [OF ok fits] run r by (auto split: if_splits)
  have eq: "map (payloadOf hdr st') [0..<nat r] = map (segPayload inb inLen hdr) [0..<nat r]"
    using payloadOf_eq [OF ok fits run] by simp
  have "inLen - unat (hdrLen hdr) \<le> nat r * unat (gsoSize hdr)"
    using segStart_less [OF g, of "nat r" inLen] n by (simp add: segStart_def)
  then show ?thesis
    unfolding eq using concat_segPayload [OF g len, of "nat r"] n
    by (simp add: min_absorb2 drop_take)
qed

text \<open>The header fields of a packet the loop has produced.\<close>

lemma packet_parts:
  assumes ok: "gsoOk inb inLen hdr" and fits: "gsoFits hdr st maxSegs"
    and run: "gsoSplit inb inLen hdr st maxSegs = Some (r, inb', st')" and j: "j < nat r"
  obtains H T t p where
    "packet st' j = ipSeg H (length (packet st' j)) j
       @ tcpSeg (take 4 (drop 12 H)) (take 4 (drop 16 H)) t p"
    and "H = ipHdr inb hdr" and "T = tcpHdr inb hdr"
    and "t = tcpHead T (tcpSeq inb hdr + ucast (gsoSize hdr) * of_nat j)
               (segEnd inLen hdr (segStart hdr j) \<noteq> inLen)"
    and "p = segPayload inb inLen hdr j"
    and "length H = unat (csumStart hdr)" and "length H + length T = unat (hdrLen hdr)"
    and "length t = length T" and "20 \<le> length H" and "20 \<le> length T"
    and "length (packet st' j) = length H + length T + length p"
    and "length (packet st' j) < 65536"
proof -
  note pk = gsoSplit_packet [OF ok fits run j]
  show ?thesis
  proof (rule gsoSeg_parts [OF ok pk(1)], goal_cases)
    case (1 t p)
    then have "length (packet st' j) = segLen inLen hdr j" by (simp add: pk(3))
    with 1 show ?case by (intro that [of "ipHdr inb hdr" t p "tcpHdr inb hdr"]) (simp_all add: pk(3))
  qed
qed

text \<open>
  Property C17. The IP header of every segment: its length field is the segment's length
  (which fits in 16 bits), its identification is the super-packet's plus the segment's
  index, and its header checksum verifies.
\<close>

theorem gsoSplit_ipHeader:
  assumes ok: "gsoOk inb inLen hdr" and fits: "gsoFits hdr st maxSegs"
    and run: "gsoSplit inb inLen hdr st maxSegs = Some (r, inb', st')" and j: "j < nat r"
    and id: "getBE16 inb 4 = Some ident"
  shows "length (packet st' j) < 65536 \<and>
    getBE16 (packet st' j) 2 = Some (of_nat (length (packet st' j))) \<and>
    getBE16 (packet st' j) 4 = Some (ident + of_nat j) \<and>
    oc16 (be16_sum (take (unat (csumStart hdr)) (packet st' j))) = 65535"
proof (rule packet_parts [OF ok fits run j], goal_cases)
  case (1 H T t p)
  have seg: "packet st' j = ipSeg H (length (packet st' j)) j
       @ tcpSeg (take 4 (drop 12 H)) (take 4 (drop 16 H)) t p" by (rule 1(1))
  have f: "getBE16 (packet st' j) 2 = Some (of_nat (length (packet st' j)))"
    "getBE16 (packet st' j) 4 = Some (word16 (H ! 4) (H ! 5) + of_nat j)"
    "take (length H) (packet st' j) = ipSeg H (length (packet st' j)) j"
    using 1(9) by (subst seg, simp add: ipSeg_len ipSeg_id)+
  have "ident = word16 (H ! 4) (H ! 5)"
    using id 1(2,6,9) ok by (auto simp: getBE16_Some gsoOk_def ipHdr_nth [OF ok])
  moreover have "oc16 (be16_sum (ipSeg H (length (packet st' j)) j)) = 65535"
    using 1(2,6,9,11,12) by (intro ipSeg_valid) (auto simp: ipHdr_nth [OF ok])
  ultimately show ?case using f 1(6,12) by simp
qed

text \<open>
  Property C18. The TCP header of every segment: the sequence number advances by exactly
  the payload bytes of the segments before it (modulo 2^32), and FIN and PSH are cleared on
  every segment but the last, all other flags being those of the super-packet.
\<close>

theorem gsoSplit_tcpHeader:
  assumes ok: "gsoOk inb inLen hdr" and fits: "gsoFits hdr st maxSegs"
    and run: "gsoSplit inb inLen hdr st maxSegs = Some (r, inb', st')" and j: "j < nat r"
    and seq: "getBE32 inb (unat (csumStart hdr) + 4) = Some s0"
  shows "getBE32 (packet st' j) (unat (csumStart hdr) + 4) =
      Some (s0 + of_nat (length (concat (map (payloadOf hdr st') [0..<j])))) \<and>
    packet st' j ! (unat (csumStart hdr) + 13) =
      (if Suc j = nat r then inb ! (unat (csumStart hdr) + 13)
       else inb ! (unat (csumStart hdr) + 13) AND NOT (TCP_FLAG_FIN OR TCP_FLAG_PSH))"
proof (rule packet_parts [OF ok fits run j], goal_cases)
  case (1 H T t p)
  let ?c = "unat (csumStart hdr)" and ?g = "unat (gsoSize hdr)"
  have seg: "packet st' j = ipSeg H (length (packet st' j)) j
       @ tcpSeg (take 4 (drop 12 H)) (take 4 (drop 16 H)) t p" by (rule 1(1))
  have g: "0 < ?g" and len: "inLen \<le> length inb" using ok by (auto simp: gsoOk_def)
  note n = gsoSplit_packet(1,2) [OF ok fits run j]
  have nth: "packet st' j ! (?c + k) = t ! k" if "k < 16" for k
    using that 1(6,8,10) by (subst seg) (simp add: nth_append tcpSeg_nth)
  have s0: "s0 = tcpSeq inb hdr"
    using seq 1(2,3,6,7,10) ok by (simp add: getBE32_Some gsoOk_def tcpSeq_def Let_def)
  have "concat (map (payloadOf hdr st') [0..<j]) = concat (map (segPayload inb inLen hdr) [0..<j])"
    using payloadOf_eq [OF ok fits run] j by (intro arg_cong [of _ _ concat]) simp
  also have "length \<dots> = j * ?g"
    using concat_segPayload [OF g len, of j] n segStart_less [OF g, of j inLen] len
    by (simp add: segStart_def min_absorb1 min_absorb2)
  finally have off: "length (concat (map (payloadOf hdr st') [0..<j])) = j * ?g" .
  have "getBE32 (packet st' j) (?c + 4) = Some (tcpSeq inb hdr + ucast (gsoSize hdr) * of_nat j)"
    using 1(6,10,11) nth [of 4] nth [of 5, unfolded add.commute [of ?c]]
      nth [of 6, unfolded add.commute [of ?c]] nth [of 7, unfolded add.commute [of ?c]]
      tcpHead_seq [OF 1(10), of "tcpSeq inb hdr + ucast (gsoSize hdr) * of_nat j"]
    by (simp add: getBE32_Some 1(4))
  moreover have "(segEnd inLen hdr (segStart hdr j) \<noteq> inLen) \<longleftrightarrow> Suc j \<noteq> nat r"
    using segStart_less [OF g, of "Suc j" inLen] segStart_less [OF g, of j inLen] n
    by (auto simp: segEnd_def segStart_Suc)
  moreover have "T ! 13 = inb ! (?c + 13)"
    using 1(3,6,7,10) by (simp add: tcpHdr_nth [OF ok])
  ultimately show ?case
    using nth [of 13] tcpHead_flags [OF 1(10)] s0 by (simp add: 1(4) off mult.commute)
qed

text \<open>
  Property C19. The TCP checksum of every segment verifies: the one's complement sum of its
  TCP header and payload with the pseudo-header made of its own IP addresses, the protocol
  6 and its TCP length is all ones.
\<close>

theorem gsoSplit_tcpChecksum:
  assumes ok: "gsoOk inb inLen hdr" and fits: "gsoFits hdr st maxSegs"
    and run: "gsoSplit inb inLen hdr st maxSegs = Some (r, inb', st')" and j: "j < nat r"
    and l: "l = of_nat (length (packet st' j) - unat (csumStart hdr))"
  shows "oc16 (be16_sum (drop (unat (csumStart hdr)) (packet st' j))
      + be16_sum (take 4 (drop 12 (packet st' j)) @ take 4 (drop 16 (packet st' j))
                  @ [0, 6, hiByte l, loByte l])) = 65535"
proof (rule packet_parts [OF ok fits run j], goal_cases)
  case (1 H T t p)
  have seg: "packet st' j = ipSeg H (length (packet st' j)) j
       @ tcpSeg (take 4 (drop 12 H)) (take 4 (drop 16 H)) t p" by (rule 1(1))
  have addr: "take 4 (drop a (packet st' j)) = take 4 (drop a H)" if "a = 12 \<or> a = 16" for a
  proof (rule nth_equalityI)
    show "length (take 4 (drop a (packet st' j))) = length (take 4 (drop a H))"
      using that 1(9,11) by auto
    fix k assume "k < length (take 4 (drop a (packet st' j)))"
    then have k: "k < 4" by simp
    then have "packet st' j ! (a + k) = ipSeg H (length (packet st' j)) j ! (a + k)"
      using that 1(9) by (subst seg) (auto simp: nth_append)
    also have "\<dots> = H ! (a + k)" using that 1(9) k by (intro ipSeg_nth) auto
    finally show "take 4 (drop a (packet st' j)) ! k = take 4 (drop a H) ! k"
      using that k 1(9,11) by auto
  qed
  have tail: "drop (unat (csumStart hdr)) (packet st' j)
      = tcpSeg (take 4 (drop 12 H)) (take 4 (drop 16 H)) t p"
    using 1(6) by (subst seg) simp
  have "t ! 16 = 0" "t ! 17 = 0"
    using 1(3,4,6,7,10) by (simp_all add: tcpHead_nth tcpHdr_nth [OF ok])
  moreover have "l = of_nat (length t + length p)"
    unfolding l using 1(6,8,11) by (intro arg_cong [of _ _ of_nat]) simp
  ultimately show ?case
    unfolding tail addr [OF disjI1 [OF refl]] addr [OF disjI2 [OF refl]]
    using 1(6-12) by (intro tcpSeg_valid) simp_all
qed

text \<open>
  Property C31. Nothing else in the headers changes: outside the length, identification and
  checksum of the IP header and the sequence number, flags and checksum of the TCP header,
  every header byte of a segment is the super-packet's.
\<close>

theorem gsoSplit_otherBytes:
  assumes ok: "gsoOk inb inLen hdr" and fits: "gsoFits hdr st maxSegs"
    and run: "gsoSplit inb inLen hdr st maxSegs = Some (r, inb', st')" and j: "j < nat r"
    and k: "k < unat (hdrLen hdr)" "k \<notin> {2, 3, 4, 5, 10, 11}"
    and k': "unat (csumStart hdr) \<le> k \<Longrightarrow> k - unat (csumStart hdr) \<notin> {4, 5, 6, 7, 13, 16, 17}"
  shows "packet st' j ! k = inb ! k"
proof (rule packet_parts [OF ok fits run j], goal_cases)
  case (1 H T t p)
  let ?c = "unat (csumStart hdr)"
  have seg: "packet st' j = ipSeg H (length (packet st' j)) j
       @ tcpSeg (take 4 (drop 12 H)) (take 4 (drop 16 H)) t p" by (rule 1(1))
  show ?case
  proof (cases "k < ?c")
    case True
    then have "packet st' j ! k = H ! k"
      using 1(6,9) k(2) by (subst seg) (simp add: nth_append ipSeg_nth)
    with True k show ?thesis by (simp add: 1(2) ipHdr_nth [OF ok])
  next
    case False
    define m where "m = k - ?c"
    with False have m: "k = ?c + m" by simp
    have m': "m < length T" "m \<notin> {4, 5, 6, 7, 13, 16, 17}"
      using k(1) k' False 1(6,7) by (simp_all add: m_def)
    then have "packet st' j ! k = t ! m"
      using 1(6,8,10) by (subst seg) (simp add: m nth_append tcpSeg_nth)
    also have "\<dots> = T ! m" using m' 1(4,10) by (simp add: tcpHead_nth)
    also have "\<dots> = inb ! k" using m m' 1(3,6,7) by (simp add: tcpHdr_nth [OF ok])
    finally show ?thesis .
  qed
qed

section \<open>Error paths of gsoSplit\<close>

text \<open>
  With \<open>gsoSize = 0\<close> the loop makes no progress; the segment counter alone stops it.
\<close>

lemma gsoLoop_noProgress:
  assumes shape: "gsoShape inb hdr H T D" and g: "unat (gsoSize hdr) = 0"
    and a: "unat (hdrLen hdr) \<le> a" "a < inLen" "a \<le> length inb"
  shows "i \<le> maxSegs \<Longrightarrow> maxSegs \<le> length (outBufs st) \<Longrightarrow> maxSegs \<le> length (outSizes st) \<Longrightarrow>
    list_all (\<lambda>b. unat (hdrLen hdr) \<le> length b) (outBufs st) \<Longrightarrow>
    \<exists>st'. gsoLoop inb inLen hdr s0 maxSegs a i st = Some (-1, st')"
proof (induction "maxSegs - i" arbitrary: i st)
  case 0
  then show ?case using a by (subst gsoLoop.simps) simp
next
  case (Suc k)
  then have i: "i < maxSegs" by simp
  then have room: "unat (hdrLen hdr) \<le> length (outBufs st ! i)"
    using Suc.prems by (simp add: list_all_length)
  have e: "segEnd inLen hdr a = a" using a g by (simp add: segEnd_def)
  let ?x = "ipSeg H (unat (hdrLen hdr)) i
      @ tcpSeg (take 4 (drop 12 H)) (take 4 (drop 16 H))
          (tcpHead T (s0 + ucast (gsoSize hdr) * of_nat i) (a \<noteq> inLen)) []
      @ drop (unat (hdrLen hdr)) (outBufs st ! i)"
  let ?st = "st\<lparr>outBufs := (outBufs st)[i := ?x], outSizes := (outSizes st)[i := unat (hdrLen hdr)]\<rparr>"
  have "length ?x = length (outBufs st ! i)" using shape room by (auto simp: gsoShape_def)
  then have "list_all (\<lambda>b. unat (hdrLen hdr) \<le> length b) (outBufs ?st)"
    using Suc.prems(4) room by (simp del: append.assoc add: list_all_update)
  moreover have "k = maxSegs - Suc i" using Suc.hyps(2) by simp
  ultimately obtain st' where "gsoLoop inb inLen hdr s0 maxSegs a (Suc i) ?st = Some (-1, st')"
    using Suc.hyps(1) [of "Suc i" ?st] Suc.prems(2,3) i
    by (auto simp del: append.assoc)
  moreover have "gsoStep inb inLen hdr s0 a i st = Some ?st"
    using gsoSegment_eq [OF shape a(1) _ _ refl, of a "outBufs st ! i" inLen s0 i] a(3) room i Suc.prems(2,3)
    by (simp add: gsoStep_def e)
  ultimately show ?case using a(2) i g by (subst gsoLoop.simps) simp
qed

text \<open>A segment is never longer than the buffer it was built in.\<close>

lemma putBE16_length: "putBE16 p at v = Some p' \<Longrightarrow> length p' = length p"
  by (auto simp: putBE16_def bind_Some_iff dest!: wr8_length)

lemma putBE32_length: "putBE32 p at v = Some p' \<Longrightarrow> length p' = length p"
  by (auto simp: putBE32_def bind_Some_iff dest!: wr8_length)

lemma rdBlk_length: "rdBlk b off n = Some xs \<Longrightarrow> length xs = n"
  by (auto simp: rdBlk_def split: if_splits)

lemma wrBlk_room:
  "wrBlk b off xs = Some b' \<Longrightarrow> length b' = length b \<and> off + length xs \<le> length b"
  by (auto simp: wrBlk_def split: if_splits)

lemma if_put_length:
  "(if P then do { x \<leftarrow> getBE16 b k; putBE16 b k (f x) } else Some b) = Some b' \<Longrightarrow>
   length b' = length b"
  by (auto simp: bind_Some_iff dest: putBE16_length split: if_splits)

lemma if_wr_length:
  "(if P then do { x \<leftarrow> rd8 b k; wr8 b k (f x) } else Some b) = Some b' \<Longrightarrow>
   length b' = length b"
  by (auto simp: bind_Some_iff dest: wr8_length split: if_splits)

lemma gsoSegment_room:
  assumes "gsoSegment inb inLen hdr s0 a e i out = Some (n, out')"
  shows "n \<le> length out \<and> n = unat (hdrLen hdr) + (e - a)"
  using assms unfolding gsoSegment_def Let_def
  by (clarsimp simp only: bind_Some_iff option.inject prod.inject)
    (drule putBE16_length putBE32_length if_put_length if_wr_length wrBlk_room rdBlk_length
      | elim conjE | linarith)+

text \<open>
  A zero \<open>gsoSize\<close> does not hang the reader: with payload to cut the loop
  stops at \<open>maxSegs\<close> and returns -1.
\<close>

lemma gsoSplit_zeroSize:
  assumes "gsoOk inb inLen (hdr\<lparr>gsoSize := 1\<rparr>)" and "gsoSize hdr = 0"
    and "unat (hdrLen hdr) < inLen" and "gsoFits hdr st maxSegs"
  shows "map_option fst (gsoSplit inb inLen hdr st maxSegs) = Some (-1)"
proof -
  let ?c = "unat (csumStart hdr)" and ?z = "cleanIn inb hdr" and ?h1 = "hdr\<lparr>gsoSize := 1\<rparr>"
  from assms(1) have b: "20 \<le> ?c" "?c + 20 \<le> unat (hdrLen hdr)" "inLen \<le> length inb"
    "unat (csumOffset hdr) = 16" "gsoType hdr = VIRTIO_NET_HDR_GSO_TCPV4" by (auto simp: gsoOk_def)
  have z: "cleanIn inb ?h1 = ?z" "ipHdr inb ?h1 = ipHdr inb hdr" "tcpHdr inb ?h1 = tcpHdr inb hdr"
    by (simp_all add: cleanIn_def ipHdr_def tcpHdr_def)
  have shape: "gsoShape ?z hdr (ipHdr inb hdr) (tcpHdr inb hdr) (drop (unat (hdrLen hdr)) ?z)"
    using gsoShape_clean [OF assms(1)] by (simp add: z gsoShape_def)
  obtain s0 where seq: "getBE32 ?z (?c + 4) = Some s0" using b assms(3) by (simp add: getBE32_Some)
  obtain st' where "gsoLoop ?z inLen hdr s0 maxSegs (unat (hdrLen hdr)) 0 st = Some (-1, st')"
    using gsoLoop_noProgress [OF shape, of "unat (hdrLen hdr)" inLen 0 maxSegs st s0] assms(2-4) b
    by (auto simp: gsoFits_def)
  moreover have "wr8 inb 10 0 = Some (inb[10 := 0])" "wr8 (inb[10 := 0]) 11 0 = Some (inb[10 := 0, 11 := 0])"
    "wr8 (inb[10 := 0, 11 := 0]) (?c + 16) 0 = Some (inb[10 := 0, 11 := 0, ?c + 16 := 0])"
    "wr8 (inb[10 := 0, 11 := 0, ?c + 16 := 0]) (Suc (?c + 16)) 0 = Some ?z"
    using b assms(3) by (simp_all add: wr8_def cleanIn_def Let_def)
  ultimately show ?thesis using b seq by (simp add: gsoSplit_def Let_def)
qed

text \<open>
  Property C39. The buffers must really have that room: when the first segment is longer
  than the first output buffer, \<open>gsoSplit\<close> writes outside it (\<open>None\<close>); nothing in the
  routine checks the segment length against the buffer.
\<close>

theorem gsoSplit_overflow:
  assumes "gsoType hdr = VIRTIO_NET_HDR_GSO_TCPV4" and "unat (hdrLen hdr) < inLen" and "0 < maxSegs"
    and "length (outBufs st ! 0) < unat (hdrLen hdr) + min (unat (gsoSize hdr)) (inLen - unat (hdrLen hdr))"
  shows "gsoSplit inb inLen hdr st maxSegs = None"
proof (rule ccontr)
  assume "\<not> ?thesis"
  then obtain x where "gsoSplit inb inLen hdr st maxSegs = Some x" by blast
  then obtain z s0 y where
    "gsoLoop z inLen hdr s0 maxSegs (unat (hdrLen hdr)) 0 st = Some y"
    using assms(1) by (auto simp: gsoSplit_def Let_def bind_Some_iff)
  then obtain st1 where "gsoStep z inLen hdr s0 (unat (hdrLen hdr)) 0 st = Some st1"
    using assms(2,3) by (subst (asm) gsoLoop.simps) (auto simp: bind_Some_iff)
  then obtain n out where
    "gsoSegment z inLen hdr s0 (unat (hdrLen hdr)) (segEnd inLen hdr (unat (hdrLen hdr))) 0
       (outBufs st ! 0) = Some (n, out)"
    by (auto simp: gsoStep_def bind_Some_iff split: if_splits)
  from gsoSegment_room [OF this] have
    "unat (hdrLen hdr) + (segEnd inLen hdr (unat (hdrLen hdr)) - unat (hdrLen hdr))
      \<le> length (outBufs st ! 0)" by simp
  then show False using assms(2,4) by (auto simp: segEnd_def split: if_splits)
qed

section \<open>gsoNoneChecksum\<close>

lemma l4_zeroed:
  "Suc (a + k) < length b \<Longrightarrow> Suc k < n \<Longrightarrow>
   take n (drop a (b[a + k := x, Suc (a + k) := y])) = (take n (drop a b))[k := x, Suc k := y]"
  by (simp add: drop_update_swap take_update_swap)

text \<open>
  Property C30. For a packet the kernel left without its L4 checksum: when the field holds
  the folded pseudo-header sum \<open>ph\<close>, the routine stays inside the packet, changes the two
  checksum bytes only, stores the complement of the one's complement sum of pseudo-header
  and L4 data, and the result verifies.
\<close>

theorem gsoNoneChecksum_valid:
  assumes at: "at = unat cs + unat co" and "even (unat co)" and "at + 1 < pktLen"
    and len: "pktLen \<le> length pkt" "length pkt < 2 ^ 64"
    and ph: "oc16 ph = be16 (pkt ! at) (pkt ! (at + 1))"
    and l4: "l4 = take (pktLen - unat cs) (drop (unat cs) (pkt[at := 0, at + 1 := 0]))"
  shows "\<exists>v. gsoNoneChecksum pkt pktLen cs co = Some (put16 pkt at v) \<and>
    unat v = 65535 - oc16 (be16_sum l4 + ph) \<and>
    oc16 (be16_sum (take (pktLen - unat cs) (drop (unat cs) (put16 pkt at v))) + ph) = 65535"
proof -
  let ?c = "unat cs" and ?o = "unat co"
  let ?w = "word16 (pkt ! at) (pkt ! Suc at)"
  let ?v = "NOT (checksum l4 (ucast ?w))"
  let ?z = "pkt[at := 0, Suc at := 0]"
  have w: "unat (ucast ?w :: u64) = oc16 ph"
    using ph by (simp add: unat_ucast_up unat_word16)
  have eq: "oc16 (n + oc16 ph) = oc16 (n + ph)" for n
    by (intro oc16_ocEq ocEq_add ocEq_refl ocEq_sym [OF ocEq_oc16])
  have n: "length l4 = pktLen - ?c" using len l4 by simp
  have zz: "?z[at := x, Suc at := y] = pkt[at := x, Suc at := y]" for x y
    by (rule update_pair_twice)
  have "gsoNoneChecksum pkt pktLen cs co = Some (put16 pkt at ?v)"
  proof -
    have "rdBlk ?z ?c (pktLen - ?c) = Some l4"
      using assms(1,3,4) l4 by (simp add: rdBlk_def)
    then show ?thesis
      using assms(1,3,4) zz unfolding gsoNoneChecksum_def Let_def
      by (simp add: getBE16_Some wr8_def putBE16_Some put16_def)
  qed
  moreover have "unat ?v = 65535 - oc16 (be16_sum l4 + ph)"
    using len n by (simp add: unat_not_u16 cs.csum_val w eq)
  moreover have "take (pktLen - ?c) (drop ?c (put16 pkt at ?v))
      = l4[?o := hiByte ?v, Suc ?o := loByte ?v]"
    using assms(1,3,4) l4 by (simp add: put16_def l4_zeroed update_pair_twice)
  moreover have "oc16 (be16_sum (l4[?o := hiByte ?v, Suc ?o := loByte ?v]) + ph) = 65535"
  proof -
    have "l4 ! ?o = 0" "l4 ! Suc ?o = 0" using assms(1,3,4) l4 by (simp_all add: nth_list_update)
    then have "oc16 (be16_sum (l4[?o := hiByte ?v, Suc ?o := loByte ?v]) + unat (ucast ?w :: u64))
        = 65535"
      using assms(1-5) n by (intro cs.stored_valid) simp_all
    then show ?thesis by (simp only: w eq)
  qed
  ultimately show ?thesis by auto
qed

section \<open>A concrete super-packet\<close>

text \<open>
  A TCP segment from 10.0.0.1 to 10.0.0.2 with 19 bytes of payload, cut into pieces of 8.
\<close>

definition exPkt :: bytes where
  "exPkt = [0x45, 0, 0, 59, 0x12, 0x34, 0, 0, 64, 6, 0, 0, 10, 0, 0, 1, 10, 0, 0, 2,
     0x1f, 0x90, 0, 0x50, 0, 0, 0, 1, 0, 0, 0, 2, 0x50, 0x19, 0xff, 0xff, 0, 0, 0, 0,
     1, 2, 3, 4, 5, 6, 7, 8, 9, 10, 11, 12, 13, 14, 15, 16, 17, 18, 19]"

definition exHdr :: virtio_net_hdr where
  "exHdr = \<lparr>flags = 1, gsoType = 1, hdrLen = 40, gsoSize = 8, csumStart = 20, csumOffset = 16\<rparr>"

definition exOut :: "nat \<Rightarrow> gso_out" where
  "exOut n = \<lparr>outBufs = replicate n (replicate 64 0), outSizes = replicate n 0\<rparr>"

lemma exOk: "gsoOk exPkt 59 exHdr"
  by (simp add: gsoOk_def exPkt_def exHdr_def VIRTIO_NET_HDR_GSO_TCPV4_def)

lemma exFits: "gsoFits exHdr (exOut n) n"
  by (simp add: gsoFits_def exHdr_def exOut_def list_all_length)

lemma exCount: "segCount 59 exHdr = 3"
  by (simp add: segCount_def exHdr_def)

lemma exRun: "\<exists>st'. gsoSplit exPkt 59 exHdr (exOut 4) 4 = Some (3, cleanIn exPkt exHdr, st')"
  using gsoSplit_run [OF exOk exFits, of 4] by (auto simp: exCount)

theorem gsoSplit_returns_witness:
  "\<exists>st'. gsoSplit exPkt 59 exHdr (exOut 2) 2 = Some (-1, cleanIn exPkt exHdr, st') \<and>
     filled (gsoSeg exPkt 59 exHdr) 0 2 (exOut 2) st'"
  using gsoSplit_returns [OF exOk exFits, of 2] by (simp add: exCount)

theorem gsoSplit_payload_witness:
  "\<exists>st'. gsoSplit exPkt 59 exHdr (exOut 4) 4 = Some (3, cleanIn exPkt exHdr, st') \<and>
     concat (map (payloadOf exHdr st') [0..<3])
       = [1, 2, 3, 4, 5, 6, 7, 8, 9, 10, 11, 12, 13, 14, 15, 16, 17, 18, 19]"
proof -
  obtain st' where run: "gsoSplit exPkt 59 exHdr (exOut 4) 4 = Some (3, cleanIn exPkt exHdr, st')"
    using exRun by blast
  have "concat (map (payloadOf exHdr st') [0..<nat 3]) = drop 40 (take 59 exPkt)"
    using gsoSplit_payload [OF exOk exFits run] by (simp add: exHdr_def)
  also have "\<dots> = [1, 2, 3, 4, 5, 6, 7, 8, 9, 10, 11, 12, 13, 14, 15, 16, 17, 18, 19]"
    by (simp add: exPkt_def)
  finally show ?thesis using run by auto
qed

theorem gsoSplit_ipHeader_witness:
  "\<exists>st'. gsoSplit exPkt 59 exHdr (exOut 4) 4 = Some (3, cleanIn exPkt exHdr, st') \<and>
     getBE16 (packet st' 2) 4 = Some 0x1236 \<and>
     oc16 (be16_sum (take 20 (packet st' 2))) = 65535"
proof -
  obtain st' where run: "gsoSplit exPkt 59 exHdr (exOut 4) 4 = Some (3, cleanIn exPkt exHdr, st')"
    using exRun by blast
  have id: "getBE16 exPkt 4 = Some 0x1234"
    by (simp add: getBE16_def rd8_def exPkt_def)
  show ?thesis
    using run gsoSplit_ipHeader [OF exOk exFits run _ id, of 2] by (auto simp: exHdr_def)
qed

theorem gsoSplit_tcpHeader_witness:
  "\<exists>st'. gsoSplit exPkt 59 exHdr (exOut 4) 4 = Some (3, cleanIn exPkt exHdr, st') \<and>
     packet st' 1 ! 33 = 0x10 \<and> packet st' 2 ! 33 = 0x19"
proof -
  obtain st' where run: "gsoSplit exPkt 59 exHdr (exOut 4) 4 = Some (3, cleanIn exPkt exHdr, st')"
    using exRun by blast
  have seq: "getBE32 exPkt (unat (csumStart exHdr) + 4) = Some 1"
    by (simp add: getBE32_def rd8_def exPkt_def exHdr_def)
  have "packet st' 1 ! 33 = 0x19 AND NOT (TCP_FLAG_FIN OR TCP_FLAG_PSH)"
    using gsoSplit_tcpHeader [OF exOk exFits run _ seq, of 1]
    by (simp add: exHdr_def exPkt_def)
  moreover have "packet st' 2 ! 33 = 0x19"
    using gsoSplit_tcpHeader [OF exOk exFits run _ seq, of 2]
    by (simp add: exHdr_def exPkt_def)
  ultimately show ?thesis using run by (auto simp: TCP_FLAG_FIN_def TCP_FLAG_PSH_def)
qed

theorem gsoSplit_tcpChecksum_witness:
  "\<exists>st'. gsoSplit exPkt 59 exHdr (exOut 4) 4 = Some (3, cleanIn exPkt exHdr, st') \<and>
     (let l = of_nat (length (packet st' 2) - 20)
      in oc16 (be16_sum (drop 20 (packet st' 2))
        + be16_sum (take 4 (drop 12 (packet st' 2)) @ take 4 (drop 16 (packet st' 2))
                    @ [0, 6, hiByte l, loByte l])) = 65535)"
proof -
  obtain st' where run: "gsoSplit exPkt 59 exHdr (exOut 4) 4 = Some (3, cleanIn exPkt exHdr, st')"
    using exRun by blast
  show ?thesis
    using run gsoSplit_tcpChecksum [OF exOk exFits run _ refl, of 2]
    by (auto simp: exHdr_def Let_def)
qed

theorem gsoSplit_otherBytes_witness:
  "\<exists>st'. gsoSplit exPkt 59 exHdr (exOut 4) 4 = Some (3, cleanIn exPkt exHdr, st') \<and>
     packet st' 1 ! 8 = 64"
proof -
  obtain st' where run: "gsoSplit exPkt 59 exHdr (exOut 4) 4 = Some (3, cleanIn exPkt exHdr, st')"
    using exRun by blast
  show ?thesis
    using run gsoSplit_otherBytes [OF exOk exFits run, of 1 8] by (auto simp: exHdr_def exPkt_def)
qed

theorem gsoSplit_overflow_witness:
  "gsoSplit exPkt 59 exHdr \<lparr>outBufs = [replicate 47 0], outSizes = [0]\<rparr> 1 = None"
  by (rule gsoSplit_overflow) (simp_all add: exHdr_def VIRTIO_NET_HDR_GSO_TCPV4_def)

theorem gsoNoneChecksum_valid_witness:
  "\<exists>v. gsoNoneChecksum [0x45, 0, 1, 2, 3, 4, 0x12, 0x34, 5] 9 2 4
        = Some (put16 [0x45, 0, 1, 2, 3, 4, 0x12, 0x34, 5] 6 v) \<and>
     unat v = 65535 - 6970"
  using gsoNoneChecksum_valid [of 6 2 4 9 "[0x45, 0, 1, 2, 3, 4, 0x12, 0x34, 5]" "0x1234",
      OF _ _ _ _ _ _ refl]
  by (auto simp: be16_def oc16_def)

end
