(* ===== verification/PlaneTx.thy ===== *)
theory PlaneTx
  imports Plane GsoSegments
begin

text \<open>
  What the TUN reader sends. A message with \<open>UDP_SEGMENT\<close> carries as many datagrams as its
  bytes make when cut at the GSO size (\<open>chunks\<close>), and the theorems state which datagrams
  leave the host for a packet read from the TUN queue.
\<close>

section \<open>Cutting bytes\<close>

function chunks :: "nat \<Rightarrow> 'a list \<Rightarrow> 'a list list" where
  "chunks g xs = (if xs = [] \<or> g = 0 then [] else take g xs # chunks g (drop g xs))"
  by pat_completeness auto
termination
  by (relation "measure (\<lambda>(g, xs). length xs)") auto

declare chunks.simps [simp del]

lemma chunks_Nil [simp]: "chunks g [] = []"
  by (simp add: chunks.simps)

lemma concat_chunks: "0 < g \<Longrightarrow> concat (chunks g xs) = xs"
proof (induction g xs rule: chunks.induct)
  case (1 g xs)
  then show ?case
    by (cases "xs = []") (simp_all add: chunks.simps [of g xs])
qed

text \<open>Pieces that are all full except perhaps the last are what cutting gives back.\<close>

fun fullButLast :: "nat \<Rightarrow> 'a list list \<Rightarrow> bool" where
  "fullButLast g [] = True"
| "fullButLast g (p # ps) =
     (p \<noteq> [] \<and> length p \<le> g \<and> (ps \<noteq> [] \<longrightarrow> length p = g) \<and> fullButLast g ps)"

lemma fullButLast_nth:
  "(\<And>i. i < length ps \<Longrightarrow> ps ! i \<noteq> [] \<and> length (ps ! i) \<le> g \<and>
     (Suc i < length ps \<longrightarrow> length (ps ! i) = g)) \<Longrightarrow> fullButLast g ps"
proof (induction ps)
  case (Cons p ps)
  from Cons.prems [of 0] have "p \<noteq> [] \<and> length p \<le> g \<and> (ps \<noteq> [] \<longrightarrow> length p = g)" by simp
  moreover have "fullButLast g ps" using Cons.prems [of "Suc _"] by (intro Cons.IH) simp
  ultimately show ?case by simp
qed simp

lemma chunks_concat: "fullButLast g ps \<Longrightarrow> chunks g (concat ps) = ps"
proof (induction ps)
  case (Cons p ps)
  then have p: "p \<noteq> []" "length p \<le> g" "ps \<noteq> [] \<longrightarrow> length p = g" and ps: "fullButLast g ps"
    by auto
  show ?case
  proof (cases "ps = []")
    case True
    then show ?thesis using p by (cases g) (simp_all add: chunks.simps [of _ p])
  next
    case False
    then show ?thesis using p Cons.IH [OF ps] by (subst chunks.simps) auto
  qed
qed simp

lemma fullButLast_appendD1: "fullButLast g (ps @ qs) \<Longrightarrow> fullButLast g ps"
  by (induction ps) auto

lemma fullButLast_appendD2: "fullButLast g (ps @ qs) \<Longrightarrow> fullButLast g qs"
  by (induction ps) auto

section \<open>Messages sent\<close>

text \<open>The messages of a run: their buffers and their GSO size, in order.\<close>

fun sentMsgs :: "ev list \<Rightarrow> (bytes list \<times> u16) list" where
  "sentMsgs [] = []"
| "sentMsgs (SendMsg fd iovs sa n g # es) = (iovs, g) # sentMsgs es"
| "sentMsgs (_ # es) = sentMsgs es"

lemma sentMsgs_append [simp]: "sentMsgs (xs @ ys) = sentMsgs xs @ sentMsgs ys"
  by (induction xs rule: sentMsgs.induct) auto

text \<open>The datagrams on the wire.\<close>

definition onWire :: "(bytes list \<times> u16) list \<Rightarrow> bytes list" where
  "onWire ms = concat (map (\<lambda>(iovs, g). chunks (unat g) (concat iovs)) ms)"

text \<open>All datagrams a run puts on the wire, single ones included.\<close>

fun wireOf :: "ev list \<Rightarrow> bytes list" where
  "wireOf [] = []"
| "wireOf (SendTo fd x sa n # es) = x # wireOf es"
| "wireOf (SendMsg fd iovs sa n g # es) = chunks (unat g) (concat iovs) @ wireOf es"
| "wireOf (_ # es) = wireOf es"

lemma wireOf_append [simp]: "wireOf (xs @ ys) = wireOf xs @ wireOf ys"
  by (induction xs rule: wireOf.induct) auto

lemma callWarn_events:
  "\<exists>ws. callWarn os h e what = h @ e # ws \<and> sentMsgs ws = [] \<and> wireOf ws = []"
  by (auto simp: callWarn_def)

section \<open>One part of a super-packet\<close>

definition tunScratchOk :: "tun_scratch \<Rightarrow> bool" where
  "tunScratchOk sc \<longleftrightarrow> length (tsReadBuf sc) = READ_SIZE \<and>
     length (outBufs (tsSegs sc)) = MAX_SEGS \<and> length (outSizes (tsSegs sc)) = MAX_SEGS \<and>
     list_all (\<lambda>b. length b = SEG_SIZE) (outBufs (tsSegs sc)) \<and> length (tsIovs sc) = MAX_SEGS"

lemma fillIovs_eq:
  assumes "\<forall>k\<in>set ks. k < length (tsIovs sc) \<and> k < length (outBufs (tsSegs sc)) \<and>
    k < length (outSizes (tsSegs sc))"
  shows "\<exists>sc'. fillIovs ks sc = Some sc' \<and> tsSegs sc' = tsSegs sc \<and> tsReadBuf sc' = tsReadBuf sc \<and>
    length (tsIovs sc') = length (tsIovs sc) \<and>
    (\<forall>k. tsIovs sc' ! k = (if k \<in> set ks then (k, outSizes (tsSegs sc) ! k) else tsIovs sc ! k))"
  using assms
proof (induction ks arbitrary: sc)
  case (Cons k ks)
  let ?sc = "sc\<lparr>tsIovs := (tsIovs sc)[k := (k, outSizes (tsSegs sc) ! k)]\<rparr>"
  obtain sc' where sc': "fillIovs ks ?sc = Some sc'" "tsSegs sc' = tsSegs ?sc"
      "tsReadBuf sc' = tsReadBuf ?sc" "length (tsIovs sc') = length (tsIovs ?sc)"
      "\<forall>j. tsIovs sc' ! j = (if j \<in> set ks then (j, outSizes (tsSegs ?sc) ! j) else tsIovs ?sc ! j)"
    using Cons.IH [of ?sc] Cons.prems by auto
  then show ?case using Cons.prems by (auto simp: nth_list_update)
qed simp

lemma gatherIovs_eq:
  assumes "\<forall>k\<in>set ks. k < length (tsIovs sc) \<and> tsIovs sc ! k = (k, outSizes (tsSegs sc) ! k) \<and>
    k < length (outBufs (tsSegs sc)) \<and> outSizes (tsSegs sc) ! k \<le> length (outBufs (tsSegs sc) ! k)"
  shows "gatherIovs sc ks = Some (map (packet (tsSegs sc)) ks)"
  using assms by (induction ks) (auto simp: packet_def rdBlk_def)

text \<open>The segments \<open>i ..< e\<close> of the scratch memory can be sent.\<close>

definition segsReady :: "tun_scratch \<Rightarrow> nat \<Rightarrow> bool" where
  "segsReady sc n \<longleftrightarrow> n \<le> MAX_SEGS \<and>
     (\<forall>k<n. outSizes (tsSegs sc) ! k \<le> length (outBufs (tsSegs sc) ! k))"

lemma usoPart_eq:
  assumes ct: "connTableOk I ct" and c: "c < ctSize ct"
    and sc: "tunScratchOk sc" and n: "segsReady sc n" "e \<le> n"
  shows "\<exists>ct' sc' ws p s. usoPart os c g now i e (ct, sc, h) =
      Some (ct', sc', h @ SendMsg (slotSrcFd s) (map (packet (tsSegs sc)) [i..<e]) (slotDstAddr s)
        (addrLen (slotDstAddr s)) g # ws) \<and>
    ctNext ct c now = Some (p, ct') \<and> ctSlot ct' p = Some s \<and>
    sentMsgs ws = [] \<and> wireOf ws = [] \<and> connTableOk I ct' \<and> ctSize ct' = ctSize ct \<and> tunScratchOk sc' \<and>
    tsSegs sc' = tsSegs sc"
proof -
  have l: "length (outBufs (tsSegs sc)) = MAX_SEGS" "length (outSizes (tsSegs sc)) = MAX_SEGS"
      "length (tsIovs sc) = MAX_SEGS" "e \<le> MAX_SEGS"
    using sc n by (auto simp: tunScratchOk_def segsReady_def)
  obtain sc' where sc': "fillIovs [i..<e] sc = Some sc'" "tsSegs sc' = tsSegs sc"
      "tsReadBuf sc' = tsReadBuf sc" "length (tsIovs sc') = length (tsIovs sc)"
      "\<forall>k. tsIovs sc' ! k = (if k \<in> set [i..<e] then (k, outSizes (tsSegs sc) ! k) else tsIovs sc ! k)"
    using fillIovs_eq [of "[i..<e]" sc] l by auto
  obtain p ct' s where nx: "ctNext ct c now = Some (p, ct')" "connTableOk I ct'" "c < ctSize ct'"
      "ctSlot ct' p = Some s"
    using cv.next_again [OF ct c] by blast
  have size: "ctSize ct' = ctSize ct"
    using nx(1) by (auto simp: ctNext_def ctSize_def bind_Some_iff)
  have gather: "gatherIovs sc' [i..<e] = Some (map (packet (tsSegs sc)) [i..<e])"
    using gatherIovs_eq [of "[i..<e]" sc'] sc' l n by (auto simp: segsReady_def)
  let ?e = "SendMsg (slotSrcFd s) (map (packet (tsSegs sc)) [i..<e]) (slotDstAddr s)
      (addrLen (slotDstAddr s)) g"
  obtain ws where ws: "callWarn os h ?e ''udp sendmsg(USO)'' = h @ ?e # ws" "sentMsgs ws = []" "wireOf ws = []"
    using callWarn_events by blast
  have "tunScratchOk sc'" using sc sc' by (simp add: tunScratchOk_def)
  then show ?thesis
    using nx(2) size sc'(2) ws by (auto simp: usoPart_def sc'(1) nx(1,4) gather)
qed

section \<open>All parts\<close>

lemma map_upt_append: "i \<le> m \<Longrightarrow> m \<le> n \<Longrightarrow> map f [i..<m] @ map f [m..<n] = map f [i..<n]"
  by (metis le_add_diff_inverse map_append upt_add_eq_append)

lemma usoLoop_eq:
  assumes "connTableOk I ct" and "c < ctSize ct" and "tunScratchOk sc" and n: "segsReady sc n"
    and P: "0 < P"
  shows "\<exists>ct' sc' es. usoLoop os c g now P n i (ct, sc, h) = Some (ct', sc', h @ es) \<and>
    connTableOk I ct' \<and> ctSize ct' = ctSize ct \<and> tunScratchOk sc' \<and> tsSegs sc' = tsSegs sc \<and>
    concat (map fst (sentMsgs es)) = map (packet (tsSegs sc)) [i..<n] \<and>
    (\<forall>m\<in>set (sentMsgs es). snd m = g \<and> fst m \<noteq> [] \<and> length (fst m) \<le> P) \<and>
    (i \<le> n \<longrightarrow> P * length (sentMsgs es) < n - i + P) \<and> wireOf es = onWire (sentMsgs es)"
  using assms(1-4)
proof (induction "n - i" arbitrary: i ct sc h rule: less_induct)
  case less
  show ?case
  proof (cases "i < n")
    case False
    then show ?thesis using less.prems P by (subst usoLoop.simps) (auto simp: onWire_def)
  next
    case True
    let ?e = "usoEnd i P n"
    have e: "i < ?e" "?e \<le> n" "?e \<le> i + P" "?e = n \<or> ?e = i + P"
      using True P by (auto simp: usoEnd_def)
    obtain ct1 sc1 ws fd dst where part: "usoPart os c g now i ?e (ct, sc, h) =
        Some (ct1, sc1, h @ SendMsg fd (map (packet (tsSegs sc)) [i..<?e]) dst (addrLen dst) g # ws)"
        "sentMsgs ws = []" "wireOf ws = []" "connTableOk I ct1" "ctSize ct1 = ctSize ct" "tunScratchOk sc1"
        "tsSegs sc1 = tsSegs sc"
      using usoPart_eq [OF less.prems e(2), of os g now i h] by (elim exE conjE) (rule that)
    let ?m = "SendMsg fd (map (packet (tsSegs sc)) [i..<?e]) dst (addrLen dst) g"
    have "n - ?e < n - i" "segsReady sc1 n"
      using e True part(7) less.prems(4) by (auto simp: segsReady_def)
    with less.hyps [of ?e ct1 sc1 "h @ ?m # ws"] part less.prems(2)
    obtain ct' sc' es where run: "usoLoop os c g now P n ?e (ct1, sc1, h @ ?m # ws) =
          Some (ct', sc', (h @ ?m # ws) @ es)"
        "connTableOk I ct'" "ctSize ct' = ctSize ct" "tunScratchOk sc'" "tsSegs sc' = tsSegs sc"
        "concat (map fst (sentMsgs es)) = map (packet (tsSegs sc)) [?e..<n]"
        "\<forall>m\<in>set (sentMsgs es). snd m = g \<and> fst m \<noteq> [] \<and> length (fst m) \<le> P"
        "P * length (sentMsgs es) < n - ?e + P" "wireOf es = onWire (sentMsgs es)"
      using e(2) by auto
    let ?es = "?m # ws @ es"
    have "usoLoop os c g now P n i (ct, sc, h) = Some (ct', sc', h @ ?es)"
      using True run(1) by (subst usoLoop.simps) (simp add: part(1))
    moreover have "concat (map fst (sentMsgs ?es)) = map (packet (tsSegs sc)) [i..<n]"
      using part(2) run(6) e map_upt_append [of i ?e n "packet (tsSegs sc)"] by simp
    moreover have "\<forall>m\<in>set (sentMsgs ?es). snd m = g \<and> fst m \<noteq> [] \<and> length (fst m) \<le> P"
      using part(2) run(7) e by auto
    moreover have "P * length (sentMsgs ?es) < n - i + P"
    proof (cases "?e = n")
      case True
      then have "sentMsgs es = []" using run(6,8) P by simp
      then show ?thesis using part(2) \<open>i < n\<close> by simp
    next
      case False
      then show ?thesis using part(2) run(8) e by auto
    qed
    moreover have "wireOf ?es = onWire (sentMsgs ?es)"
      using part(2,3) run(9) by (simp add: onWire_def)
    ultimately show ?thesis using run(2-5) by blast
  qed
qed

lemma pieces_chunks:
  "fullButLast g (concat pss) \<Longrightarrow> ps \<in> set pss \<Longrightarrow> chunks g (concat ps) = ps"
proof (induction pss)
  case (Cons qs pss)
  have "fullButLast g qs" using Cons.prems(1) by (auto dest: fullButLast_appendD1)
  moreover have "fullButLast g (concat pss)" using Cons.prems(1) by (auto dest: fullButLast_appendD2)
  ultimately show ?case using Cons by (auto simp: chunks_concat)
qed simp

lemma pieces_full: "fullButLast g (concat pss) \<Longrightarrow> ps \<in> set pss \<Longrightarrow> fullButLast g ps"
  by (induction pss) (auto dest: fullButLast_appendD1 fullButLast_appendD2)

lemma onWire_pieces:
  assumes full: "fullButLast (unat g) (concat (map fst ms))" and g: "\<forall>m\<in>set ms. snd m = g"
  shows "onWire ms = concat (map fst ms)"
proof -
  have "(case m of (iovs, g) \<Rightarrow> chunks (unat g) (concat iovs)) = fst m" if m: "m \<in> set ms" for m
  proof -
    have "fst m \<in> set (map fst ms)" using m by auto
    from pieces_chunks [OF full this] show ?thesis using g m by (cases m) auto
  qed
  then show ?thesis unfolding onWire_def by (metis (no_types, lifting) map_cong)
qed

lemma sendUso_eq:
  assumes ct: "connTableOk I ct" and c: "c < ctSize ct" and sc: "tunScratchOk sc"
    and n: "segsReady sc n"
    and full: "fullButLast (outSizes (tsSegs sc) ! 0) (map (packet (tsSegs sc)) [0..<n])"
    and small: "outSizes (tsSegs sc) ! 0 < 65536"
  shows "\<exists>ct' sc' es. sendUso os c n (ct, sc, h) = Some (ct', sc', h @ es) \<and>
    connTableOk I ct' \<and> ctSize ct' = ctSize ct \<and> tunScratchOk sc' \<and>
    wireOf es = map (packet (tsSegs sc)) [0..<n] \<and>
    length (sentMsgs es) \<le> 8 \<and>
    concat (map fst (sentMsgs es)) = map (packet (tsSegs sc)) [0..<n] \<and>
    (\<forall>m\<in>set (sentMsgs es). length (fst m) \<le> 8 \<and> fst m \<noteq> [] \<and> fullButLast (unat (snd m)) (fst m))"
proof -
  let ?P = "(n + USO_PARTS - 1) div USO_PARTS" and ?g = "of_nat (outSizes (tsSegs sc) ! 0) :: u16"
  have d: "deref (outSizes (tsSegs sc)) 0 = Some (outSizes (tsSegs sc) ! 0)"
    using sc by (simp add: tunScratchOk_def MAX_SEGS_def)
  have g: "unat ?g = outSizes (tsSegs sc) ! 0" using small by (simp add: unat_of_nat)
  have n64: "n \<le> 64" using n by (simp add: segsReady_def MAX_SEGS_def)
  show ?thesis
  proof (cases "n = 0")
    case True
    then show ?thesis
      using ct sc by (subst sendUso_def) (simp add: d usoLoop.simps nowMs_def onWire_def split: prod.splits)
  next
    case False
    then have P: "0 < ?P" "?P \<le> 8" "n \<le> 8 * ?P" using n64 by (auto simp: USO_PARTS_def)
    obtain now where nm: "nowMs os h = (now, h @ [Clock])" using nowMs_snd [of os h] by (cases "nowMs os h") auto
    obtain ct' sc' es where run: "usoLoop os c ?g now ?P n 0 (ct, sc, h @ [Clock]) =
          Some (ct', sc', (h @ [Clock]) @ es)"
        "connTableOk I ct'" "ctSize ct' = ctSize ct" "tunScratchOk sc'"
        "concat (map fst (sentMsgs es)) = map (packet (tsSegs sc)) [0..<n]"
        "\<forall>m\<in>set (sentMsgs es). snd m = ?g \<and> fst m \<noteq> [] \<and> length (fst m) \<le> ?P"
        "?P * length (sentMsgs es) < n - 0 + ?P" "wireOf es = onWire (sentMsgs es)"
      using usoLoop_eq [OF ct c sc n P(1), of os ?g now 0 "h @ [Clock]"] by auto
    have "length (sentMsgs es) \<le> 8"
    proof (rule ccontr)
      assume "\<not> ?thesis"
      then have "?P * 9 \<le> ?P * length (sentMsgs es)" by (intro mult_le_mono2) simp
      then show False using run(7) P(3) by linarith
    qed
    moreover have "wireOf es = map (packet (tsSegs sc)) [0..<n]"
      using onWire_pieces [of ?g "sentMsgs es"] run(5,6,8) full g by simp
    moreover have "sendUso os c n (ct, sc, h) = Some (ct', sc', h @ Clock # es)"
      using run(1) by (simp add: sendUso_def d nm)
    moreover have "\<forall>m\<in>set (sentMsgs es). length (fst m) \<le> 8 \<and> fst m \<noteq> [] \<and>
        fullButLast (unat (snd m)) (fst m)"
    proof
      fix m
      assume m: "m \<in> set (sentMsgs es)"
      with run(6) have "snd m = ?g" "fst m \<noteq> []" "length (fst m) \<le> ?P" by auto
      moreover have "fullButLast (outSizes (tsSegs sc) ! 0) (concat (map fst (sentMsgs es)))"
        using full by (simp only: run(5))
      then have "fullButLast (outSizes (tsSegs sc) ! 0) (fst m)"
        by (rule pieces_full) (use m in simp)
      ultimately show "length (fst m) \<le> 8 \<and> fst m \<noteq> [] \<and> fullButLast (unat (snd m)) (fst m)"
        using P(2) g by simp
    qed
    moreover have clock: "sentMsgs (Clock # es) = sentMsgs es" "wireOf (Clock # es) = wireOf es" by simp_all
    ultimately show ?thesis using run(2-5)
      by (intro exI [of _ ct'] exI [of _ sc'] exI [of _ "Clock # es"]) (simp only: clock)
  qed
qed

section \<open>Segments in the scratch memory\<close>

lemma segLen_full:
  assumes "0 < unat (gsoSize hdr)" and "Suc j < segCount inLen hdr"
  shows "segLen inLen hdr j = unat (hdrLen hdr) + unat (gsoSize hdr)"
proof -
  have "segStart hdr (Suc j) < inLen" using assms segStart_less by blast
  then show ?thesis by (simp add: segLen_def segEnd_def segStart_Suc)
qed

lemma segLen_pos:
  assumes "0 < unat (gsoSize hdr)" and "j < segCount inLen hdr" and "0 < unat (hdrLen hdr)"
  shows "0 < segLen inLen hdr j"
  using assms by (simp add: segLen_def)

lemma segLen_first:
  assumes g: "0 < unat (gsoSize hdr)" and j: "j < segCount inLen hdr"
  shows "segLen inLen hdr j \<le> segLen inLen hdr 0 \<and>
    (Suc j < segCount inLen hdr \<longrightarrow> segLen inLen hdr j = segLen inLen hdr 0)"
proof (cases "segCount inLen hdr = 1")
  case True
  then show ?thesis using j by simp
next
  case False
  then have "segLen inLen hdr 0 = unat (hdrLen hdr) + unat (gsoSize hdr)"
    using segLen_full [OF g, of 0 inLen] j by simp
  then show ?thesis using segLen_le [OF g j] segLen_full [OF g, of j inLen] by simp
qed

text \<open>After a split that succeeded the scratch memory holds the segments, ready to send.\<close>

lemma split_ready:
  assumes ok: "gsoOk inb inLen hdr" and room: "unat (hdrLen hdr) + unat (gsoSize hdr) \<le> SEG_SIZE"
    and sc: "tunScratchOk sc" and count: "segCount inLen hdr \<le> MAX_SEGS"
  shows "\<exists>out. gsoSplit inb inLen hdr (tsSegs sc) MAX_SEGS =
      Some (int (segCount inLen hdr), cleanIn inb hdr, out) \<and>
    (\<forall>rb. length rb = READ_SIZE \<longrightarrow> tunScratchOk (sc\<lparr>tsReadBuf := rb, tsSegs := out\<rparr>)) \<and>
    (\<forall>rb. segsReady (sc\<lparr>tsReadBuf := rb, tsSegs := out\<rparr>) (segCount inLen hdr)) \<and>
    map (packet out) [0..<segCount inLen hdr] = map (gsoSeg inb inLen hdr) [0..<segCount inLen hdr] \<and>
    (0 < segCount inLen hdr \<longrightarrow> outSizes out ! 0 = segLen inLen hdr 0)"
proof -
  let ?n = "segCount inLen hdr"
  have s: "length (outBufs (tsSegs sc)) = MAX_SEGS" "length (outSizes (tsSegs sc)) = MAX_SEGS"
      "\<forall>b\<in>set (outBufs (tsSegs sc)). length b = SEG_SIZE"
    using sc by (auto simp: tunScratchOk_def list_all_iff)
  have fits: "gsoFits hdr (tsSegs sc) MAX_SEGS" using s room by (auto simp: gsoFits_def list_all_iff)
  obtain out where out: "gsoSplit inb inLen hdr (tsSegs sc) MAX_SEGS = Some (int ?n, cleanIn inb hdr, out)"
      "filled (gsoSeg inb inLen hdr) 0 ?n (tsSegs sc) out"
    using gsoSplit_run [OF ok fits] count by auto
  have g: "0 < unat (gsoSize hdr)" using ok by (simp add: gsoOk_def)
  have pk: "packet out j = gsoSeg inb inLen hdr j" "outSizes out ! j = segLen inLen hdr j" if "j < ?n" for j
    using gsoSplit_packet [OF ok fits out(1), of j] that by auto
  have len: "length (gsoSeg inb inLen hdr j) = segLen inLen hdr j" if "j < ?n" for j
    using out(2) pk(2) [OF that] that by (auto simp: filled_def dest: spec [of _ j])
  have buf: "length (outBufs out ! j) = SEG_SIZE" if j: "j < MAX_SEGS" for j
  proof (cases "j < ?n")
    case True
    have "outBufs out ! j = gsoSeg inb inLen hdr j @ drop (length (gsoSeg inb inLen hdr j)) (outBufs (tsSegs sc) ! j)"
      using out(2) True by (simp add: filled_def)
    moreover have "segLen inLen hdr j \<le> SEG_SIZE" using segLen_le [OF g True] room by simp
    ultimately show ?thesis using len [OF True] s(1,3) j by simp
  next
    case False
    then show ?thesis using out(2) s(1,3) j by (simp add: filled_def)
  qed
  have lens: "length (outBufs out) = MAX_SEGS" "length (outSizes out) = MAX_SEGS"
    using out(2) s by (auto simp: filled_def)
  then have "list_all (\<lambda>b. length b = SEG_SIZE) (outBufs out)"
    using buf by (simp add: list_all_length)
  then have "tunScratchOk (sc\<lparr>tsReadBuf := rb, tsSegs := out\<rparr>)" if "length rb = READ_SIZE" for rb
    using sc that lens by (simp add: tunScratchOk_def)
  moreover have "segsReady (sc\<lparr>tsReadBuf := rb, tsSegs := out\<rparr>) ?n" for rb
    using buf count pk(2) segLen_le [OF g] room by (force simp: segsReady_def)
  moreover have "map (packet out) [0..<?n] = map (gsoSeg inb inLen hdr) [0..<?n]" using pk by simp
  ultimately show ?thesis using out(1) pk(2) [of 0] by auto
qed

lemma gsoSegs_full:
  assumes ok: "gsoOk inb inLen hdr"
  shows "fullButLast (segLen inLen hdr 0) (map (gsoSeg inb inLen hdr) [0..<segCount inLen hdr])"
proof (rule fullButLast_nth)
  fix j
  assume "j < length (map (gsoSeg inb inLen hdr) [0..<segCount inLen hdr])"
  then have j: "j < segCount inLen hdr" by simp
  have g: "0 < unat (gsoSize hdr)" and h: "0 < unat (hdrLen hdr)" using ok by (auto simp: gsoOk_def)
  have len: "length (gsoSeg inb inLen hdr j) = segLen inLen hdr j"
    using length_segOf [OF gsoShape_clean [OF ok], of inLen j] ok g j
    by (simp add: gsoSeg_def gsoOk_def)
  then have "gsoSeg inb inLen hdr j \<noteq> []" using segLen_pos [OF g j h] by auto
  then show "map (gsoSeg inb inLen hdr) [0..<segCount inLen hdr] ! j \<noteq> [] \<and>
      length (map (gsoSeg inb inLen hdr) [0..<segCount inLen hdr] ! j) \<le> segLen inLen hdr 0 \<and>
      (Suc j < length (map (gsoSeg inb inLen hdr) [0..<segCount inLen hdr]) \<longrightarrow>
       length (map (gsoSeg inb inLen hdr) [0..<segCount inLen hdr] ! j) = segLen inLen hdr 0)"
    using len j segLen_first [OF g j] by simp
qed

section \<open>One round of the reader\<close>

text \<open>The kernel returns the bytes \<open>data\<close> from the TUN queue.\<close>

definition tunReads :: "os \<Rightarrow> ev list \<Rightarrow> int \<Rightarrow> tun_scratch \<Rightarrow> bytes \<Rightarrow> bool" where
  "tunReads os h fd sc data \<longleftrightarrow>
     (let e = ReadFd fd (length (tsReadBuf sc))
      in osRes os h e = int (length data) \<and> osRead os (h @ [e]) = data \<and>
         length data \<le> length (tsReadBuf sc))"

text \<open>The packet behind the virtio header, with the rest of the read buffer after it.\<close>

definition innerOf :: "tun_scratch \<Rightarrow> bytes \<Rightarrow> bytes" where
  "innerOf sc data = drop VIRTIO_NET_HDR_LEN (data @ drop (length data) (tsReadBuf sc))"

lemma tunStep_reads:
  assumes "tunReads os h fd sc data" and "VIRTIO_NET_HDR_LEN + 20 \<le> length data"
    and "decodeVirtioNetHdr data = Some hdr"
  shows "tunStep os I fd (ct, sc, h) =
    tunPacket os I hdr (length data - VIRTIO_NET_HDR_LEN)
      (ct, sc\<lparr>tsReadBuf := data @ drop (length data) (tsReadBuf sc)\<rparr>,
       h @ [ReadFd fd (length (tsReadBuf sc))])"
proof -
  have "decodeVirtioNetHdr (data @ drop (length data) (tsReadBuf sc)) = decodeVirtioNetHdr data"
    using assms(2) by (simp add: decodeVirtioNetHdr_def rdBlk_def)
  then show ?thesis
    using assms by (simp add: tunStep_def tunReads_def Let_def wrBlk_front)
qed

lemma tunStep_short:
  assumes "tunReads os h fd sc data" and "length data < VIRTIO_NET_HDR_LEN + 20"
  shows "tunStep os I fd (ct, sc, h) =
    Some (ct, sc\<lparr>tsReadBuf := data @ drop (length data) (tsReadBuf sc)\<rparr>,
      h @ [ReadFd fd (length (tsReadBuf sc))])"
  using assms by (simp add: tunStep_def tunReads_def Let_def wrBlk_front)

lemma readBuf_length:
  "tunReads os h fd sc data \<Longrightarrow> tunScratchOk sc \<Longrightarrow>
   tunScratchOk (sc\<lparr>tsReadBuf := data @ drop (length data) (tsReadBuf sc)\<rparr>)"
  by (auto simp: tunReads_def tunScratchOk_def Let_def)

lemma innerOf_length:
  "tunReads os h fd sc data \<Longrightarrow> tunScratchOk sc \<Longrightarrow>
   length (innerOf sc data) = READ_SIZE - VIRTIO_NET_HDR_LEN"
  by (auto simp: innerOf_def tunReads_def tunScratchOk_def Let_def)

lemma ctSize_Some: "connTableOk I ct \<Longrightarrow> ctLookup I ct v = Some c \<Longrightarrow> c < ctSize ct"
  by (rule cv.lookup_has)

lemma nowMs_pair: "\<exists>now. nowMs os h = (now, h @ [Clock])"
  using nowMs_snd [of os h] by (cases "nowMs os h") auto

lemma sendOne_eq:
  assumes ct: "connTableOk I ct" and c: "ctLookup I ct v = Some c"
  shows "\<exists>ct' es. sendOne os c pkt ct h = Some (ct', h @ es) \<and> connTableOk I ct' \<and>
    wireOf es = [pkt]"
proof -
  obtain now where nm: "nowMs os h = (now, h @ [Clock])" using nowMs_pair by blast
  obtain p ct' s where nx: "ctNext ct c now = Some (p, ct')" "connTableOk I ct'" "ctSlot ct' p = Some s"
    using cv.send_ready [OF ct c] by blast
  let ?e = "SendTo (slotSrcFd s) pkt (slotDstAddr s) (addrLen (slotDstAddr s))"
  obtain ws where ws: "callWarn os (h @ [Clock]) ?e ''udp sendto'' = (h @ [Clock]) @ ?e # ws"
      "wireOf ws = []" using callWarn_events by blast
  then show ?thesis using nx by (auto simp: sendOne_def nm)
qed

text \<open>The packet a round sends when the kernel did not ask for segmentation.\<close>

definition plainPacket :: "bytes \<Rightarrow> nat \<Rightarrow> virtio_net_hdr \<Rightarrow> bytes option" where
  "plainPacket inb inLen hdr =
     (if flags hdr AND VIRTIO_NET_HDR_F_NEEDS_CSUM \<noteq> 0
      then gsoNoneChecksum inb inLen (csumStart hdr) (csumOffset hdr) else Some inb)"

text \<open>The branches of a round, on the buffer as the kernel left it.\<close>

lemma tunPacket_tcp:
  assumes "dstFromIPv4 (drop VIRTIO_NET_HDR_LEN (tsReadBuf sc)) n = Some (Some v)"
    and "ctLookup I ct v = Some c" and "gsoType hdr = VIRTIO_NET_HDR_GSO_TCPV4"
    and "gsoSplit (drop VIRTIO_NET_HDR_LEN (tsReadBuf sc)) n hdr (tsSegs sc) MAX_SEGS = Some (r, inner, out)"
  shows "tunPacket os I hdr n (ct, sc, h) =
    (if r < 0
     then Some (ct, sc\<lparr>tsReadBuf := take VIRTIO_NET_HDR_LEN (tsReadBuf sc) @ inner, tsSegs := out\<rparr>,
       h @ [LogLine ''gofra: gsoSplit: too many segments / unsupported gso_type''])
     else sendUso os c (nat r)
       (ct, sc\<lparr>tsReadBuf := take VIRTIO_NET_HDR_LEN (tsReadBuf sc) @ inner, tsSegs := out\<rparr>, h))"
  using assms
  by (simp add: tunPacket_def Let_def VIRTIO_NET_HDR_GSO_NONE_def VIRTIO_NET_HDR_GSO_TCPV4_def)

lemma tunPacket_plain:
  assumes "dstFromIPv4 (drop VIRTIO_NET_HDR_LEN (tsReadBuf sc)) n = Some (Some v)"
    and "ctLookup I ct v = Some c" and "gsoType hdr = VIRTIO_NET_HDR_GSO_NONE"
    and "plainPacket (drop VIRTIO_NET_HDR_LEN (tsReadBuf sc)) n hdr = Some inner"
    and "rdBlk inner 0 n = Some pkt" and "sendOne os c pkt ct h = Some (ct', h')"
  shows "tunPacket os I hdr n (ct, sc, h) =
    Some (ct', sc\<lparr>tsReadBuf := take VIRTIO_NET_HDR_LEN (tsReadBuf sc) @ inner\<rparr>, h')"
  using assms by (simp add: tunPacket_def plainPacket_def Let_def)

lemma tunPacket_unknown:
  assumes "dstFromIPv4 (drop VIRTIO_NET_HDR_LEN (tsReadBuf sc)) n = Some d"
    and "\<And>v. d = Some v \<Longrightarrow> ctLookup I ct v = None"
  shows "tunPacket os I hdr n (ct, sc, h) = Some (ct, sc, h)"
  using assms by (cases d) (simp_all add: tunPacket_def Let_def)

lemma tunStep_gso_run:
  assumes ct: "connTableOk I ct" and sc: "tunScratchOk sc" and rd: "tunReads os h fd sc data"
    and len: "VIRTIO_NET_HDR_LEN + 20 \<le> length data" and hdr: "decodeVirtioNetHdr data = Some hdr"
    and inb: "inb = innerOf sc data" "inLen = length data - VIRTIO_NET_HDR_LEN"
    and ok: "gsoOk inb inLen hdr" and room: "unat (hdrLen hdr) + unat (gsoSize hdr) \<le> SEG_SIZE"
    and count: "segCount inLen hdr \<le> MAX_SEGS"
    and to: "dstFromIPv4 inb inLen = Some (Some v)" "ctLookup I ct v = Some c"
  shows "\<exists>ct' sc' es. tunStep os I fd (ct, sc, h) = Some (ct', sc', h @ es) \<and>
    connTableOk I ct' \<and> tunScratchOk sc' \<and>
    wireOf es = map (gsoSeg inb inLen hdr) [0..<segCount inLen hdr] \<and> length (sentMsgs es) \<le> 8 \<and>
    concat (map fst (sentMsgs es)) = map (gsoSeg inb inLen hdr) [0..<segCount inLen hdr] \<and>
    (\<forall>m\<in>set (sentMsgs es). fst m \<noteq> [] \<and> fullButLast (unat (snd m)) (fst m))"
proof -
  let ?sc1 = "sc\<lparr>tsReadBuf := data @ drop (length data) (tsReadBuf sc)\<rparr>"
  let ?h1 = "h @ [ReadFd fd (length (tsReadBuf sc))]"
  let ?n = "segCount inLen hdr"
  have sc1: "tunScratchOk ?sc1" using readBuf_length [OF rd sc] .
  obtain out where out: "gsoSplit inb inLen hdr (tsSegs sc) MAX_SEGS = Some (int ?n, cleanIn inb hdr, out)"
      "\<forall>rb. length rb = READ_SIZE \<longrightarrow> tunScratchOk (sc\<lparr>tsReadBuf := rb, tsSegs := out\<rparr>)"
      "\<forall>rb. segsReady (sc\<lparr>tsReadBuf := rb, tsSegs := out\<rparr>) ?n"
      "map (packet out) [0..<?n] = map (gsoSeg inb inLen hdr) [0..<?n]"
      "0 < ?n \<longrightarrow> outSizes out ! 0 = segLen inLen hdr 0"
    using split_ready [OF ok room sc count] by (elim exE conjE) (rule that; assumption)
  let ?rb = "take VIRTIO_NET_HDR_LEN (data @ drop (length data) (tsReadBuf sc)) @ cleanIn inb hdr"
  let ?sc2 = "sc\<lparr>tsReadBuf := ?rb, tsSegs := out\<rparr>"
  have rb: "length ?rb = READ_SIZE"
    using innerOf_length [OF rd sc] sc1 len inb(1)
    by (simp add: tunScratchOk_def VIRTIO_NET_HDR_LEN_def READ_SIZE_def)
  have tcp: "gsoType hdr = VIRTIO_NET_HDR_GSO_TCPV4" using ok by (simp add: gsoOk_def)
  have "tunPacket os I hdr inLen (ct, ?sc1, ?h1) = sendUso os c ?n (ct, ?sc2, ?h1)"
    using tunPacket_tcp [of ?sc1 inLen v I ct c hdr "int ?n" "cleanIn inb hdr" out os ?h1] to out(1) tcp
    by (simp only: innerOf_def inb(1)) simp
  then have step: "tunStep os I fd (ct, sc, h) = sendUso os c ?n (ct, ?sc2, ?h1)"
    by (simp only: tunStep_reads [OF rd len hdr] inb(2))
  have full: "fullButLast (outSizes (tsSegs ?sc2) ! 0) (map (packet (tsSegs ?sc2)) [0..<?n])"
    using gsoSegs_full [OF ok] out(5) by (cases "?n = 0") (simp_all add: out(4) del: map_eq_conv)
  have small: "0 < ?n \<Longrightarrow> outSizes (tsSegs ?sc2) ! 0 < 65536"
    using out(5) segLen_le [of hdr 0 inLen] ok by (simp add: gsoOk_def)
  show ?thesis
  proof (cases "?n = 0")
    case True
    obtain n0 where "deref (outSizes out) 0 = Some n0"
      using out(2) [rule_format, OF rb] by (simp add: tunScratchOk_def MAX_SEGS_def)
    moreover obtain now where "nowMs os ?h1 = (now, ?h1 @ [Clock])" using nowMs_pair by blast
    ultimately show ?thesis
      using ct out(2) [rule_format, OF rb] by (simp add: step True sendUso_def usoLoop.simps)
  next
    case False
    with sendUso_eq [OF ct ctSize_Some [OF ct to(2)] out(2) [rule_format, OF rb] out(3) [rule_format] full small, of os ?h1]
    show ?thesis unfolding step using out(4) by force
  qed
qed

text \<open>
  Property C8. A TCP super-packet read from the TUN queue for a known peer, with segments
  that fit the scratch memory, leaves the host as exactly the segments of \<open>gsoSplit\<close>, in
  order: the kernel, cutting every message at its GSO size, puts them on the wire
  unchanged. There are at most 8 messages, and the invariants hold for the next round.
\<close>

theorem tunStep_gso:
  assumes ct: "connTableOk I ct" and sc: "tunScratchOk sc" and rd: "tunReads os h fd sc data"
    and len: "VIRTIO_NET_HDR_LEN + 20 \<le> length data" and hdr: "decodeVirtioNetHdr data = Some hdr"
    and inb: "inb = innerOf sc data" "inLen = length data - VIRTIO_NET_HDR_LEN"
    and ok: "gsoOk inb inLen hdr" and room: "unat (hdrLen hdr) + unat (gsoSize hdr) \<le> SEG_SIZE"
    and count: "segCount inLen hdr \<le> MAX_SEGS"
    and to: "dstFromIPv4 inb inLen = Some (Some v)" "ctLookup I ct v = Some c"
  shows "\<exists>ct' sc' es. tunStep os I fd (ct, sc, h) = Some (ct', sc', h @ es) \<and>
    connTableOk I ct' \<and> tunScratchOk sc' \<and>
    wireOf es = map (gsoSeg inb inLen hdr) [0..<segCount inLen hdr] \<and> length (sentMsgs es) \<le> 8"
  using tunStep_gso_run [OF assms] by blast

lemma gsoNoneChecksum_length:
  "gsoNoneChecksum pkt n a b = Some pkt' \<Longrightarrow> length pkt' = length pkt"
  by (auto simp: gsoNoneChecksum_def Let_def bind_Some_iff dest!: putBE16_length wr8_length)

lemma plainPacket_length: "plainPacket inb n hdr = Some x \<Longrightarrow> length x = length inb"
  by (auto simp: plainPacket_def dest: gsoNoneChecksum_length split: if_splits)

lemma plainPacket_total:
  assumes "flags hdr AND VIRTIO_NET_HDR_F_NEEDS_CSUM \<noteq> 0 \<Longrightarrow>
      unat (csumStart hdr) + unat (csumOffset hdr) + 1 < inLen" and "inLen \<le> length inb"
  shows "\<exists>x. plainPacket inb inLen hdr = Some x"
proof -
  have "\<exists>x. gsoNoneChecksum inb inLen (csumStart hdr) (csumOffset hdr) = Some x"
    if "unat (csumStart hdr) + unat (csumOffset hdr) + 1 < inLen"
    using that assms(2)
    by (simp add: gsoNoneChecksum_def Let_def getBE16_Some wr8_def rdBlk_def putBE16_Some)
  then show ?thesis using assms(1) by (simp add: plainPacket_def)
qed

text \<open>
  A packet that needs no segmentation and is for a known peer leaves the host
  as one datagram: the packet as read, with its L4 checksum completed when the kernel asked
  for that.
\<close>

lemma tunStep_plain:
  assumes ct: "connTableOk I ct" and sc: "tunScratchOk sc" and rd: "tunReads os h fd sc data"
    and len: "VIRTIO_NET_HDR_LEN + 20 \<le> length data" and hdr: "decodeVirtioNetHdr data = Some hdr"
    and inb: "inb = innerOf sc data" "inLen = length data - VIRTIO_NET_HDR_LEN"
    and none: "gsoType hdr = VIRTIO_NET_HDR_GSO_NONE" and x: "plainPacket inb inLen hdr = Some x"
    and to: "dstFromIPv4 inb inLen = Some (Some v)" "ctLookup I ct v = Some c"
  shows "\<exists>ct' sc' es. tunStep os I fd (ct, sc, h) = Some (ct', sc', h @ es) \<and>
    connTableOk I ct' \<and> tunScratchOk sc' \<and> wireOf es = [take inLen x]"
proof -
  let ?sc1 = "sc\<lparr>tsReadBuf := data @ drop (length data) (tsReadBuf sc)\<rparr>"
  let ?h1 = "h @ [ReadFd fd (length (tsReadBuf sc))]"
  let ?sc2 = "?sc1\<lparr>tsReadBuf := take VIRTIO_NET_HDR_LEN (tsReadBuf ?sc1) @ x\<rparr>"
  have sc1: "tunScratchOk ?sc1" using readBuf_length [OF rd sc] .
  have lx: "length x = READ_SIZE - VIRTIO_NET_HDR_LEN"
    using plainPacket_length [OF x] innerOf_length [OF rd sc] inb(1) by simp
  have "length data \<le> READ_SIZE"
    using rd sc by (simp add: tunReads_def tunScratchOk_def Let_def)
  then have pkt: "rdBlk x 0 inLen = Some (take inLen x)"
    using lx inb(2) by (simp add: rdBlk_def)
  obtain ct' es where snd: "sendOne os c (take inLen x) ct ?h1 = Some (ct', ?h1 @ es)"
      "connTableOk I ct'" "wireOf es = [take inLen x]"
    using sendOne_eq [OF ct to(2)] by blast
  have "tunPacket os I hdr inLen (ct, ?sc1, ?h1) = Some (ct', ?sc2, ?h1 @ es)"
  proof (rule tunPacket_plain)
    show "dstFromIPv4 (drop VIRTIO_NET_HDR_LEN (tsReadBuf ?sc1)) inLen = Some (Some v)"
      "plainPacket (drop VIRTIO_NET_HDR_LEN (tsReadBuf ?sc1)) inLen hdr = Some x"
      using to(1) x unfolding inb(1) innerOf_def by (simp_all del: drop_append)
  qed (fact to(2) none pkt snd(1))+
  then have "tunStep os I fd (ct, sc, h) = Some (ct', ?sc2, ?h1 @ es)"
    by (simp only: tunStep_reads [OF rd len hdr] inb(2))
  moreover have "tunScratchOk ?sc2"
    using sc1 lx len by (simp add: tunScratchOk_def VIRTIO_NET_HDR_LEN_def READ_SIZE_def)
  ultimately show ?thesis
    using snd(2,3)
    by (intro exI [of _ ct'] exI [of _ ?sc2] exI [of _ "ReadFd fd (length (tsReadBuf sc)) # es"]) simp
qed

section \<open>Safety of every round\<close>

text \<open>
  What the kernel promises of the virtio header: the checksum field lies in the packet, and
  a TCP super-packet has the shape \<open>gsoOk\<close>. The last conjunct is what the configuration
  must provide: segments that fit the buffers of the scratch memory.
\<close>

definition hdrOk :: "bytes \<Rightarrow> nat \<Rightarrow> virtio_net_hdr \<Rightarrow> bool" where
  "hdrOk inb inLen hdr \<longleftrightarrow>
     (gsoType hdr = VIRTIO_NET_HDR_GSO_NONE \<and> flags hdr AND VIRTIO_NET_HDR_F_NEEDS_CSUM \<noteq> 0 \<longrightarrow>
        unat (csumStart hdr) + unat (csumOffset hdr) + 1 < inLen) \<and>
     (gsoType hdr = VIRTIO_NET_HDR_GSO_TCPV4 \<longrightarrow>
        gsoOk inb inLen hdr \<and> unat (hdrLen hdr) + unat (gsoSize hdr) \<le> SEG_SIZE)"

lemma length_gsoSeg:
  "gsoOk inb inLen hdr \<Longrightarrow> j < segCount inLen hdr \<Longrightarrow>
   length (gsoSeg inb inLen hdr j) = segLen inLen hdr j"
  using length_segOf [OF gsoShape_clean, of inb inLen hdr inLen j] by (simp add: gsoSeg_def gsoOk_def)

lemma split_keeps:
  assumes ok: "gsoOk inb inLen hdr" and room: "unat (hdrLen hdr) + unat (gsoSize hdr) \<le> SEG_SIZE"
    and sc: "tunScratchOk sc" and rb: "length rb = READ_SIZE"
  shows "\<exists>out. gsoSplit inb inLen hdr (tsSegs sc) MAX_SEGS =
      Some (if segCount inLen hdr \<le> MAX_SEGS then int (segCount inLen hdr) else -1, cleanIn inb hdr, out) \<and>
    tunScratchOk (sc\<lparr>tsReadBuf := rb, tsSegs := out\<rparr>)"
proof -
  let ?n = "min (segCount inLen hdr) MAX_SEGS"
  have s: "length (outBufs (tsSegs sc)) = MAX_SEGS" "length (outSizes (tsSegs sc)) = MAX_SEGS"
      "\<forall>b\<in>set (outBufs (tsSegs sc)). length b = SEG_SIZE"
    using sc by (auto simp: tunScratchOk_def list_all_iff)
  have fits: "gsoFits hdr (tsSegs sc) MAX_SEGS" using s room by (auto simp: gsoFits_def list_all_iff)
  obtain out where out: "gsoSplit inb inLen hdr (tsSegs sc) MAX_SEGS =
        Some (if segCount inLen hdr \<le> MAX_SEGS then int (segCount inLen hdr) else -1, cleanIn inb hdr, out)"
      "filled (gsoSeg inb inLen hdr) 0 ?n (tsSegs sc) out"
    using gsoSplit_run [OF ok fits] by auto
  have g: "0 < unat (gsoSize hdr)" using ok by (simp add: gsoOk_def)
  have "length (outBufs out ! j) = SEG_SIZE" if j: "j < MAX_SEGS" for j
  proof (cases "j < ?n")
    case True
    then have "length (gsoSeg inb inLen hdr j) \<le> SEG_SIZE"
      using length_gsoSeg [OF ok, of j] segLen_le [OF g, of j inLen] room by simp
    moreover have "outBufs out ! j = gsoSeg inb inLen hdr j @ drop (length (gsoSeg inb inLen hdr j)) (outBufs (tsSegs sc) ! j)"
      using out(2) True by (simp add: filled_def)
    ultimately show ?thesis using s(1,3) j by simp
  next
    case False
    then show ?thesis using out(2) s(1,3) j by (simp add: filled_def)
  qed
  moreover have "length (outBufs out) = MAX_SEGS" "length (outSizes out) = MAX_SEGS"
    using out(2) s by (auto simp: filled_def)
  ultimately show ?thesis using out(1) sc rb by (auto simp: tunScratchOk_def list_all_length)
qed

lemma tunStep_failed:
  assumes "osRes os h (ReadFd fd (length (tsReadBuf sc))) < 0"
  shows "\<exists>es. tunStep os I fd (ct, sc, h) = Some (ct, sc, h @ es) \<and> wireOf es = []"
  using assms by (simp add: tunStep_def Let_def)

text \<open>Everything a round does behind the read, when a peer is known.\<close>

lemma tunStep_known:
  assumes ct: "connTableOk I ct" and sc: "tunScratchOk sc" and rd: "tunReads os h fd sc data"
    and len: "VIRTIO_NET_HDR_LEN + 20 \<le> length data" and hdr: "decodeVirtioNetHdr data = Some hdr"
    and inb: "inb = innerOf sc data" "inLen = length data - VIRTIO_NET_HDR_LEN"
    and ok: "hdrOk inb inLen hdr"
    and to: "dstFromIPv4 inb inLen = Some (Some v)" "ctLookup I ct v = Some c"
  shows "\<exists>ct' sc' es. tunStep os I fd (ct, sc, h) = Some (ct', sc', h @ es) \<and>
    connTableOk I ct' \<and> tunScratchOk sc'"
proof -
  let ?sc1 = "sc\<lparr>tsReadBuf := data @ drop (length data) (tsReadBuf sc)\<rparr>"
  let ?h1 = "h @ [ReadFd fd (length (tsReadBuf sc))]"
  have sc1: "tunScratchOk ?sc1" using readBuf_length [OF rd sc] .
  have linb: "length inb = READ_SIZE - VIRTIO_NET_HDR_LEN" using innerOf_length [OF rd sc] inb(1) by simp
  have dn: "drop VIRTIO_NET_HDR_LEN (tsReadBuf ?sc1) = inb" by (simp add: inb(1) innerOf_def)
  consider (none) "gsoType hdr = VIRTIO_NET_HDR_GSO_NONE" | (tcp) "gsoType hdr = VIRTIO_NET_HDR_GSO_TCPV4"
    | (other) "gsoType hdr \<noteq> VIRTIO_NET_HDR_GSO_NONE" "gsoType hdr \<noteq> VIRTIO_NET_HDR_GSO_TCPV4"
    by blast
  then show ?thesis
  proof cases
    case none
    have "length data \<le> READ_SIZE" using rd sc by (simp add: tunReads_def tunScratchOk_def Let_def)
    then have "inLen \<le> length inb" using inb(2) linb by (simp add: diff_le_mono)
    then obtain x where "plainPacket inb inLen hdr = Some x"
      using plainPacket_total [of hdr inLen inb] ok none by (auto simp: hdrOk_def)
    from tunStep_plain [OF ct sc rd len hdr inb none this to] show ?thesis by blast
  next
    case tcp
    then have g: "gsoOk inb inLen hdr" "unat (hdrLen hdr) + unat (gsoSize hdr) \<le> SEG_SIZE"
      using ok by (auto simp: hdrOk_def)
    show ?thesis
    proof (cases "segCount inLen hdr \<le> MAX_SEGS")
      case True
      from tunStep_gso_run [OF ct sc rd len hdr inb g True to] show ?thesis by blast
    next
      case False
      let ?rb = "take VIRTIO_NET_HDR_LEN (tsReadBuf ?sc1) @ cleanIn inb hdr"
      have "length ?rb = READ_SIZE"
        using linb sc1 len by (simp add: tunScratchOk_def VIRTIO_NET_HDR_LEN_def READ_SIZE_def)
      then obtain out where out: "gsoSplit inb inLen hdr (tsSegs ?sc1) MAX_SEGS = Some (-1, cleanIn inb hdr, out)"
          "tunScratchOk (?sc1\<lparr>tsReadBuf := ?rb, tsSegs := out\<rparr>)"
        using split_keeps [OF g sc1, of ?rb] False by auto
      have "tunPacket os I hdr inLen (ct, ?sc1, ?h1) = Some (ct, ?sc1\<lparr>tsReadBuf := ?rb, tsSegs := out\<rparr>,
          ?h1 @ [LogLine ''gofra: gsoSplit: too many segments / unsupported gso_type''])"
        using tunPacket_tcp [of ?sc1 inLen v I ct c hdr "-1" "cleanIn inb hdr" out os ?h1, unfolded dn,
            OF to tcp out(1)] by simp
      then have "tunStep os I fd (ct, sc, h) = Some (ct, ?sc1\<lparr>tsReadBuf := ?rb, tsSegs := out\<rparr>,
          ?h1 @ [LogLine ''gofra: gsoSplit: too many segments / unsupported gso_type''])"
        by (simp only: tunStep_reads [OF rd len hdr] inb(2))
      then show ?thesis using ct out(2) by simp
    qed
  next
    case other
    have "tunPacket os I hdr inLen (ct, ?sc1, ?h1) = Some (ct, ?sc1,
        ?h1 @ [LogLine ''gofra: tunReader: unsupported gso_type''])"
      using to other unfolding tunPacket_def Let_def prod.case dn by simp
    then have "tunStep os I fd (ct, sc, h) = Some (ct, ?sc1,
        ?h1 @ [LogLine ''gofra: tunReader: unsupported gso_type''])"
      by (simp only: tunStep_reads [OF rd len hdr] inb(2))
    then show ?thesis using ct sc1 by simp
  qed
qed

text \<open>
  Every round is memory safe and keeps the invariants of the table and of the
  scratch memory, whatever is read: a failed read, a short packet, a packet that is not
  IPv4 or for no peer, an unknown GSO type or too many segments cost a log line at most.
  Datagrams leave the host only for a packet whose destination is a known peer.
\<close>

lemma tunStep_safe:
  assumes ct: "connTableOk I ct" and sc: "tunScratchOk sc"
    and rd: "osRes os h (ReadFd fd READ_SIZE) < 0 \<or> tunReads os h fd sc data"
    and ok: "\<And>hdr. decodeVirtioNetHdr data = Some hdr \<Longrightarrow>
      hdrOk (innerOf sc data) (length data - VIRTIO_NET_HDR_LEN) hdr"
  shows "\<exists>ct' sc' es. tunStep os I fd (ct, sc, h) = Some (ct', sc', h @ es) \<and>
    connTableOk I ct' \<and> tunScratchOk sc' \<and>
    (wireOf es \<noteq> [] \<longrightarrow> 0 \<le> osRes os h (ReadFd fd READ_SIZE) \<and>
      (\<exists>v c. dstFromIPv4 (innerOf sc data) (length data - VIRTIO_NET_HDR_LEN) = Some (Some v) \<and>
         ctLookup I ct v = Some c))"
proof (cases "osRes os h (ReadFd fd READ_SIZE) < 0")
  case True
  then have "osRes os h (ReadFd fd (length (tsReadBuf sc))) < 0" using sc by (simp add: tunScratchOk_def)
  from tunStep_failed [OF this, of I ct] ct sc show ?thesis by auto
next
  case False
  then have rd: "tunReads os h fd sc data" using rd by simp
  let ?sc1 = "sc\<lparr>tsReadBuf := data @ drop (length data) (tsReadBuf sc)\<rparr>"
  let ?h1 = "h @ [ReadFd fd (length (tsReadBuf sc))]" and ?n = "length data - VIRTIO_NET_HDR_LEN"
  have sc1: "tunScratchOk ?sc1" using readBuf_length [OF rd sc] .
  show ?thesis
  proof (cases "length data < VIRTIO_NET_HDR_LEN + 20")
    case True
    from tunStep_short [OF rd this, of I ct] ct sc1 show ?thesis by simp
  next
    case False
    then have len: "VIRTIO_NET_HDR_LEN + 20 \<le> length data" by simp
    then obtain hdr where hdr: "decodeVirtioNetHdr data = Some hdr"
      by (simp add: decodeVirtioNetHdr_def rdBlk_def)
    have "length data \<le> READ_SIZE" using rd sc by (simp add: tunReads_def tunScratchOk_def Let_def)
    then have "?n \<le> length (innerOf sc data)" using innerOf_length [OF rd sc] by (simp add: diff_le_mono)
    from dstFromIPv4_eq [OF this] obtain d where d: "dstFromIPv4 (innerOf sc data) ?n = Some d" by blast
    show ?thesis
    proof (cases "\<exists>v c. d = Some v \<and> ctLookup I ct v = Some c")
      case True
      then obtain v c where vc: "d = Some v" "ctLookup I ct v = Some c" by blast
      from tunStep_known [OF ct sc rd len hdr refl refl ok [OF hdr] _ vc(2)] d vc False
      show ?thesis using \<open>\<not> osRes os h (ReadFd fd READ_SIZE) < 0\<close> by fastforce
    next
      case False
      have "tunPacket os I hdr ?n (ct, ?sc1, ?h1) = Some (ct, ?sc1, ?h1)"
        using d False by (intro tunPacket_unknown) (auto simp: innerOf_def)
      then have "tunStep os I fd (ct, sc, h) = Some (ct, ?sc1, ?h1)"
        by (simp only: tunStep_reads [OF rd len hdr])
      then show ?thesis using ct sc1 by simp
    qed
  qed
qed

section \<open>A concrete run\<close>

text \<open>One peer, 10.0.0.2, with one slot; the packet is the super-packet of the examples.\<close>

definition exCt :: "(u64 \<Rightarrow> nat option) conn_table" where
  "exCt = \<lparr>ctTimeoutMs = 50, ctSrcFds = [5],
     ctConns = [\<lparr>connVip = 0x0A000002, connTimeoutMs = 50, connSlots = [0], connRr = 0\<rparr>],
     ctSlots = [\<lparr>slotSrcAddr = Sin 7 1, slotSrcFd = 5, slotSrcIdx = 0, slotDstAddr = Sin 7 2,
                 slotLastSeen = 5000\<rparr>],
     ctByVip = [0x0A000002 \<mapsto> 0], ctByEntry = [entryKey 0 (Sin 7 2) \<mapsto> 0]\<rparr>"

lemma exCt_lookup: "ctLookup exMap exCt 0x0A000002 = Some 0"
  by (simp add: ctLookup_def exCt_def exMap_def)

lemma connTableOk_exCt: "connTableOk exMap exCt"
proof -
  have "ucast (v :: u32) = (0x0A000002 :: u64) \<longleftrightarrow> v = 0x0A000002" for v
    using ucast_u64_eq [of v "0x0A000002"] by simp
  then have "vipsOk exMap exCt"
    by (auto simp: vipsOk_def ctLookup_def exCt_def exMap_def lastIndex_def)
  moreover have "entriesOk exMap exCt"
    by (auto simp: entriesOk_def exCt_def exMap_def lastIndex_def slotKey_def)
  ultimately show ?thesis by (simp add: connTableOk_def connOk_def exCt_def)
qed

lemma tunScratchOk_make: "tunScratchOk makeTunReaderScratch"
  by (simp add: tunScratchOk_def makeTunReaderScratch_def list_all_length)

definition exVnet :: "u8 \<Rightarrow> bytes" where
  "exVnet t = [1, t, 40, 0, 8, 0, 20, 0, 16, 0]"

definition exRead :: "u8 \<Rightarrow> os" where
  "exRead t = exOs\<lparr>osRes := (\<lambda>h e. case e of ReadFd _ _ \<Rightarrow> 69 | _ \<Rightarrow> 0),
     osRead := (\<lambda>_. exVnet t @ exPkt)\<rparr>"

lemma exVnet_decode: "decodeVirtioNetHdr (exVnet t @ exPkt) = Some (exHdr\<lparr>gsoType := t\<rparr>)"
  by (simp add: decodeVirtioNetHdr_def rdBlk_def VIRTIO_NET_HDR_LEN_def exVnet_def exHdr_def
      loadU16_def word_unat_eq_iff)

lemma exTunReads: "tunReads (exRead t) [] 7 makeTunReaderScratch (exVnet t @ exPkt)"
  by (simp add: tunReads_def exRead_def makeTunReaderScratch_def READ_SIZE_def Let_def exVnet_def exPkt_def)

definition exInner :: bytes where
  "exInner = exPkt @ replicate (READ_SIZE - 69) 0"

lemma exInner_eq: "innerOf makeTunReaderScratch (exVnet t @ exPkt) = exInner"
  by (simp add: innerOf_def makeTunReaderScratch_def VIRTIO_NET_HDR_LEN_def exVnet_def exInner_def exPkt_def)

lemma exInner_len: "length (exVnet t @ exPkt) - VIRTIO_NET_HDR_LEN = 59"
  by (simp add: exVnet_def exPkt_def VIRTIO_NET_HDR_LEN_def)

lemma exInner_ok: "gsoOk exInner 59 exHdr"
  using exOk by (auto simp: gsoOk_def exInner_def)

lemma exInner_dst: "dstFromIPv4 exInner 59 = Some (Some 0x0A000002)"
  by (simp add: dstFromIPv4_def rd8_def exInner_def exPkt_def nth_append word_unat_eq_iff)

theorem tunStep_gso_witness:
  "\<exists>ct' sc' es. tunStep (exRead 1) exMap 7 (exCt, makeTunReaderScratch, []) = Some (ct', sc', es) \<and>
     wireOf es = map (gsoSeg exInner 59 exHdr) [0..<3]"
proof -
  have "decodeVirtioNetHdr (exVnet 1 @ exPkt) = Some exHdr"
    using exVnet_decode [of 1] by (simp add: exHdr_def)
  moreover have "VIRTIO_NET_HDR_LEN + 20 \<le> length (exVnet 1 @ exPkt)"
    by (simp add: VIRTIO_NET_HDR_LEN_def exVnet_def exPkt_def)
  moreover have "unat (hdrLen exHdr) + unat (gsoSize exHdr) \<le> SEG_SIZE"
    by (simp add: exHdr_def SEG_SIZE_def)
  moreover have "segCount 59 exHdr \<le> MAX_SEGS" by (simp add: exCount MAX_SEGS_def)
  ultimately have "\<exists>ct' sc' es. tunStep (exRead 1) exMap 7 (exCt, makeTunReaderScratch, []) =
      Some (ct', sc', [] @ es) \<and> connTableOk exMap ct' \<and> tunScratchOk sc' \<and>
      wireOf es = map (gsoSeg exInner 59 exHdr) [0..<segCount 59 exHdr] \<and> length (sentMsgs es) \<le> 8"
    using tunStep_gso [OF connTableOk_exCt tunScratchOk_make exTunReads _ _
      exInner_eq [symmetric] exInner_len [symmetric] exInner_ok _ _ exInner_dst exCt_lookup] by blast
  then show ?thesis unfolding exCount by auto
qed

lemma tunStep_plain_witness:
  "\<exists>x ct' sc' es. plainPacket exInner 59 (exHdr\<lparr>gsoType := 0\<rparr>) = Some x \<and>
     tunStep (exRead 0) exMap 7 (exCt, makeTunReaderScratch, []) = Some (ct', sc', es) \<and>
     wireOf es = [take 59 x]"
proof -
  have "59 \<le> length exInner" by (simp add: exInner_def exPkt_def)
  then obtain x where x: "plainPacket exInner 59 (exHdr\<lparr>gsoType := 0\<rparr>) = Some x"
    using plainPacket_total [of "exHdr\<lparr>gsoType := 0\<rparr>" 59 exInner] by (auto simp: exHdr_def)
  from tunStep_plain [OF connTableOk_exCt tunScratchOk_make exTunReads _ exVnet_decode
      exInner_eq [symmetric] exInner_len [symmetric] _ x exInner_dst exCt_lookup]
  show ?thesis
    using x by (simp add: VIRTIO_NET_HDR_LEN_def exVnet_def exPkt_def VIRTIO_NET_HDR_GSO_NONE_def) blast
qed

lemma tunStep_safe_witness:
  "\<exists>ct' sc' es. tunStep (exRead 4) exMap 7 (exCt, makeTunReaderScratch, []) = Some (ct', sc', es) \<and>
     connTableOk exMap ct' \<and> tunScratchOk sc'"
proof -
  have "hdrOk (innerOf makeTunReaderScratch (exVnet 4 @ exPkt))
      (length (exVnet 4 @ exPkt) - VIRTIO_NET_HDR_LEN) hdr"
    if "decodeVirtioNetHdr (exVnet 4 @ exPkt) = Some hdr" for hdr
    using that exVnet_decode [of 4]
    by (auto simp: hdrOk_def VIRTIO_NET_HDR_GSO_NONE_def VIRTIO_NET_HDR_GSO_TCPV4_def)
  from tunStep_safe [OF connTableOk_exCt tunScratchOk_make disjI2 [OF exTunReads] this]
  show ?thesis by fastforce
qed

end
