(* ===== verification/PlaneRx.thy ===== *)
theory PlaneRx
  imports PlaneTx
begin

text \<open>
  What the UDP reader writes to the TUN queue, what it keeps of its scratch memory from one
  batch to the next, and which slots it marks as seen.
\<close>

section \<open>Packets written\<close>

text \<open>The packets written to the TUN queue by a run, with their virtio headers.\<close>

fun tunWrites :: "ev list \<Rightarrow> bytes list" where
  "tunWrites [] = []"
| "tunWrites (WriteFd fd x # es) = x # tunWrites es"
| "tunWrites (WriteV fd xs # es) = concat xs # tunWrites es"
| "tunWrites (_ # es) = tunWrites es"

lemma tunWrites_append [simp]: "tunWrites (xs @ ys) = tunWrites xs @ tunWrites ys"
  by (induction xs rule: tunWrites.induct) auto

lemma callWarn_writes: "\<exists>ws. callWarn os h e what = h @ e # ws \<and> tunWrites ws = []"
  by (auto simp: callWarn_def)

text \<open>
  The packets in a received message: none if it is too short (a probe), the datagrams it
  was coalesced from if the kernel gives their size, otherwise its data.
\<close>

definition rxPackets :: "rx \<Rightarrow> bytes list" where
  "rxPackets r =
     (if length (rxData r) < 20 then []
      else case groSize (rxCmsgs r) of
        None \<Rightarrow> []
      | Some g \<Rightarrow> if 0 < sint g \<and> unat g < length (rxData r) then chunks (unat g) (rxData r)
                  else [rxData r])"

definition zeros :: bytes where "zeros = replicate VIRTIO_NET_HDR_LEN 0"

lemma length_zeros [simp]: "length zeros = VIRTIO_NET_HDR_LEN"
  by (simp add: zeros_def)

lemma splitLoop_run:
  assumes buf: "buf = zeros @ data @ rest" and n: "length data < 2 ^ 32" and g: "0 < unat g"
  shows "unat off \<le> length data \<Longrightarrow>
    \<exists>es. splitLoop os fd z buf g (of_nat (length data)) off h = Some (h @ es) \<and>
      tunWrites es = map (\<lambda>p. z @ p) (chunks (unat g) (drop (unat off) data))"
proof (induction "length data - unat off" arbitrary: off h rule: less_induct)
  case less
  let ?n = "of_nat (length data) :: u32"
  have un: "unat ?n = length data" using n by (simp add: unat_of_nat)
  show ?case
  proof (cases "unat off < length data")
    case False
    then show ?thesis
      using un by (subst splitLoop.simps) (auto simp: word_less_nat_alt)
  next
    case True
    let ?c = "chunkLen g ?n off"
    have sub: "unat (?n - off) = length data - unat off"
      using True un by (simp add: unat_sub_if_size)
    have c: "unat ?c = min (unat g) (length data - unat off)"
      using sub by (auto simp: chunkLen_def word_less_nat_alt)
    have "unat off < 2 ^ 32" using unsigned_less [of off] by simp
    moreover have "unat off + unat ?c \<le> length data" using c True by simp
    ultimately have off': "unat (off + ?c) = unat off + unat ?c"
      using n by (simp add: unat_word_ariths)
    have rd: "rdBlk buf (VIRTIO_NET_HDR_LEN + unat off) (unat ?c) = Some (take (unat g) (drop (unat off) data))"
    proof (cases "unat g \<le> length data - unat off")
      case True
      then have "unat off + unat g \<le> length data" using \<open>unat off < length data\<close> by simp
      then show ?thesis using c by (simp add: rdBlk_def buf)
    next
      case False
      then show ?thesis using c \<open>unat off < length data\<close> by (simp add: rdBlk_def buf)
    qed
    obtain ws where ws: "callWarn os h (WriteV fd [z, take (unat g) (drop (unat off) data)]) ''tun writev''
        = h @ WriteV fd [z, take (unat g) (drop (unat off) data)] # ws" "tunWrites ws = []"
      using callWarn_writes by blast
    have "length data - unat (off + ?c) < length data - unat off" "unat (off + ?c) \<le> length data"
      using off' c g True by auto
    from less.hyps [OF this] obtain es where
      es: "splitLoop os fd z buf g ?n (off + ?c) (h @ WriteV fd [z, take (unat g) (drop (unat off) data)] # ws)
          = Some ((h @ WriteV fd [z, take (unat g) (drop (unat off) data)] # ws) @ es)"
        "tunWrites es = map (\<lambda>p. z @ p) (chunks (unat g) (drop (unat (off + ?c)) data))"
      by blast
    have "drop (unat (off + ?c)) data = drop (unat g) (drop (unat off) data)"
      using off' c by (auto simp: min_def add.commute)
    moreover have "chunks (unat g) (drop (unat off) data) =
        take (unat g) (drop (unat off) data) # chunks (unat g) (drop (unat g) (drop (unat off) data))"
      using True g by (subst chunks.simps) simp
    ultimately show ?thesis
      using True un es ws by (subst splitLoop.simps) (simp add: word_less_nat_alt rd)
  qed
qed

section \<open>Scratch memory between batches\<close>

definition msgFresh :: "udp_msg \<Rightarrow> bool" where
  "msgFresh m \<longleftrightarrow> msgNamelen m = SOCKADDR_STORAGE_LEN \<and> msgControllen m = CBUF_LEN"

definition bufOk :: "bytes \<Rightarrow> bool" where
  "bufOk b \<longleftrightarrow> length b = MSG_SIZE \<and> take VIRTIO_NET_HDR_LEN b = zeros"

definition udpScratchOk :: "udp_scratch \<Rightarrow> bool" where
  "udpScratchOk sc \<longleftrightarrow> length (usMsgs sc) = BATCH \<and> length (usBufs sc) = BATCH \<and>
     list_all msgFresh (usMsgs sc) \<and> list_all bufOk (usBufs sc) \<and> usZeroHdr sc = zeros"

text \<open>What the kernel promises of a message it delivers.\<close>

definition rxOk :: "rx \<Rightarrow> bool" where
  "rxOk r \<longleftrightarrow> rxNamelen r \<le> SOCKADDR_STORAGE_LEN \<and> rxControllen r \<le> CBUF_LEN \<and>
     length (rxData r) \<le> 65536 \<and> groSize (rxCmsgs r) \<noteq> None"

definition delivered :: "rx \<Rightarrow> udp_msg \<Rightarrow> bytes \<Rightarrow> bool" where
  "delivered r m b \<longleftrightarrow> msgFrom m = rxFrom r \<and> msgCmsgs m = rxCmsgs r \<and>
     msgLen m = of_nat (length (rxData r)) \<and>
     (\<exists>rest. b = zeros @ rxData r @ rest) \<and> length b = MSG_SIZE"

lemma deliver_ok:
  assumes "rxOk r" and "msgFresh m" and "bufOk b"
  shows "\<exists>m' b'. deliver r m b = Some (m', b') \<and> delivered r m' b' \<and> bufOk b'"
proof -
  have b: "b = zeros @ drop VIRTIO_NET_HDR_LEN b" "length b = MSG_SIZE"
    using assms(3) append_take_drop_id [of VIRTIO_NET_HDR_LEN b] by (auto simp: bufOk_def)
  have "wrBlk b VIRTIO_NET_HDR_LEN (rxData r) = Some (splice b VIRTIO_NET_HDR_LEN (rxData r))"
    using assms(1) b(2) by (simp add: wrBlk_def rxOk_def MSG_SIZE_def VIRTIO_NET_HDR_LEN_def)
  moreover have "splice b VIRTIO_NET_HDR_LEN (rxData r)
      = zeros @ rxData r @ drop (VIRTIO_NET_HDR_LEN + length (rxData r)) b"
    using assms(3) by (simp add: splice_def bufOk_def)
  moreover have "length (splice b VIRTIO_NET_HDR_LEN (rxData r)) = MSG_SIZE"
    using assms(1) b(2) by (simp add: splice_def rxOk_def MSG_SIZE_def VIRTIO_NET_HDR_LEN_def)
  ultimately show ?thesis
    using assms(1,2) by (auto simp: deliver_def delivered_def rxOk_def msgFresh_def bufOk_def)
qed

text \<open>After delivery: the messages up to \<open>i\<close> are handled, the others still hold the batch.\<close>

definition batchFrom :: "nat \<Rightarrow> rx list \<Rightarrow> udp_scratch \<Rightarrow> bool" where
  "batchFrom i rs sc \<longleftrightarrow> length (usMsgs sc) = BATCH \<and> length (usBufs sc) = BATCH \<and>
     usZeroHdr sc = zeros \<and> list_all bufOk (usBufs sc) \<and>
     (\<forall>j<BATCH. if i \<le> j \<and> j < length rs then delivered (rs ! j) (usMsgs sc ! j) (usBufs sc ! j)
                else msgFresh (usMsgs sc ! j))"

lemma deliverAll_ok:
  assumes "length pre + length rs \<le> BATCH" and "list_all rxOk rs"
    and "length (usMsgs sc) = BATCH" "length (usBufs sc) = BATCH" "usZeroHdr sc = zeros"
    and "list_all bufOk (usBufs sc)"
    and "\<forall>j<BATCH. if j < length pre then delivered (pre ! j) (usMsgs sc ! j) (usBufs sc ! j)
           else msgFresh (usMsgs sc ! j)"
  shows "\<exists>sc'. deliverAll (length pre) rs sc = Some sc' \<and> batchFrom 0 (pre @ rs) sc'"
  using assms
proof (induction rs arbitrary: pre sc)
  case Nil
  then show ?case by (auto simp: batchFrom_def)
next
  case (Cons r rs)
  let ?i = "length pre"
  have i: "?i < BATCH" using Cons.prems(1) by simp
  have "msgFresh (usMsgs sc ! ?i)" "bufOk (usBufs sc ! ?i)"
    using Cons.prems i by (auto simp: list_all_length)
  then obtain m b where d: "deliver r (usMsgs sc ! ?i) (usBufs sc ! ?i) = Some (m, b)"
      "delivered r m b" "bufOk b"
    using deliver_ok [of r "usMsgs sc ! ?i" "usBufs sc ! ?i"] Cons.prems(2) by auto
  let ?sc = "sc\<lparr>usMsgs := (usMsgs sc)[?i := m], usBufs := (usBufs sc)[?i := b]\<rparr>"
  have "list_all bufOk (usBufs ?sc)" using Cons.prems(6) d(3) by (simp add: list_all_update)
  moreover have "\<forall>j<BATCH. if j < length (pre @ [r])
      then delivered ((pre @ [r]) ! j) (usMsgs ?sc ! j) (usBufs ?sc ! j) else msgFresh (usMsgs ?sc ! j)"
    using Cons.prems(3,4,7) d(2) i by (auto simp: nth_append nth_list_update less_Suc_eq)
  ultimately have "\<exists>sc'. deliverAll (length (pre @ [r])) rs ?sc = Some sc' \<and> batchFrom 0 ((pre @ [r]) @ rs) sc'"
    using Cons.prems by (intro Cons.IH) auto
  then show ?case using Cons.prems(3,4) i d(1) by simp
qed

section \<open>One message\<close>

text \<open>The table after the message: the slot of the sender is stamped.\<close>

definition stamp :: "'i int_ops \<Rightarrow> u32 \<Rightarrow> u64 \<Rightarrow> rx \<Rightarrow> 'i conn_table \<Rightarrow> 'i conn_table" where
  "stamp I srcIdx now r ct =
     (case ctLookupSlot I ct srcIdx (rxFrom r) of
        None \<Rightarrow> ct
      | Some p \<Rightarrow> ct\<lparr>ctSlots := (ctSlots ct)[p := (ctSlots ct ! p)\<lparr>slotLastSeen := now\<rparr>]\<rparr>)"

lemma stamp_ok:
  assumes ct: "connTableOk I ct"
  shows "(case ctLookupSlot I ct srcIdx (rxFrom r) of Some p \<Rightarrow> ctTouch ct p now | None \<Rightarrow> Some ct)
      = Some (stamp I srcIdx now r ct)"
    and "connTableOk I (stamp I srcIdx now r ct)"
proof -
  show "(case ctLookupSlot I ct srcIdx (rxFrom r) of Some p \<Rightarrow> ctTouch ct p now | None \<Rightarrow> Some ct)
      = Some (stamp I srcIdx now r ct)"
  proof (cases "ctLookupSlot I ct srcIdx (rxFrom r)")
    case (Some p)
    then obtain s where "ctSlot ct p = Some s" using cv.lookupSlot_slot [OF ct Some] by blast
    then show ?thesis
      using Some by (auto simp: ctTouch_def stamp_def ctSlot_def deref_def split: if_splits)
  qed (simp add: stamp_def)
  then show "connTableOk I (stamp I srcIdx now r ct)"
    using cv.seen_ready [OF ct, of srcIdx "rxFrom r" _ now] ct
    by (cases "ctLookupSlot I ct srcIdx (rxFrom r)") auto
qed

lemma udpMessage_ok:
  assumes ct: "connTableOk I ct" and sc: "batchFrom i rs sc" and i: "i < length rs" "length rs \<le> BATCH"
    and r: "rxOk (rs ! i)"
  shows "\<exists>sc' es. udpMessage os I fd srcIdx now i (ct, sc, h) =
      Some (stamp I srcIdx now (rs ! i) ct, sc', h @ es) \<and> batchFrom (Suc i) rs sc' \<and>
    tunWrites es = map (\<lambda>p. zeros @ p) (rxPackets (rs ! i))"
proof -
  let ?r = "rs ! i" and ?m = "usMsgs sc ! i" and ?b = "usBufs sc ! i"
  let ?sc = "sc\<lparr>usMsgs := (usMsgs sc)[i := ?m\<lparr>msgNamelen := SOCKADDR_STORAGE_LEN, msgControllen := CBUF_LEN\<rparr>]\<rparr>"
  have l: "i < length (usMsgs sc)" "i < length (usBufs sc)" "i < BATCH" "usZeroHdr sc = zeros"
    using sc i by (auto simp: batchFrom_def)
  have d: "delivered ?r ?m ?b" using sc i l(3) by (auto simp: batchFrom_def)
  then obtain rest where b: "?b = zeros @ rxData ?r @ rest" by (auto simp: delivered_def)
  obtain g where g: "groSize (rxCmsgs ?r) = Some g" using r by (auto simp: rxOk_def)
  have n: "length (rxData ?r) \<le> 65536" using r by (simp add: rxOk_def)
  then have un: "unat (msgLen ?m) = length (rxData ?r)" using d by (simp add: delivered_def unat_of_nat)
  have sc': "batchFrom (Suc i) rs ?sc"
    unfolding batchFrom_def
  proof (intro conjI allI impI)
    fix j
    assume "j < BATCH"
    then show "if Suc i \<le> j \<and> j < length rs then delivered (rs ! j) (usMsgs ?sc ! j) (usBufs ?sc ! j)
        else msgFresh (usMsgs ?sc ! j)"
      using sc l by (auto simp: batchFrom_def nth_list_update msgFresh_def dest: spec [of _ j])
  qed (use sc in \<open>auto simp: batchFrom_def\<close>)
  have small: "msgLen ?m < 20 \<longleftrightarrow> length (rxData ?r) < 20"
    using un by (simp add: word_less_nat_alt)
  have gso: "g < msgLen ?m \<longleftrightarrow> unat g < length (rxData ?r)" using un by (simp add: word_less_nat_alt)
  have head: "udpMessage os I fd srcIdx now i (ct, sc, h) =
      (if length (rxData ?r) < 20 then Some (stamp I srcIdx now ?r ct, ?sc, h)
       else if 0 < sint g \<and> unat g < length (rxData ?r)
       then do { h \<leftarrow> splitLoop os fd zeros ?b g (msgLen ?m) 0 h; Some (stamp I srcIdx now ?r ct, ?sc, h) }
       else do { x \<leftarrow> rdBlk ?b 0 (VIRTIO_NET_HDR_LEN + length (rxData ?r));
                 Some (stamp I srcIdx now ?r ct, ?sc, callWarn os h (WriteFd fd x) ''tun write'') })"
  proof -
    have "msgFrom ?m = rxFrom ?r" "msgCmsgs ?m = rxCmsgs ?r" using d by (simp_all add: delivered_def)
    then show ?thesis
      using stamp_ok(1) [OF ct, where srcIdx = srcIdx and r = ?r and now = now] l g
      by (simp add: udpMessage_def Let_def small gso un)
  qed
  consider (probe) "length (rxData ?r) < 20"
    | (gro) "20 \<le> length (rxData ?r)" "0 < sint g" "unat g < length (rxData ?r)"
    | (one) "20 \<le> length (rxData ?r)" "\<not> (0 < sint g \<and> unat g < length (rxData ?r))"
    by linarith
  then show ?thesis
  proof cases
    case probe
    then show ?thesis using head sc' by (auto simp: rxPackets_def)
  next
    case gro
    have "g \<noteq> 0" using gro(2) by auto
    then have "0 < unat g" by (simp add: unat_gt_0)
    moreover have "length (rxData ?r) < 2 ^ 32" using n by simp
    ultimately obtain es where es: "splitLoop os fd zeros ?b g (of_nat (length (rxData ?r))) 0 h = Some (h @ es)"
        "tunWrites es = map (\<lambda>p. zeros @ p) (chunks (unat g) (drop (unat (0 :: u32)) (rxData ?r)))"
      using splitLoop_run [OF b, of g 0 os fd zeros h] by auto
    have "msgLen ?m = of_nat (length (rxData ?r))" using d by (simp add: delivered_def)
    then show ?thesis
      using head sc' gro es g by (auto simp: rxPackets_def)
  next
    case one
    have rd: "rdBlk ?b 0 (VIRTIO_NET_HDR_LEN + length (rxData ?r)) = Some (zeros @ rxData ?r)"
      by (simp add: rdBlk_def b)
    obtain ws where ws: "callWarn os h (WriteFd fd (zeros @ rxData ?r)) ''tun write''
        = h @ WriteFd fd (zeros @ rxData ?r) # ws" "tunWrites ws = []" using callWarn_writes by blast
    have "rxPackets ?r = [rxData ?r]" using one g by (auto simp: rxPackets_def)
    then show ?thesis using head sc' one rd ws by auto
  qed
qed

section \<open>A batch\<close>

fun stampAll :: "'i int_ops \<Rightarrow> u32 \<Rightarrow> u64 \<Rightarrow> rx list \<Rightarrow> 'i conn_table \<Rightarrow> 'i conn_table" where
  "stampAll I srcIdx now [] ct = ct"
| "stampAll I srcIdx now (r # rs) ct = stampAll I srcIdx now rs (stamp I srcIdx now r ct)"

lemma udpMessages_ok:
  assumes "connTableOk I ct" and "batchFrom i rs sc" and "i \<le> length rs" and n: "length rs \<le> BATCH"
    and rx: "list_all rxOk rs"
  shows "\<exists>sc' es. udpMessages os I fd srcIdx now [i..<length rs] (ct, sc, h) =
      Some (stampAll I srcIdx now (drop i rs) ct, sc', h @ es) \<and> batchFrom (length rs) rs sc' \<and>
    connTableOk I (stampAll I srcIdx now (drop i rs) ct) \<and>
    tunWrites es = map (\<lambda>p. zeros @ p) (concat (map rxPackets (drop i rs)))"
  using assms(1-3)
proof (induction "length rs - i" arbitrary: i ct sc h)
  case 0
  then show ?case by simp
next
  case (Suc k)
  then have i: "i < length rs" by simp
  have k: "k = length rs - Suc i" using Suc.hyps(2) by simp
  have r: "rxOk (rs ! i)" using rx i by (simp add: list_all_length)
  obtain sc1 es1 where m: "udpMessage os I fd srcIdx now i (ct, sc, h) =
        Some (stamp I srcIdx now (rs ! i) ct, sc1, h @ es1)" "batchFrom (Suc i) rs sc1"
      "tunWrites es1 = map (\<lambda>p. zeros @ p) (rxPackets (rs ! i))"
    using udpMessage_ok [OF Suc.prems(1,2) i n r] by blast
  have dr: "drop i rs = rs ! i # drop (Suc i) rs" using i by (simp add: Cons_nth_drop_Suc)
  obtain sc' es where "udpMessages os I fd srcIdx now [Suc i..<length rs]
        (stamp I srcIdx now (rs ! i) ct, sc1, h @ es1) =
        Some (stampAll I srcIdx now (drop (Suc i) rs) (stamp I srcIdx now (rs ! i) ct), sc', (h @ es1) @ es)"
      "batchFrom (length rs) rs sc'"
      "connTableOk I (stampAll I srcIdx now (drop (Suc i) rs) (stamp I srcIdx now (rs ! i) ct))"
      "tunWrites es = map (\<lambda>p. zeros @ p) (concat (map rxPackets (drop (Suc i) rs)))"
    using Suc.hyps(1) [OF k stamp_ok(2) [OF Suc.prems(1)] m(2) Suc_leI [OF i], of srcIdx now "rs ! i" "h @ es1"]
    by blast
  then show ?case
    using m(1,3) i by (auto simp: dr upt_conv_Cons)
qed

lemma batch_done: "batchFrom (length rs) rs sc \<Longrightarrow> udpScratchOk sc"
  by (auto simp: batchFrom_def udpScratchOk_def list_all_length)

text \<open>The kernel returns the messages \<open>rs\<close>.\<close>

definition udpReceives :: "os \<Rightarrow> ev list \<Rightarrow> int \<Rightarrow> rx list \<Rightarrow> bool" where
  "udpReceives os h fd rs \<longleftrightarrow> osRes os h (RecvMMsg fd BATCH) = int (length rs) \<and>
     osRecv os (h @ [RecvMMsg fd BATCH]) = rs \<and> length rs \<le> BATCH \<and> list_all rxOk rs"

lemma udpStep_run:
  assumes ct: "connTableOk I ct" and sc: "udpScratchOk sc" and rx: "udpReceives os h fd rs"
  shows "\<exists>sc' es now. now = fst (nowMs os (h @ [RecvMMsg fd BATCH])) \<and>
    udpStep os I fd tunFd srcIdx (ct, sc, h) = Some (stampAll I srcIdx now rs ct, sc', h @ es) \<and>
    udpScratchOk sc' \<and> connTableOk I (stampAll I srcIdx now rs ct) \<and>
    tunWrites es = map (\<lambda>p. zeros @ p) (concat (map rxPackets rs))"
proof -
  let ?h = "h @ [RecvMMsg fd BATCH]"
  have n: "length rs \<le> BATCH" and ok: "list_all rxOk rs" using rx by (auto simp: udpReceives_def)
  obtain sc1 where sc1: "deliverAll 0 rs sc = Some sc1" "batchFrom 0 rs sc1"
    using deliverAll_ok [of "[]" rs sc] sc n ok by (auto simp: udpScratchOk_def list_all_length)
  obtain now where nm: "nowMs os ?h = (now, ?h @ [Clock])" using nowMs_pair by blast
  obtain sc' es where run: "udpMessages os I tunFd srcIdx now [0..<length rs] (ct, sc1, ?h @ [Clock]) =
        Some (stampAll I srcIdx now rs ct, sc', (?h @ [Clock]) @ es)"
      "batchFrom (length rs) rs sc'" "connTableOk I (stampAll I srcIdx now rs ct)"
      "tunWrites es = map (\<lambda>p. zeros @ p) (concat (map rxPackets rs))"
    using udpMessages_ok [OF ct sc1(2) le0 n ok, of os tunFd srcIdx now "?h @ [Clock]", unfolded drop_0]
    by (elim exE conjE) (rule that; assumption)
  have "udpStep os I fd tunFd srcIdx (ct, sc, h) =
      udpMessages os I tunFd srcIdx now [0..<length rs] (ct, sc1, ?h @ [Clock])"
    using rx sc1(1) by (simp add: udpStep_def udpReceives_def Let_def nm)
  then have "udpStep os I fd tunFd srcIdx (ct, sc, h) = Some (stampAll I srcIdx now rs ct, sc',
      h @ RecvMMsg fd BATCH # Clock # es)"
    using run(1) by simp
  moreover have "tunWrites (RecvMMsg fd BATCH # Clock # es) = map (\<lambda>p. zeros @ p) (concat (map rxPackets rs))"
    using run(4) by simp
  moreover have "now = fst (nowMs os ?h)" by (simp add: nm)
  ultimately show ?thesis using run(3) batch_done [OF run(2)] by blast
qed

text \<open>
  Property C9. A round of the UDP reader is memory safe and writes to the TUN queue exactly
  the packets of the messages received, in order, each with a zero virtio header: nothing for
  a probe, the coalesced datagrams cut apart at the size the kernel reported, any other
  message whole. The scratch memory is as good as new for the next round: every address and
  control length is reset and no header byte has been overwritten.
\<close>

theorem udpStep_packets:
  assumes "connTableOk I ct" and "udpScratchOk sc" and "udpReceives os h fd rs"
  shows "\<exists>ct' sc' es. udpStep os I fd tunFd srcIdx (ct, sc, h) = Some (ct', sc', h @ es) \<and>
    tunWrites es = map (\<lambda>p. replicate 10 0 @ p) (concat (map rxPackets rs)) \<and>
    udpScratchOk sc' \<and> connTableOk I ct'"
  using udpStep_run [OF assms, of tunFd srcIdx] unfolding zeros_def VIRTIO_NET_HDR_LEN_def by blast

text \<open>What a batch does to the slots.\<close>

lemma stamp_slots:
  assumes ct: "connTableOk I ct" and p: "p < length (ctSlots ct)"
  shows "ctSlots (stamp I srcIdx now r ct) ! p =
    (if ctLookupSlot I ct srcIdx (rxFrom r) = Some p then (ctSlots ct ! p)\<lparr>slotLastSeen := now\<rparr>
     else ctSlots ct ! p)"
  using p by (auto simp: stamp_def nth_list_update split: option.splits)

lemma stamp_lookup [simp]:
  "ctLookupSlot I (stamp I srcIdx now r ct) = ctLookupSlot I ct"
  "length (ctSlots (stamp I srcIdx now r ct)) = length (ctSlots ct)"
  by (auto simp: stamp_def ctLookupSlot_def fun_eq_iff split: option.splits)

lemma stampAll_slots:
  assumes "connTableOk I ct" and "p < length (ctSlots ct)"
  shows "ctSlots (stampAll I srcIdx now rs ct) ! p =
    (if \<exists>r\<in>set rs. ctLookupSlot I ct srcIdx (rxFrom r) = Some p
     then (ctSlots ct ! p)\<lparr>slotLastSeen := now\<rparr> else ctSlots ct ! p)"
  using assms
proof (induction rs arbitrary: ct)
  case (Cons r rs)
  have "connTableOk I (stamp I srcIdx now r ct)" by (rule stamp_ok(2) [OF Cons.prems(1)])
  from Cons.IH [OF this] Cons.prems show ?case by (auto simp: stamp_slots)
qed simp

text \<open>
  Liveness evidence: every message of a batch, probe or data, stamps the slot
  of its sender (the one \<open>lookupSlot\<close> finds for this socket) with the time read after the
  batch arrived; no other slot changes, and no slot is added or removed.
\<close>

lemma udpStep_liveness:
  assumes "connTableOk I ct" and "udpScratchOk sc" and "udpReceives os h fd rs"
    and "now = fst (nowMs os (h @ [RecvMMsg fd BATCH]))" and "p < length (ctSlots ct)"
  shows "\<exists>ct' sc' es. udpStep os I fd tunFd srcIdx (ct, sc, h) = Some (ct', sc', h @ es) \<and>
    ctSlots ct' ! p =
      (if \<exists>r\<in>set rs. ctLookupSlot I ct srcIdx (rxFrom r) = Some p
       then (ctSlots ct ! p)\<lparr>slotLastSeen := now\<rparr> else ctSlots ct ! p)"
  using udpStep_run [OF assms(1-3), of tunFd srcIdx] stampAll_slots [OF assms(1,5), of srcIdx now rs]
    assms(4) by blast

definition exRx :: "rx list" where
  "exRx = [\<lparr>rxFrom = Sin 9 2, rxNamelen = 16, rxData = replicate 50 7,
            rxCmsgs = [\<lparr>cmLevel = 17, cmType = 104, cmData = [20, 0, 0, 0]\<rparr>], rxControllen = 24\<rparr>,
           \<lparr>rxFrom = Sin 9 3, rxNamelen = 16, rxData = [], rxCmsgs = [], rxControllen = 0\<rparr>]"

definition exRecv :: os where
  "exRecv = exOs\<lparr>osRes := (\<lambda>h e. case e of RecvMMsg _ _ \<Rightarrow> 2 | _ \<Rightarrow> 0), osRecv := (\<lambda>_. exRx)\<rparr>"

lemma exReceives: "udpReceives exRecv [] 5 exRx"
  by (simp add: udpReceives_def exRecv_def exRx_def rxOk_def SOCKADDR_STORAGE_LEN_def CBUF_LEN_def
      SOL_UDP_def UDP_GRO_def rdBlk_def BATCH_def)

lemma makeUdp_ok: "\<exists>sc. makeUdpReaderScratch = Some sc \<and> udpScratchOk sc"
proof -
  have "zeroVirtioNetHdr (replicate MSG_SIZE 0) = Some (replicate MSG_SIZE 0)"
    by (simp add: zeroVirtioNetHdr_def wrBlk_def splice_def MSG_SIZE_def VIRTIO_NET_HDR_LEN_def
        flip: replicate_add)
  moreover have "bufOk (replicate MSG_SIZE 0)"
    by (simp add: bufOk_def zeros_def MSG_SIZE_def VIRTIO_NET_HDR_LEN_def)
  ultimately show ?thesis
    by (simp add: makeUdpReaderScratch_def udpScratchOk_def list_all_length msgFresh_def zeros_def)
qed

theorem udpStep_packets_witness:
  "\<exists>sc ct' sc' es. makeUdpReaderScratch = Some sc \<and>
     udpStep exRecv exMap 5 7 0 (exCt, sc, []) = Some (ct', sc', es) \<and>
     map length (tunWrites es) = [30, 30, 20]"
proof -
  obtain sc where sc: "makeUdpReaderScratch = Some sc" "udpScratchOk sc" using makeUdp_ok by blast
  have g: "sint (20 :: i32) = 20" by simp
  have "map length (chunks 20 (replicate 50 (7 :: u8))) = [20, 20, 10]"
    by (simp add: chunks.simps)
  then have "map length (map (\<lambda>p. replicate 10 0 @ p) (concat (map rxPackets exRx))) = [30, 30, 20]"
    by (simp add: exRx_def rxPackets_def SOL_UDP_def UDP_GRO_def rdBlk_def g comp_def
        map_eq_conv [symmetric] chunks.simps)
  then show ?thesis
    using udpStep_packets [OF connTableOk_exCt sc(2) exReceives, of 7 0] sc(1) by force
qed

lemma udpStep_liveness_witness:
  "\<exists>sc ct' sc' es. makeUdpReaderScratch = Some sc \<and>
     udpStep exRecv exMap 5 7 0 (exCt, sc, []) = Some (ct', sc', es) \<and>
     slotLastSeen (ctSlots ct' ! 0) = 5007"
proof -
  obtain sc where sc: "makeUdpReaderScratch = Some sc" "udpScratchOk sc" using makeUdp_ok by blast
  have "ctLookupSlot exMap exCt 0 (Sin 9 2) = Some 0"
    by (simp add: ctLookupSlot_def exCt_def exMap_def entryKey_def)
  moreover have "fst (nowMs exRecv ([] @ [RecvMMsg 5 BATCH])) = 5007"
    by (simp add: nowMs_def exRecv_def exOs_def word_unat_eq_iff)
  ultimately show ?thesis
    using udpStep_liveness [OF connTableOk_exCt sc(2) exReceives refl, of 0 7 0] sc(1)
    by (fastforce simp: exCt_def exRx_def)
qed

end
