(* ===== verification/Health.thy ===== *)
theory Health
  imports PlaneRx
begin

text \<open>
  Slot health: the probes a host sends, what a probe received changes in the choice of slots,
  and what the statistics report.
\<close>

section \<open>Probes\<close>

definition probeOf :: "conn_slot \<Rightarrow> ev" where
  "probeOf s = SendTo (slotSrcFd s) [] (slotDstAddr s) (addrLen (slotDstAddr s))"

definition isSend :: "ev \<Rightarrow> bool" where
  "isSend e \<longleftrightarrow> (case e of SendTo _ _ _ _ \<Rightarrow> True | SendMsg _ _ _ _ _ \<Rightarrow> True | _ \<Rightarrow> False)"

definition isSleep :: "ev \<Rightarrow> bool" where
  "isSleep e \<longleftrightarrow> (case e of USleep _ \<Rightarrow> True | _ \<Rightarrow> False)"

lemma collectSlots_eq: "collectSlots ct = [0..<length (ctSlots ct)]"
proof -
  have "fold (\<lambda>p ps. ps @ [p]) xs ys = ys @ xs" for xs ys :: "nat list"
    by (induction xs arbitrary: ys) simp_all
  then show ?thesis by (simp add: collectSlots_def visitSlots_def)
qed

lemma slots_valid: "list_all (\<lambda>p. p < length (ctSlots ct)) (collectSlots ct)"
  by (simp add: collectSlots_eq list_all_iff)

lemma slots_all: "map (\<lambda>p. f (ctSlots ct ! p)) (collectSlots ct) = map f (ctSlots ct)"
  by (rule nth_equalityI) (simp_all add: collectSlots_eq)

lemma callWarn_quiet:
  "\<exists>ws. callWarn os h e what = h @ e # ws \<and> filter isSend ws = [] \<and> filter isSleep ws = []"
  by (auto simp: callWarn_def isSend_def isSleep_def)

lemma probeSlots_run:
  "list_all (\<lambda>p. p < length (ctSlots ct)) ps \<Longrightarrow>
   \<exists>es. probeSlots os ct ps h = Some (h @ es) \<and>
     filter isSend es = map (\<lambda>p. probeOf (ctSlots ct ! p)) ps \<and> filter isSleep es = []"
proof (induction ps arbitrary: h)
  case (Cons p ps)
  let ?e = "probeOf (ctSlots ct ! p)"
  obtain ws where ws: "callWarn os h ?e ''probe sendto'' = h @ ?e # ws" "filter isSend ws = []" "filter isSleep ws = []"
    using callWarn_quiet by blast
  obtain es where "probeSlots os ct ps (h @ ?e # ws) = Some ((h @ ?e # ws) @ es)"
      "filter isSend es = map (\<lambda>p. probeOf (ctSlots ct ! p)) ps" "filter isSleep es = []"
    using Cons.IH [of "h @ ?e # ws"] Cons.prems by auto
  moreover have "isSend ?e" "\<not> isSleep ?e" by (simp_all add: probeOf_def isSend_def isSleep_def)
  ultimately show ?case
    using Cons.prems ws by (simp add: ctSlot_def probeOf_def [symmetric])
qed simp

lemma probeStep_run:
  "\<exists>es. probeStep os ct (collectSlots ct) iv h = Some (h @ es) \<and>
     filter isSend es = map probeOf (ctSlots ct) \<and> filter isSleep es = [USleep (ucast (iv * 1000))]"
proof -
  obtain es where "probeSlots os ct (collectSlots ct) h = Some (h @ es)"
      "filter isSend es = map (\<lambda>p. probeOf (ctSlots ct ! p)) (collectSlots ct)" "filter isSleep es = []"
    using probeSlots_run [OF slots_valid] by blast
  then show ?thesis by (simp add: probeStep_def slots_all isSend_def isSleep_def)
qed

text \<open>
  Property C34. The prober, for every number of rounds and whatever the kernel answers: each
  round sends one empty datagram over every slot of the table, from the slot's socket to the
  slot's endpoint, in the order of the table, and then sleeps once, for the interval in
  microseconds cut to 32 bits.
\<close>

theorem prober_rounds:
  "\<exists>es. prober os ct iv n h = Some (h @ es) \<and>
     filter isSend es = concat (replicate n (map probeOf (ctSlots ct))) \<and>
     filter isSleep es = replicate n (USleep (ucast (iv * 1000)))"
proof -
  have "\<exists>es. rounds n (probeStep os ct (collectSlots ct) iv) h = Some (h @ es) \<and>
      filter isSend es = concat (replicate n (map probeOf (ctSlots ct))) \<and>
      filter isSleep es = replicate n (USleep (ucast (iv * 1000)))"
  proof (induction n arbitrary: h)
    case (Suc n)
    obtain e1 where e1: "probeStep os ct (collectSlots ct) iv h = Some (h @ e1)"
        "filter isSend e1 = map probeOf (ctSlots ct)" "filter isSleep e1 = [USleep (ucast (iv * 1000))]"
      using probeStep_run by blast
    from Suc.IH [of "h @ e1"] e1 show ?case by auto
  qed simp
  then show ?thesis by (simp add: prober_def)
qed

section \<open>A message received revives its slot\<close>

lemma find_holds: "\<exists>x\<in>set xs. P x \<Longrightarrow> \<exists>y. find P xs = Some y \<and> y \<in> set xs \<and> P y"
  by (induction xs) auto

lemma ctNext_live:
  assumes ct: "connTableOk I ct" and c: "c < length (ctConns ct)"
    and q: "q \<in> set (connSlots (ctConns ct ! c))" "live (ctSlots ct) (ctConns ct ! c) now q"
  shows "\<exists>p ct'. ctNext ct c now = Some (p, ct') \<and> p \<in> set (connSlots (ctConns ct ! c)) \<and>
    live (ctSlots ct) (ctConns ct ! c) now p"
proof -
  have ok: "connOk (ctSlots ct) (ctConns ct ! c)" using ct c by (simp add: connTableOk_def)
  have "\<exists>x\<in>set (cycle (ctConns ct ! c)). live (ctSlots ct) (ctConns ct ! c) now x" using q by auto
  from find_holds [OF this] obtain p where
    "find (live (ctSlots ct) (ctConns ct ! c) now) (cycle (ctConns ct ! c)) = Some p"
    "p \<in> set (connSlots (ctConns ct ! c))" "live (ctSlots ct) (ctConns ct ! c) now p" by auto
  then show ?thesis using c by (simp add: ctNext_def connNext_eq [OF ok])
qed

lemma stampAll_conns [simp]: "ctConns (stampAll I srcIdx now rs ct) = ctConns ct"
  by (induction rs arbitrary: ct) (simp_all add: stamp_def split: option.split)

text \<open>
  Property C22. Failover. When a message, probe or data, arrives from the endpoint of a slot,
  the connections with that slot stop using dead slots: for the timeout from then on, whatever
  was dead before, a packet for the peer leaves over a slot that is live at the time it is sent.
\<close>

theorem message_revives:
  assumes "connTableOk I ct" and "udpScratchOk us" and "udpReceives os h fd rs"
    and r: "r \<in> set rs" "ctLookupSlot I ct srcIdx (rxFrom r) = Some q"
    and c: "c < length (ctConns ct)" "q \<in> set (connSlots (ctConns ct ! c))"
    and t: "t = fst (nowMs os (h @ [RecvMMsg fd BATCH]))" "t \<le> now"
    and within: "now - t \<le> connTimeoutMs (ctConns ct ! c)"
  shows "\<exists>ct' us' es p ct''. udpStep os I fd tunFd srcIdx (ct, us, h) = Some (ct', us', h @ es) \<and>
    ctNext ct' c now = Some (p, ct'') \<and> p \<in> set (connSlots (ctConns ct ! c)) \<and>
    slotAlive (connTimeoutMs (ctConns ct ! c)) now (ctSlots ct' ! p)"
proof -
  let ?ct = "stampAll I srcIdx t rs ct"
  obtain us' es where step: "udpStep os I fd tunFd srcIdx (ct, us, h) = Some (?ct, us', h @ es)"
      "connTableOk I ?ct"
    using udpStep_run [OF assms(1-3), of tunFd srcIdx] t(1) by blast
  have "q < length (ctSlots ct)"
    using c assms(1) by (auto simp: connTableOk_def connOk_def)
  then have "slotLastSeen (ctSlots ?ct ! q) = t"
    using stampAll_slots [OF assms(1), of q srcIdx t rs] r by auto
  then have "live (ctSlots ?ct) (ctConns ?ct ! c) now q" using within by (simp add: live_def slotAlive_def)
  from ctNext_live [OF step(2) _ _ this] c show ?thesis using step(1) by (auto simp: live_def)
qed

text \<open>All slots dead (last seen at 5000, timeout 50, time 9000 would use the first anyway).\<close>

theorem message_revives_witness:
  "\<exists>us ct' us' es p ct''. makeUdpReaderScratch = Some us \<and>
     udpStep exRecv exMap 5 7 0 (exCt, us, []) = Some (ct', us', es) \<and>
     ctNext ct' 0 5050 = Some (p, ct'') \<and> slotAlive 50 5050 (ctSlots ct' ! p)"
proof -
  obtain us where us: "makeUdpReaderScratch = Some us" "udpScratchOk us" using makeUdp_ok by blast
  have t: "5007 = fst (nowMs exRecv ([] @ [RecvMMsg 5 BATCH]))"
    by (simp add: nowMs_def exRecv_def exOs_def word_unat_eq_iff)
  have "ctLookupSlot exMap exCt 0 (rxFrom (hd exRx)) = Some 0"
    by (simp add: ctLookupSlot_def exCt_def exMap_def entryKey_def exRx_def)
  from message_revives [OF connTableOk_exCt us(2) exReceives _ this _ _ t, of 0 5050 7]
  show ?thesis using us(1) by (auto simp: exRx_def exCt_def)
qed

section \<open>The statistics\<close>

text \<open>The number that decimal digits stand for.\<close>

definition readNat :: "string \<Rightarrow> nat" where
  "readNat ds = foldl (\<lambda>n c. 10 * n + (of_char c - 48)) 0 ds"

lemma readNat_showNat: "readNat (showNat n) = n"
proof (induction n rule: showNat.induct)
  case (1 n)
  have d: "of_char (char_of (48 + k) :: char) - 48 = (k :: nat)" if "k < 10" for k :: nat
    using that by (simp add: of_char_of)
  show ?case
  proof (cases "n < 10")
    case True
    then show ?thesis by (subst showNat.simps) (simp add: readNat_def d del: of_char_of)
  next
    case False
    then have "readNat (showNat (n div 10)) = n div 10" using 1 by simp
    then show ?thesis using False
      by (subst showNat.simps) (simp add: readNat_def d del: of_char_of)
  qed
qed

text \<open>What the line says of a slot.\<close>

definition slotText :: "os \<Rightarrow> u64 \<Rightarrow> u64 \<Rightarrow> conn_slot \<Rightarrow> string" where
  "slotText os timeoutMs now s =
     '' ['' @ osNtop os (sinAddrOf (slotSrcAddr s)) @ '','' @ osNtop os (sinAddrOf (slotDstAddr s)) @ '','' @
     (if slotAlive timeoutMs now s then ''1'' else ''0'') @ '']''"

lemma statSlots_run:
  "list_all (\<lambda>p. p < length (ctSlots ct)) ps \<Longrightarrow> statSlots os ct tm now ps st = Some
     \<lparr>statAlive = statAlive st + of_nat (length (filter (\<lambda>p. slotAlive tm now (ctSlots ct ! p)) ps)),
      statDead = statDead st + of_nat (length (filter (\<lambda>p. \<not> slotAlive tm now (ctSlots ct ! p)) ps)),
      statLine = statLine st @ concat (map (\<lambda>p. slotText os tm now (ctSlots ct ! p)) ps)\<rparr>"
proof (induction ps arbitrary: st)
  case (Cons p ps)
  have "char_of (49 :: nat) = CHR ''1''" "char_of (48 :: nat) = CHR ''0''" by (simp_all add: char_of_def bit_0)
  with Cons show ?case
    by (simp add: ctSlot_def Let_def slotText_def showNat.simps add.assoc)
qed simp

lemma filter_slots: "length (filter (\<lambda>p. P (ctSlots ct ! p)) (collectSlots ct)) = length (filter P (ctSlots ct))"
  using arg_cong [OF slots_all [of P ct], of "\<lambda>bs. length (filter id bs)"] by (simp add: filter_map comp_def)

lemma statStep_run:
  assumes now: "now = fst (nowMs os h)"
  shows "statStep os ct (collectSlots ct) tm iv h = Some (h @ [Clock,
    LogLine (''gofra slots:'' @ concat (map (slotText os tm now) (ctSlots ct))),
    LogLine (''gofra slot_health alive='' @
      showNat (unat (of_nat (length (filter (slotAlive tm now) (ctSlots ct))) :: u64)) @
      '' dead='' @ showNat (unat (of_nat (length (filter (\<lambda>s. \<not> slotAlive tm now s) (ctSlots ct))) :: u64))),
    SleepS (ucast iv)])"
proof -
  have nm: "nowMs os h = (now, h @ [Clock])" using nowMs_pair [of os h] now by auto
  show ?thesis
    using filter_slots [of "slotAlive tm now" ct] filter_slots [of "\<lambda>s. \<not> slotAlive tm now s" ct]
    by (simp add: statStep_def nm statSlots_run [OF slots_valid] slots_all)
qed

text \<open>
  Property C35. A report of the statistics says of every slot, in the order of the table, its
  two addresses and whether it is live, and its summary gives, as decimal numbers, how many
  slots are live and how many are not: together all of them. Both are taken at one reading of
  the clock, and then it sleeps for the interval.
\<close>

theorem statStep_reports:
  assumes "now = fst (nowMs os h)" and "length (ctSlots ct) < 2 ^ 64"
  shows "\<exists>alive dead. statStep os ct (collectSlots ct) tm iv h = Some (h @ [Clock,
      LogLine (''gofra slots:'' @ concat (map (slotText os tm now) (ctSlots ct))),
      LogLine (''gofra slot_health alive='' @ alive @ '' dead='' @ dead), SleepS (ucast iv)]) \<and>
    readNat alive = length (filter (slotAlive tm now) (ctSlots ct)) \<and>
    readNat alive + readNat dead = length (ctSlots ct)"
proof -
  have small: "unat (of_nat (length (filter P (ctSlots ct))) :: u64) = length (filter P (ctSlots ct))" for P
    using le_less_trans [OF length_filter_le assms(2), of P] by (simp add: unat_of_nat)
  show ?thesis
    by (intro exI conjI, rule statStep_run [OF assms(1)])
      (simp_all only: small readNat_showNat sum_length_filter_compl)
qed

theorem statStep_reports_witness:
  "\<exists>alive dead. statStep exOs exCt [0] 50 10 [] = Some ([Clock,
      LogLine (''gofra slots: [ip,ip,1]''),
      LogLine (''gofra slot_health alive='' @ alive @ '' dead='' @ dead), SleepS 10]) \<and>
    readNat alive = 1 \<and> readNat alive + readNat dead = 1"
proof -
  have t: "5007 = fst (nowMs exOs [])" by (simp add: nowMs_def exOs_def word_unat_eq_iff)
  have slots: "collectSlots exCt = [0]" "length (ctSlots exCt) < 2 ^ 64"
    by (simp_all add: collectSlots_eq exCt_def)
  have alive: "filter (slotAlive 50 5007) (ctSlots exCt) = ctSlots exCt" "length (ctSlots exCt) = 1"
    by (simp_all add: exCt_def slotAlive_def)
  have line: "''gofra slots:'' @ concat (map (slotText exOs 50 5007) (ctSlots exCt)) = ''gofra slots: [ip,ip,1]''"
    by (simp add: exCt_def slotText_def slotAlive_def exOs_def)
  have "ucast (10 :: u64) = (10 :: u32)" by simp
  then show ?thesis
    using statStep_reports [OF t slots(2), of 50 10] unfolding slots(1) alive line append_Nil by simp
qed

end
