(* ===== verification/Process.thy ===== *)
theory Process
  imports Health Program
begin

text \<open>
  The running program: the threads started by \<^verbatim>\<open>run\<close>, interleaved. A step of the process is
  one round of one thread, on the connection table they share and the scratch memory of the
  thread's own; which thread moves is not determined. The rounds are taken as atomic here;
  theory Hosts interleaves their steps, and HostRounds relates the two.
\<close>

section \<open>States and steps\<close>

record 'i process =
  prTable :: "'i conn_table"
  prTun :: "tun_scratch list"
  prUdp :: "udp_scratch list"
  prHist :: "ev list"

text \<open>
  \<open>slots\<close> are the slots that the prober and the statistics collected when they started.
\<close>

inductive procStep ::
  "os \<Rightarrow> 'i int_ops \<Rightarrow> 'i config \<Rightarrow> int list \<Rightarrow> int list \<Rightarrow> nat list \<Rightarrow> 'i process \<Rightarrow> 'i process \<Rightarrow> bool"
  for os I cfg tunFds srcFds slots
where
  tun_round: "i < length tunFds \<Longrightarrow>
    tunStep os I (tunFds ! i) (prTable s, prTun s ! i, prHist s) = Some (ct', sc', h') \<Longrightarrow>
    procStep os I cfg tunFds srcFds slots s
      (s\<lparr>prTable := ct', prTun := (prTun s)[i := sc'], prHist := h'\<rparr>)"
| udp_round: "i < length srcFds \<Longrightarrow>
    udpStep os I (srcFds ! i) (tunFds ! i) (of_nat i) (prTable s, prUdp s ! i, prHist s) = Some (ct', us', h') \<Longrightarrow>
    procStep os I cfg tunFds srcFds slots s
      (s\<lparr>prTable := ct', prUdp := (prUdp s)[i := us'], prHist := h'\<rparr>)"
| probe_round: "probeStep os (prTable s) slots (probeIntervalMs cfg) (prHist s) = Some h' \<Longrightarrow>
    procStep os I cfg tunFds srcFds slots s (s\<lparr>prHist := h'\<rparr>)"
| stats_round: "statStep os (prTable s) slots (probeTimeoutMs cfg) (statsIntervalSec cfg) (prHist s) = Some h' \<Longrightarrow>
    procStep os I cfg tunFds srcFds slots s (s\<lparr>prHist := h'\<rparr>)"

definition procInit :: "'i conn_table \<Rightarrow> nat \<Rightarrow> udp_scratch \<Rightarrow> ev list \<Rightarrow> 'i process" where
  "procInit ct n us h = \<lparr>prTable = ct, prTun = replicate n makeTunReaderScratch,
     prUdp = replicate n us, prHist = h\<rparr>"

inductive procReach ::
  "os \<Rightarrow> 'i int_ops \<Rightarrow> 'i config \<Rightarrow> int list \<Rightarrow> int list \<Rightarrow> 'i conn_table \<Rightarrow> ev list \<Rightarrow> 'i process \<Rightarrow> bool"
  for os I cfg tunFds srcFds ct0 h0
where
  start: "makeUdpReaderScratch = Some us \<Longrightarrow>
    procReach os I cfg tunFds srcFds ct0 h0 (procInit ct0 (length tunFds) us h0)"
| step: "procReach os I cfg tunFds srcFds ct0 h0 s \<Longrightarrow>
    procStep os I cfg tunFds srcFds (collectSlots ct0) s s' \<Longrightarrow>
    procReach os I cfg tunFds srcFds ct0 h0 s'"

section \<open>What the kernel promises\<close>

definition kernelOk :: "os \<Rightarrow> bool" where
  "kernelOk os \<longleftrightarrow>
     (\<forall>h fd sc. tunScratchOk sc \<longrightarrow> osRes os h (ReadFd fd READ_SIZE) < 0 \<or>
        (\<exists>data. tunReads os h fd sc data \<and>
          (\<forall>hdr. decodeVirtioNetHdr data = Some hdr \<longrightarrow>
            hdrOk (innerOf sc data) (length data - VIRTIO_NET_HDR_LEN) hdr))) \<and>
     (\<forall>h fd. osRes os h (RecvMMsg fd BATCH) < 0 \<or> (\<exists>rs. udpReceives os h fd rs))"

section \<open>The slots of a table stay\<close>

lemma ctNext_slots: "ctNext ct c now = Some (p, ct') \<Longrightarrow> ctSlots ct' = ctSlots ct"
  by (auto simp: ctNext_def bind_Some_iff)

lemma sendOne_slots: "sendOne os c pkt ct h = Some (ct', h') \<Longrightarrow> ctSlots ct' = ctSlots ct"
  by (auto simp: sendOne_def bind_Some_iff dest: ctNext_slots split: prod.splits)

lemma usoPart_slots: "usoPart os c g now i e (ct, st) = Some (ct', st') \<Longrightarrow> ctSlots ct' = ctSlots ct"
  by (auto simp: usoPart_def bind_Some_iff dest: ctNext_slots split: prod.splits)

lemma usoLoop_slots:
  "usoLoop os c g now P n i st = Some st' \<Longrightarrow> ctSlots (fst st') = ctSlots (fst st)"
proof (erule usoLoop.raw_induct [rotated], goal_cases)
  case (1 loop os c g now P n i st st')
  show ?case
  proof (cases "i < n")
    case True
    with 1(2) obtain m where m: "usoPart os c g now i (usoEnd i P n) st = Some m"
        "loop os c g now P n (usoEnd i P n) m = Some st'" by (auto simp: bind_Some_iff)
    from m(1) have "ctSlots (fst m) = ctSlots (fst st)"
      by (cases st; cases m) (auto dest: usoPart_slots)
    with 1(1) [OF m(2)] show ?thesis by simp
  qed (use 1(2) in simp)
qed

lemma sendUso_slots: "sendUso os c n (ct, st) = Some (ct', st') \<Longrightarrow> ctSlots ct' = ctSlots ct"
  by (auto simp: sendUso_def bind_Some_iff Let_def case_prod_beta dest!: usoLoop_slots)

lemma tunPacket_slots: "tunPacket os I hdr n (ct, st) = Some (ct', st') \<Longrightarrow> ctSlots ct' = ctSlots ct"
  by (auto simp: tunPacket_def bind_Some_iff Let_def split: option.splits if_splits prod.splits
      dest!: sendOne_slots sendUso_slots)

lemma tunStep_slots: "tunStep os I fd (ct, st) = Some (ct', st') \<Longrightarrow> ctSlots ct' = ctSlots ct"
  by (auto simp: tunStep_def bind_Some_iff Let_def split: if_splits prod.splits dest!: tunPacket_slots)

lemma stampAll_length [simp]: "length (ctSlots (stampAll I srcIdx now rs ct)) = length (ctSlots ct)"
  by (induction rs arbitrary: ct) simp_all

lemma ctSlot_slots: "ctSlot ct p \<noteq> None \<longleftrightarrow> p < length (ctSlots ct)"
  by (simp add: ctSlot_def deref_def)

section \<open>The invariant\<close>

definition procOk :: "'i int_ops \<Rightarrow> nat \<Rightarrow> nat \<Rightarrow> 'i process \<Rightarrow> bool" where
  "procOk I n m s \<longleftrightarrow> connTableOk I (prTable s) \<and> length (ctSlots (prTable s)) = m \<and>
     length (prTun s) = n \<and> length (prUdp s) = n \<and>
     list_all tunScratchOk (prTun s) \<and> list_all udpScratchOk (prUdp s)"

lemma probeSlots_total:
  "list_all (\<lambda>p. p < length (ctSlots ct)) ps \<Longrightarrow> \<exists>h'. probeSlots os ct ps h = Some h'"
  by (induction ps arbitrary: h) (simp_all add: ctSlot_def)

lemma statSlots_total:
  "list_all (\<lambda>p. p < length (ctSlots ct)) ps \<Longrightarrow> \<exists>st'. statSlots os ct tm now ps st = Some st'"
  by (induction ps arbitrary: st) (simp_all add: ctSlot_def Let_def)

lemma probeStep_total:
  "list_all (\<lambda>p. p < length (ctSlots ct)) ps \<Longrightarrow> \<exists>h'. probeStep os ct ps iv h = Some h'"
  using probeSlots_total [of ct ps os h] by (auto simp: probeStep_def)

lemma statStep_total:
  "list_all (\<lambda>p. p < length (ctSlots ct)) ps \<Longrightarrow> \<exists>h'. statStep os ct ps tm iv h = Some h'"
proof -
  assume ps: "list_all (\<lambda>p. p < length (ctSlots ct)) ps"
  obtain now where "nowMs os h = (now, h @ [Clock])" using nowMs_pair by blast
  with statSlots_total [OF ps, of os tm now "\<lparr>statAlive = 0, statDead = 0, statLine = ''gofra slots:''\<rparr>"]
  show ?thesis by (auto simp: statStep_def)
qed

text \<open>
  What the process relies on of a thread that shares the table and has scratch memory of its
  own: a round returns, and leaves both fit for the next round of anyone.
\<close>

locale thread_round =
  fixes shared :: "'t \<Rightarrow> bool"
    and own :: "'w \<Rightarrow> bool"
    and round :: "'t \<times> 'w \<times> ev list \<Rightarrow> ('t \<times> 'w \<times> ev list) option"
  assumes round_ok: "shared t \<Longrightarrow> own w \<Longrightarrow>
    \<exists>t' w' h'. round (t, w, h) = Some (t', w', h') \<and> shared t' \<and> own w'"
begin

lemma round_returns: "shared t \<Longrightarrow> own w \<Longrightarrow> round (t, w, h) \<noteq> None"
  using round_ok [of t w h] by auto

lemma round_keeps:
  "shared t \<Longrightarrow> own w \<Longrightarrow> round (t, w, h) = Some (t', w', h') \<Longrightarrow> shared t' \<and> own w'"
  using round_ok [of t w h] by auto

lemma rounds_ok:
  "shared t \<Longrightarrow> own w \<Longrightarrow> \<exists>t' w' h'. rounds n round (t, w, h) = Some (t', w', h') \<and> shared t' \<and> own w'"
proof (induction n arbitrary: t w h)
  case (Suc n)
  obtain t1 w1 h1 where "round (t, w, h) = Some (t1, w1, h1)" "shared t1" "own w1"
    using round_ok [OF Suc.prems] by blast
  with Suc.IH [of t1 w1 h1] show ?case by simp
qed simp

end

text \<open>What all threads keep: the table in use, with its slots, on a kernel as promised.\<close>

definition sharedOk :: "os \<Rightarrow> 'i int_ops \<Rightarrow> nat \<Rightarrow> 'i conn_table \<Rightarrow> bool" where
  "sharedOk os I m ct \<longleftrightarrow> kernelOk os \<and> connTableOk I ct \<and> length (ctSlots ct) = m"

lemma tunStep_keeps:
  assumes s: "sharedOk os I m ct" and sc: "tunScratchOk sc"
  shows "\<exists>ct' sc' h'. tunStep os I fd (ct, sc, h) = Some (ct', sc', h') \<and> sharedOk os I m ct' \<and> tunScratchOk sc'"
proof -
  have ct: "connTableOk I ct" and k: "kernelOk os" using s by (simp_all add: sharedOk_def)
  obtain data where rd: "osRes os h (ReadFd fd READ_SIZE) < 0 \<or> tunReads os h fd sc data"
      and ok: "osRes os h (ReadFd fd READ_SIZE) < 0 \<or> (\<forall>hdr. decodeVirtioNetHdr data = Some hdr \<longrightarrow>
        hdrOk (innerOf sc data) (length data - VIRTIO_NET_HDR_LEN) hdr)"
    using k sc unfolding kernelOk_def by blast
  have "\<exists>ct' sc' es. tunStep os I fd (ct, sc, h) = Some (ct', sc', h @ es) \<and> connTableOk I ct' \<and> tunScratchOk sc'"
  proof (cases "osRes os h (ReadFd fd READ_SIZE) < 0")
    case True
    then have "osRes os h (ReadFd fd (length (tsReadBuf sc))) < 0" using sc by (simp add: tunScratchOk_def)
    from tunStep_failed [OF this, of I ct] ct sc show ?thesis by auto
  next
    case False
    with tunStep_safe [OF ct sc rd] ok show ?thesis by blast
  qed
  then obtain ct' sc' es where t: "tunStep os I fd (ct, sc, h) = Some (ct', sc', h @ es)"
      "connTableOk I ct'" "tunScratchOk sc'" by blast
  with tunStep_slots [OF t(1)] show ?thesis using s by (simp add: sharedOk_def)
qed

lemma udpStep_keeps:
  assumes s: "sharedOk os I m ct" and us: "udpScratchOk us"
  shows "\<exists>ct' us' h'. udpStep os I fd tunFd srcIdx (ct, us, h) = Some (ct', us', h') \<and>
    sharedOk os I m ct' \<and> udpScratchOk us'"
proof -
  have ct: "connTableOk I ct" and k: "kernelOk os" using s by (simp_all add: sharedOk_def)
  consider (failed) "osRes os h (RecvMMsg fd BATCH) < 0" | (got) rs where "udpReceives os h fd rs"
    using k unfolding kernelOk_def by blast
  then show ?thesis
  proof cases
    case failed
    then show ?thesis using s us by (simp add: udpStep_def Let_def)
  next
    case got
    from udpStep_run [OF ct us got, of tunFd srcIdx] show ?thesis
      using s by (elim exE conjE) (simp add: sharedOk_def)
  qed
qed

interpretation tr: thread_round "sharedOk os I m" tunScratchOk "tunStep os I fd" for os I m fd
  by unfold_locales (rule tunStep_keeps)

interpretation ur: thread_round "sharedOk os I m" udpScratchOk "udpStep os I fd tunFd srcIdx"
  for os I m fd tunFd srcIdx
  by unfold_locales (rule udpStep_keeps)

text \<open>A reader alone: any number of rounds return.\<close>

lemma readers_return:
  "sharedOk os I m ct \<Longrightarrow> tunScratchOk sc \<Longrightarrow> tunReader os I fd n (ct, sc, h) \<noteq> None"
  "sharedOk os I m ct \<Longrightarrow> udpScratchOk us \<Longrightarrow> udpReader os I fd tunFd srcIdx n (ct, us, h) \<noteq> None"
  using tr.rounds_ok [where os = os and I = I and m = m and fd = fd and t = ct and w = sc and n = n and h = h]
    ur.rounds_ok [where os = os and I = I and m = m and fd = fd and tunFd = tunFd and srcIdx = srcIdx
      and t = ct and w = us and n = n and h = h]
  by (auto simp: tunReader_def udpReader_def)

lemma procOk_parts:
  assumes "kernelOk os" and "procOk I n m s"
  shows "sharedOk os I m (prTable s)" and "i < n \<Longrightarrow> tunScratchOk (prTun s ! i)"
    and "i < n \<Longrightarrow> udpScratchOk (prUdp s ! i)"
  using assms by (auto simp: sharedOk_def procOk_def list_all_length)

lemma rounds_total:
  assumes "kernelOk os" and "procOk I n m s" and "i < n"
  shows "tunStep os I fd (prTable s, prTun s ! i, prHist s) \<noteq> None"
    and "udpStep os I fd tunFd srcIdx (prTable s, prUdp s ! i, prHist s) \<noteq> None"
  using tr.round_returns ur.round_returns procOk_parts [OF assms(1,2)] assms(3) by blast+

lemma procStep_ok:
  assumes k: "kernelOk os" and s: "procOk I n m s" and n: "length tunFds = n" "length srcFds = n"
    and st: "procStep os I cfg tunFds srcFds slots s s'"
  shows "procOk I n m s'"
  using st
proof (cases rule: procStep.cases)
  case (tun_round i ct' sc' h')
  then have "sharedOk os I m ct' \<and> tunScratchOk sc'"
    using n by (intro tr.round_keeps [OF procOk_parts(1,2) [OF k s]]) auto
  then show ?thesis using s tun_round(1) by (auto simp: procOk_def sharedOk_def list_all_update)
next
  case (udp_round i ct' us' h')
  then have "sharedOk os I m ct' \<and> udpScratchOk us'"
    using n by (intro ur.round_keeps [OF procOk_parts(1,3) [OF k s]]) auto
  then show ?thesis using s udp_round(1) by (auto simp: procOk_def sharedOk_def list_all_update)
qed (use s in \<open>simp_all add: procOk_def\<close>)

lemma procInit_ok:
  assumes "connTableOk I ct" and "makeUdpReaderScratch = Some us"
  shows "procOk I n (length (ctSlots ct)) (procInit ct n us h)"
proof -
  obtain sc where sc: "makeUdpReaderScratch = Some sc" "udpScratchOk sc" using makeUdp_ok by blast
  have "sc = us" using trans [OF sc(1) [symmetric] assms(2)] by simp
  then have "udpScratchOk us" using sc(2) by simp
  then show ?thesis
    using assms(1) tunScratchOk_make by (simp add: procOk_def procInit_def list_all_length)
qed

lemma procReach_ok:
  assumes "procReach os I cfg tunFds srcFds ct0 h0 s" and "kernelOk os" and "connTableOk I ct0"
    and "length tunFds = length srcFds"
  shows "procOk I (length tunFds) (length (ctSlots ct0)) s"
  using assms
proof (induction rule: procReach.induct)
  case (start us)
  then show ?case by (intro procInit_ok)
next
  case (step s s')
  then show ?case by (intro procStep_ok [OF _ _ _ _ step.hyps(2)]) simp_all
qed

text \<open>No thread can go wrong in its next round.\<close>

definition roundsOk ::
  "os \<Rightarrow> 'i int_ops \<Rightarrow> 'i config \<Rightarrow> int list \<Rightarrow> int list \<Rightarrow> nat list \<Rightarrow> 'i process \<Rightarrow> bool"
where
  "roundsOk os I cfg tunFds srcFds slots s \<longleftrightarrow>
     (\<forall>i<length tunFds. tunStep os I (tunFds ! i) (prTable s, prTun s ! i, prHist s) \<noteq> None \<and>
        udpStep os I (srcFds ! i) (tunFds ! i) (of_nat i) (prTable s, prUdp s ! i, prHist s) \<noteq> None) \<and>
     probeStep os (prTable s) slots (probeIntervalMs cfg) (prHist s) \<noteq> None \<and>
     statStep os (prTable s) slots (probeTimeoutMs cfg) (statsIntervalSec cfg) (prHist s) \<noteq> None"

text \<open>
  However the threads of a running process are interleaved, and whatever the
  kernel hands them, the invariants of the connection table and of every thread's scratch
  memory hold, the table keeps its slots, and no thread can go wrong in its next round: both
  readers of every queue, the prober and the statistics stay inside their memory.
\<close>

lemma process_safe:
  assumes k: "kernelOk os" and ct: "connTableOk I ct0" and n: "length tunFds = length srcFds"
    and s: "procReach os I cfg tunFds srcFds ct0 h0 s"
  shows "procOk I (length tunFds) (length (ctSlots ct0)) s \<and>
    roundsOk os I cfg tunFds srcFds (collectSlots ct0) s"
proof -
  have ok: "procOk I (length tunFds) (length (ctSlots ct0)) s" using procReach_ok [OF s k ct n] .
  then have slots: "list_all (\<lambda>p. p < length (ctSlots (prTable s))) (collectSlots ct0)"
    by (simp add: procOk_def collectSlots_eq list_all_iff)
  show ?thesis
    using ok rounds_total [OF k ok] probeStep_total [OF slots] statStep_total [OF slots]
    by (auto simp: roundsOk_def)
qed

section \<open>A concrete run\<close>

text \<open>A kernel with a super-packet in every read and two messages in every batch.\<close>

definition exBusy :: os where
  "exBusy = exOs\<lparr>osRes := (\<lambda>h e. case e of ReadFd _ _ \<Rightarrow> 69 | RecvMMsg _ _ \<Rightarrow> 2 | _ \<Rightarrow> 0),
     osRead := (\<lambda>_. exVnet 1 @ exPkt), osRecv := (\<lambda>_. exRx)\<rparr>"

lemma exBusy_ok: "kernelOk exBusy"
proof -
  have reads: "tunReads exBusy h fd sc (exVnet 1 @ exPkt)" if "tunScratchOk sc" for h fd sc
    using that by (simp add: tunReads_def exBusy_def tunScratchOk_def READ_SIZE_def Let_def exVnet_def exPkt_def)
  have "hdrOk (innerOf sc (exVnet 1 @ exPkt)) (length (exVnet 1 @ exPkt) - VIRTIO_NET_HDR_LEN) hdr"
    if "decodeVirtioNetHdr (exVnet 1 @ exPkt) = Some hdr" for sc hdr
  proof -
    have hdr: "hdr = exHdr" using that exVnet_decode [of 1] by (simp add: exHdr_def)
    have "\<exists>xs. innerOf sc (exVnet 1 @ exPkt) = exPkt @ xs"
      by (simp add: innerOf_def VIRTIO_NET_HDR_LEN_def exVnet_def exPkt_def)
    moreover have "gsoOk (exPkt @ xs) 59 exHdr" for xs using exOk by (auto simp: gsoOk_def)
    ultimately show ?thesis unfolding exInner_len
      by (auto simp: hdrOk_def hdr exHdr_def SEG_SIZE_def VIRTIO_NET_HDR_GSO_NONE_def)
  qed
  moreover have "udpReceives exBusy h fd exRx" for h fd
    using exReceives by (simp add: udpReceives_def exBusy_def exRecv_def)
  ultimately show ?thesis using reads unfolding kernelOk_def by blast
qed

definition exCfg :: "(u64 \<Rightarrow> nat option) config" where
  "exCfg = \<lparr>tunVip = 0, tunPrefixLen = 24, tunMtu = 1400, tunDev = ''gofra0'', cfgPeers = None,
     cfgSelf = None, udpRecvBuf = 0, udpSendBuf = 0, probeIntervalMs = 200, probeTimeoutMs = 500,
     statsIntervalSec = 10, cfgUser = None\<rparr>"

text \<open>A round of the TUN reader, then one of the UDP reader.\<close>

lemma process_safe_witness:
  "\<exists>us s1 s2. procStep exBusy exMap exCfg [7] [5] [0] (procInit exCt 1 us []) s1 \<and>
     procStep exBusy exMap exCfg [7] [5] [0] s1 s2 \<and> procOk exMap 1 1 s2"
proof -
  obtain us where us: "makeUdpReaderScratch = Some us" using makeUdp_Some by blast
  have n: "length [7 :: int] = length [5 :: int]" by simp
  note safe = process_safe [OF exBusy_ok connTableOk_exCt n, where cfg = exCfg and ?h0.0 = "[]"]
  let ?R = "procReach exBusy exMap exCfg [7] [5] exCt []" and ?s = "procInit exCt 1 us []"
  have slots: "collectSlots exCt = [0]" by (simp add: collectSlots_eq exCt_def)
  have s0: "?R ?s" using procReach.start [OF us] by (metis One_nat_def length_Cons list.size(3))
  obtain ct1 sc1 h1 where "tunStep exBusy exMap ([7] ! 0) (prTable ?s, prTun ?s ! 0, prHist ?s) = Some (ct1, sc1, h1)"
    using safe [OF s0] by (auto simp: roundsOk_def)
  from tun_round [OF _ this, of exCfg "[5]" "[0]"]
  obtain s1 where st1: "procStep exBusy exMap exCfg [7] [5] [0] ?s s1" by auto
  have s1: "?R s1" using procReach.step [OF s0] st1 slots by simp
  obtain ct2 us2 h2 where "udpStep exBusy exMap ([5] ! 0) ([7] ! 0) (of_nat 0) (prTable s1, prUdp s1 ! 0, prHist s1) = Some (ct2, us2, h2)"
    using safe [OF s1] by (auto simp: roundsOk_def)
  from udp_round [OF _ this, of exCfg "[0]"]
  obtain s2 where st2: "procStep exBusy exMap exCfg [7] [5] [0] s1 s2" by auto
  have "?R s2" using procReach.step [OF s1] st2 slots by simp
  from safe [OF this] have "procOk exMap 1 1 s2" by (simp add: exCt_def)
  with st1 st2 show ?thesis by blast
qed

end
