(* ===== verification/Tunnel.thy ===== *)
theory Tunnel
  imports PlaneRx
begin

text \<open>
  The two ends of the tunnel together: what the TUN reader of one host sends, what the network
  and the kernel of the other host make of it, and what the UDP reader there writes to its
  TUN queue.
\<close>

section \<open>The way between the hosts\<close>

text \<open>
  A message received stands for the datagrams \<open>ps\<close>: a single one, or several that
  \<^verbatim>\<open>UDP_GRO\<close> coalesced and whose size the control message gives; all but the last of
  them have that size, the last may be shorter.
\<close>

definition coalesced :: "rx \<Rightarrow> bytes list \<Rightarrow> bool" where
  "coalesced r ps \<longleftrightarrow> rxData r = concat ps \<and> (\<exists>g. groSize (rxCmsgs r) = Some g \<and>
     (if length ps = 1 then sint g \<le> 0 \<or> length (rxData r) \<le> unat g
      else 1 < length ps \<and> 0 < sint g \<and> fullButLast (unat g) ps))"

text \<open>
  The messages \<open>rs\<close> carry the datagrams \<open>ds\<close>: in order and complete, however coalesced,
  with any number of empty datagrams, the probes, in between.
\<close>

definition carries :: "rx list \<Rightarrow> bytes list \<Rightarrow> bool" where
  "carries rs ds \<longleftrightarrow> (\<exists>pss. list_all2 coalesced rs pss \<and> filter (\<lambda>d. d \<noteq> []) (concat pss) = ds)"

lemma fullButLast_nonempty: "fullButLast g ps \<Longrightarrow> filter (\<lambda>d. d \<noteq> []) ps = ps"
  by (induction ps) auto

lemma coalesced_packets:
  assumes r: "coalesced r ps" and long: "\<forall>p\<in>set ps. p \<noteq> [] \<longrightarrow> 20 \<le> length p"
  shows "rxPackets r = filter (\<lambda>d. d \<noteq> []) ps"
proof (cases "length ps = 1")
  case True
  then obtain p where ps: "ps = [p]" by (cases ps) auto
  then obtain g where "rxData r = p" "groSize (rxCmsgs r) = Some g" "sint g \<le> 0 \<or> length p \<le> unat g"
    using r by (auto simp: coalesced_def)
  then show ?thesis using ps long by (auto simp: rxPackets_def)
next
  case False
  then obtain g where g: "rxData r = concat ps" "groSize (rxCmsgs r) = Some g" "1 < length ps"
      "0 < sint g" "fullButLast (unat g) ps"
    using r by (auto simp: coalesced_def)
  from g(3) obtain p q qs where ps: "ps = p # q # qs"
    by (metis One_nat_def Suc_lessD length_0_conv length_Cons less_irrefl neq_Nil_conv)
  then have "length p = unat g" "p \<noteq> []" "q \<noteq> []" using g(5) by auto
  then have "20 \<le> length (concat ps)" "unat g < length (concat ps)" using ps long by auto
  then show ?thesis
    using g by (simp add: rxPackets_def chunks_concat fullButLast_nonempty)
qed

lemma carries_packets:
  assumes "carries rs ds" and "\<forall>d\<in>set ds. 20 \<le> length d"
  shows "concat (map rxPackets rs) = ds"
proof -
  obtain pss where pss: "list_all2 coalesced rs pss" "filter (\<lambda>d. d \<noteq> []) (concat pss) = ds"
    using assms(1) by (auto simp: carries_def)
  have "\<forall>p\<in>set (concat pss). p \<noteq> [] \<longrightarrow> 20 \<le> length p"
    using assms(2) unfolding pss(2) [symmetric] by auto
  with pss(1) have "concat (map rxPackets rs) = filter (\<lambda>d. d \<noteq> []) (concat pss)"
    by (induction rule: list_all2_induct) (auto simp: coalesced_packets)
  with pss(2) show ?thesis by simp
qed

lemma relay:
  assumes "connTableOk I ct" and "udpScratchOk us" and "udpReceives os h fd rs"
    and "carries rs ds" and "\<forall>d\<in>set ds. 20 \<le> length d"
  shows "\<exists>ct' us' es. udpStep os I fd tunFd srcIdx (ct, us, h) = Some (ct', us', h @ es) \<and>
    tunWrites es = map (\<lambda>p. zeros @ p) ds"
  using udpStep_run [OF assms(1-3), of tunFd srcIdx] carries_packets [OF assms(4,5)] by auto

section \<open>The packets of the peer\<close>

text \<open>What the kernel meant by the packet it handed over.\<close>

definition meant :: "bytes \<Rightarrow> nat \<Rightarrow> virtio_net_hdr \<Rightarrow> bytes list" where
  "meant inb inLen hdr =
     (if gsoType hdr = VIRTIO_NET_HDR_GSO_TCPV4 then map (gsoSeg inb inLen hdr) [0..<segCount inLen hdr]
      else case plainPacket inb inLen hdr of Some x \<Rightarrow> [take inLen x] | None \<Rightarrow> [])"

text \<open>A packet the reader relays: of a known kind, and not in too many segments.\<close>

definition relayed :: "nat \<Rightarrow> virtio_net_hdr \<Rightarrow> bool" where
  "relayed inLen hdr \<longleftrightarrow>
     (if gsoType hdr = VIRTIO_NET_HDR_GSO_TCPV4 then segCount inLen hdr \<le> MAX_SEGS
      else gsoType hdr = VIRTIO_NET_HDR_GSO_NONE)"

lemma meant_long:
  assumes ok: "hdrOk inb n hdr" and kind: "relayed n hdr" and n: "20 \<le> n" "n \<le> length inb"
    and d: "d \<in> set (meant inb n hdr)"
  shows "20 \<le> length d"
proof (cases "gsoType hdr = VIRTIO_NET_HDR_GSO_TCPV4")
  case True
  then have g: "gsoOk inb n hdr" using ok by (simp add: hdrOk_def)
  show ?thesis using g d True by (auto simp: meant_def length_gsoSeg segLen_def gsoOk_def)
next
  case False
  then show ?thesis
    using d n by (auto simp: meant_def split: option.splits dest!: sym [of "Some _"] plainPacket_length)
qed

lemma sends_meant:
  assumes ct: "connTableOk I ct" and sc: "tunScratchOk sc" and rd: "tunReads os h fd sc data"
    and len: "VIRTIO_NET_HDR_LEN + 20 \<le> length data" and hdr: "decodeVirtioNetHdr data = Some hdr"
    and inb: "inb = innerOf sc data" "inLen = length data - VIRTIO_NET_HDR_LEN"
    and ok: "hdrOk inb inLen hdr" and kind: "relayed inLen hdr"
    and to: "dstFromIPv4 inb inLen = Some (Some v)" "ctLookup I ct v = Some c"
  shows "\<exists>ct' sc' es. tunStep os I fd (ct, sc, h) = Some (ct', sc', h @ es) \<and>
    wireOf es = meant inb inLen hdr \<and> (\<forall>d\<in>set (meant inb inLen hdr). 20 \<le> length d)"
proof (cases "gsoType hdr = VIRTIO_NET_HDR_GSO_TCPV4")
  case True
  then have g: "gsoOk inb inLen hdr" "unat (hdrLen hdr) + unat (gsoSize hdr) \<le> SEG_SIZE"
      "segCount inLen hdr \<le> MAX_SEGS" using ok kind by (auto simp: hdrOk_def relayed_def)
  have "\<forall>d\<in>set (meant inb inLen hdr). 20 \<le> length d"
    using g(1) True by (auto simp: meant_def length_gsoSeg segLen_def gsoOk_def)
  then show ?thesis
    using tunStep_gso_run [OF ct sc rd len hdr inb g to] True by (auto simp: meant_def)
next
  case False
  then have none: "gsoType hdr = VIRTIO_NET_HDR_GSO_NONE" using kind by (simp add: relayed_def)
  have "length data \<le> READ_SIZE" using rd sc by (simp add: tunReads_def tunScratchOk_def Let_def)
  then have n: "inLen \<le> length inb" using inb innerOf_length [OF rd sc] by (simp add: diff_le_mono)
  then obtain x where x: "plainPacket inb inLen hdr = Some x"
    using plainPacket_total [of hdr inLen inb] ok none by (auto simp: hdrOk_def)
  have "meant inb inLen hdr = [take inLen x]" using False x by (simp add: meant_def)
  moreover have "20 \<le> length (take inLen x)" using plainPacket_length [OF x] n len inb(2) by simp
  ultimately show ?thesis using tunStep_plain [OF ct sc rd len hdr inb none x to] by auto
qed

text \<open>
  Property C7. End to end. A packet the kernel of one host hands over for a known peer, a TCP
  super-packet or a single packet, comes out of the TUN queue of the peer as the packets the
  kernel meant, in order and unchanged behind zero virtio headers, if the network delivers the
  datagrams: whether they arrive one by one, or coalesced again in any way that
  \<^verbatim>\<open>UDP_GRO\<close> permits, and whatever probes arrive between them.
\<close>

theorem tunnel_roundtrip:
  assumes "connTableOk I ct" and "tunScratchOk sc" and "tunReads os h fd sc data"
    and "VIRTIO_NET_HDR_LEN + 20 \<le> length data" and "decodeVirtioNetHdr data = Some hdr"
    and "inb = innerOf sc data" and "inLen = length data - VIRTIO_NET_HDR_LEN"
    and "hdrOk inb inLen hdr" and "relayed inLen hdr"
    and "dstFromIPv4 inb inLen = Some (Some v)" and "ctLookup I ct v = Some c"
    and tx: "tunStep os I fd (ct, sc, h) = Some (ct', sc', h @ es)"
    and net: "udpReceives os2 h2 fd2 rs" "carries rs (wireOf es)"
    and peer: "connTableOk J ct2" "udpScratchOk us"
  shows "\<exists>ct2' us' es2. udpStep os2 J fd2 tunFd2 srcIdx (ct2, us, h2) = Some (ct2', us', h2 @ es2) \<and>
    tunWrites es2 = map (\<lambda>p. replicate 10 0 @ p) (meant inb inLen hdr)"
proof -
  have es: "wireOf es = meant inb inLen hdr" "\<forall>d\<in>set (wireOf es). 20 \<le> length d"
    using sends_meant [OF assms(1-11)] tx by auto
  from relay [OF peer net es(2), of tunFd2 srcIdx] show ?thesis
    by (simp add: es(1) zeros_def VIRTIO_NET_HDR_LEN_def)
qed

section \<open>A concrete run\<close>

text \<open>The three segments of the super-packet arrive coalesced, behind a probe.\<close>

definition exSegs :: "bytes list" where
  "exSegs = map (gsoSeg exInner 59 exHdr) [0..<3]"

definition exBack :: "rx list" where
  "exBack = [\<lparr>rxFrom = Sin 9 2, rxNamelen = 16, rxData = [], rxCmsgs = [], rxControllen = 0\<rparr>,
             \<lparr>rxFrom = Sin 9 2, rxNamelen = 16, rxData = concat exSegs,
              rxCmsgs = [\<lparr>cmLevel = 17, cmType = 104, cmData = [48, 0, 0, 0]\<rparr>], rxControllen = 24\<rparr>]"

definition exPeer :: os where
  "exPeer = exOs\<lparr>osRes := (\<lambda>h e. case e of RecvMMsg _ _ \<Rightarrow> 2 | _ \<Rightarrow> 0), osRecv := (\<lambda>_. exBack)\<rparr>"

lemma exSegs_length: "map length exSegs = [48, 48, 43]"
proof -
  have "segLen 59 exHdr 0 = 48" "segLen 59 exHdr 1 = 48" "segLen 59 exHdr 2 = 43"
    by (simp_all add: segLen_def segEnd_def segStart_def exHdr_def)
  moreover have "length (gsoSeg exInner 59 exHdr j) = segLen 59 exHdr j" if "j < 3" for j
    using length_gsoSeg [OF exInner_ok, of j] that by (simp add: exCount)
  moreover have "[0..<3] = [0, 1, 2 :: nat]" by (simp add: upt_rec)
  ultimately show ?thesis by (simp add: exSegs_def)
qed

lemma exBack_receives: "udpReceives exPeer [] 5 exBack"
proof -
  have "length (concat exSegs) = 139" using exSegs_length by (simp add: length_concat)
  then show ?thesis
    by (simp add: udpReceives_def exPeer_def exBack_def rxOk_def SOCKADDR_STORAGE_LEN_def CBUF_LEN_def
        SOL_UDP_def UDP_GRO_def rdBlk_def BATCH_def)
qed

lemma exBack_carries: "carries exBack exSegs"
proof -
  obtain p q r where s: "exSegs = [p, q, r]" and l: "length p = 48" "length q = 48" "length r = 43"
    using exSegs_length by (auto simp: map_eq_Cons_conv)
  have g: "leWord [48, 0, 0, 0] = (48 :: i32)" by simp
  have "list_all2 coalesced exBack [[[]], exSegs]"
    using l by (auto simp: exBack_def coalesced_def s SOL_UDP_def UDP_GRO_def rdBlk_def g)
  moreover have "filter (\<lambda>d. d \<noteq> []) (concat [[[]], exSegs]) = exSegs" using l by (auto simp: s)
  ultimately show ?thesis unfolding carries_def by blast
qed

theorem tunnel_roundtrip_witness:
  "\<exists>us ct' sc' es ct2' us' es2. makeUdpReaderScratch = Some us \<and>
     tunStep (exRead 1) exMap 7 (exCt, makeTunReaderScratch, []) = Some (ct', sc', es) \<and> wireOf es = exSegs \<and>
     udpStep exPeer exMap 5 7 0 (exCt, us, []) = Some (ct2', us', es2) \<and>
     tunWrites es2 = map (\<lambda>p. replicate 10 0 @ p) exSegs"
proof -
  have hdr: "decodeVirtioNetHdr (exVnet 1 @ exPkt) = Some exHdr"
    using exVnet_decode [of 1] by (simp add: exHdr_def)
  have len: "VIRTIO_NET_HDR_LEN + 20 \<le> length (exVnet 1 @ exPkt)"
    by (simp add: VIRTIO_NET_HDR_LEN_def exVnet_def exPkt_def)
  have ok: "hdrOk exInner 59 exHdr" using exInner_ok
    by (simp add: hdrOk_def exHdr_def SEG_SIZE_def VIRTIO_NET_HDR_GSO_NONE_def)
  have tcp: "gsoType exHdr = VIRTIO_NET_HDR_GSO_TCPV4" using exInner_ok by (simp add: gsoOk_def)
  then have kind: "relayed 59 exHdr" by (simp add: relayed_def exCount MAX_SEGS_def)
  note ends = exCt_lookup connTableOk_exCt tunScratchOk_make exTunReads len hdr
    exInner_eq [symmetric] exInner_len [symmetric] ok kind exInner_dst
  have meant: "meant exInner 59 exHdr = exSegs" by (simp add: meant_def tcp exSegs_def exCount)
  obtain ct' sc' es where tx: "tunStep (exRead 1) exMap 7 (exCt, makeTunReaderScratch, []) = Some (ct', sc', [] @ es)"
      "wireOf es = exSegs"
    using sends_meant [OF ends(2-11) ends(1)] unfolding meant by (elim exE conjE) (rule that)
  obtain us where us: "makeUdpReaderScratch = Some us" "udpScratchOk us" using makeUdp_ok by blast
  have "carries exBack (wireOf es)" using exBack_carries tx(2) by simp
  from tunnel_roundtrip [OF ends(2-11) ends(1) tx(1) exBack_receives this connTableOk_exCt us(2), of 7 0]
  show ?thesis using tx us(1) unfolding meant by auto
qed

end
