(* ===== verification/Threads.thy ===== *)
theory Threads
  imports Conn
begin

text \<open>
  The choice of a slot at the granularity of the atomic operations of the code. The TUN
  readers call \<open>next\<close> of one connection concurrently, while UDP readers store new times in
  the slots; the shared memory is \<^verbatim>\<open>rr_\<close> and the \<^verbatim>\<open>lastSeen\<close> of every slot, each accessed
  with one atomic operation. A state has the program counter of every reader inside \<open>next\<close>;
  which thread moves is not determined. Theory Conn models \<open>next\<close> as one operation; here it
  is shown in which sense the interleaved one refines it.
\<close>

section \<open>States and steps\<close>

text \<open>
  \<open>Scan t now k\<close>: ticket \<open>t\<close> taken, \<open>k\<close> slots found dead so far. \<open>Done t now p\<close>: about to
  return the slot \<open>p\<close>.
\<close>

datatype pc = Idle | Scan u64 u64 nat | Done u64 u64 nat

text \<open>
  \<open>sysTaken\<close> and \<open>sysHeld\<close> are history the code does not have: the tickets in the order they
  were taken, and the contents each slot has had.
\<close>

record sys =
  sysRr :: u64
  sysSlots :: "conn_slot list"
  sysPcs :: "pc list"
  sysTaken :: "u64 list"
  sysHeld :: "nat \<Rightarrow> conn_slot set"

definition scanAt :: "conn \<Rightarrow> u64 \<Rightarrow> nat \<Rightarrow> nat" where
  "scanAt c t k = connSlots c ! ((unat t mod length (connSlots c) + k) mod length (connSlots c))"

inductive sysStep :: "conn \<Rightarrow> sys \<Rightarrow> sys \<Rightarrow> bool" for c :: conn where
  take_ticket: "i < length (sysPcs s) \<Longrightarrow> sysPcs s ! i = Idle \<Longrightarrow> r = sysRr s + 1 \<Longrightarrow>
    sysStep c s (s\<lparr>sysRr := r, sysPcs := (sysPcs s)[i := Scan (r - 1) now 0],
      sysTaken := sysTaken s @ [r - 1]\<rparr>)"
| look_live: "i < length (sysPcs s) \<Longrightarrow> sysPcs s ! i = Scan t now k \<Longrightarrow> k < length (connSlots c) \<Longrightarrow>
    p = scanAt c t k \<Longrightarrow> deref (sysSlots s) p = Some sl \<Longrightarrow> slotAlive (connTimeoutMs c) now sl \<Longrightarrow>
    sysStep c s (s\<lparr>sysPcs := (sysPcs s)[i := Done t now p]\<rparr>)"
| look_dead: "i < length (sysPcs s) \<Longrightarrow> sysPcs s ! i = Scan t now k \<Longrightarrow> k < length (connSlots c) \<Longrightarrow>
    p = scanAt c t k \<Longrightarrow> deref (sysSlots s) p = Some sl \<Longrightarrow> \<not> slotAlive (connTimeoutMs c) now sl \<Longrightarrow>
    sysStep c s (s\<lparr>sysPcs := (sysPcs s)[i := Scan t now (k + 1)]\<rparr>)"
| all_dead: "i < length (sysPcs s) \<Longrightarrow> sysPcs s ! i = Scan t now k \<Longrightarrow> k = length (connSlots c) \<Longrightarrow>
    sysStep c s (s\<lparr>sysPcs := (sysPcs s)[i := Done t now (scanAt c t 0)]\<rparr>)"
| return_slot: "i < length (sysPcs s) \<Longrightarrow> sysPcs s ! i = Done t now p \<Longrightarrow>
    sysStep c s (s\<lparr>sysPcs := (sysPcs s)[i := Idle]\<rparr>)"
| stamp_slot: "deref (sysSlots s) p = Some sl \<Longrightarrow> sl' = sl\<lparr>slotLastSeen := now\<rparr> \<Longrightarrow>
    sysStep c s (s\<lparr>sysSlots := (sysSlots s)[p := sl'], sysHeld := (sysHeld s)(p := insert sl' (sysHeld s p))\<rparr>)"

text \<open>\<open>n\<close> readers, before any call, on the slots of a table.\<close>

definition sysInit :: "conn \<Rightarrow> conn_slot list \<Rightarrow> nat \<Rightarrow> sys" where
  "sysInit c slots n = \<lparr>sysRr = connRr c, sysSlots = slots, sysPcs = replicate n Idle, sysTaken = [],
     sysHeld = (\<lambda>p. if p < length slots then {slots ! p} else {})\<rparr>"

inductive reachable :: "conn \<Rightarrow> conn_slot list \<Rightarrow> nat \<Rightarrow> sys \<Rightarrow> bool" for c slots n where
  init: "reachable c slots n (sysInit c slots n)"
| step: "reachable c slots n s \<Longrightarrow> sysStep c s s' \<Longrightarrow> reachable c slots n s'"

inductive_cases sysStep_cases: "sysStep c s s'"

section \<open>Tickets\<close>

fun ticket :: "pc \<Rightarrow> u64 option" where
  "ticket Idle = None"
| "ticket (Scan t now k) = Some t"
| "ticket (Done t now p) = Some t"

text \<open>Values other than \<open>None\<close> occur once.\<close>

definition apart :: "'a option list \<Rightarrow> bool" where
  "apart xs \<longleftrightarrow> (\<forall>i<length xs. \<forall>j<length xs. xs ! i \<noteq> None \<and> xs ! i = xs ! j \<longrightarrow> i = j)"

lemma apartD: "apart xs \<Longrightarrow> i < length xs \<Longrightarrow> j < length xs \<Longrightarrow> xs ! i \<noteq> None \<Longrightarrow> xs ! i = xs ! j \<Longrightarrow> i = j"
  unfolding apart_def by blast

lemma apart_update:
  assumes "apart xs" and "i < length xs" and "v = None \<or> v \<notin> set xs \<or> v = xs ! i"
  shows "apart (xs[i := v])"
  unfolding apart_def
proof (intro allI impI)
  fix j k
  assume jk: "j < length (xs[i := v])" "k < length (xs[i := v])"
    and eq: "xs[i := v] ! j \<noteq> None \<and> xs[i := v] ! j = xs[i := v] ! k"
  have other: "xs ! m = v \<Longrightarrow> v \<noteq> None \<Longrightarrow> m < length xs \<Longrightarrow> m = i" for m
    using assms apartD [of xs m i] by (metis nth_mem)
  show "j = k"
  proof (cases "j = i \<or> k = i")
    case True
    then show ?thesis using jk eq assms(2) other [of j] other [of k] by (auto simp: nth_list_update split: if_splits)
  next
    case False
    then have "xs[i := v] ! j = xs ! j" "xs[i := v] ! k = xs ! k" by simp_all
    then show ?thesis using apartD [OF assms(1), of j k] jk eq by (metis length_list_update)
  qed
qed

definition ticketsOk :: "u64 \<Rightarrow> sys \<Rightarrow> bool" where
  "ticketsOk r0 s \<longleftrightarrow>
     sysTaken s = map (\<lambda>j. r0 + of_nat j) [0..<length (sysTaken s)] \<and>
     sysRr s = r0 + of_nat (length (sysTaken s)) \<and>
     set (map ticket (sysPcs s)) \<subseteq> insert None (Some ` set (sysTaken s)) \<and>
     (length (sysTaken s) \<le> 2 ^ 64 \<longrightarrow> apart (map ticket (sysPcs s)))"

lemma of_nat_u64_inj: "i < 2 ^ 64 \<Longrightarrow> j < 2 ^ 64 \<Longrightarrow> (of_nat i :: u64) = of_nat j \<longleftrightarrow> i = j"
  by (auto simp: word_unat_eq_iff unat_of_nat)

lemma fresh_ticket:
  assumes "m < 2 ^ 64"
  shows "r0 + of_nat m \<notin> set (map (\<lambda>j. r0 + of_nat j) [0..<m] :: u64 list)"
  using assms by (auto simp: of_nat_u64_inj)

lemma set_update_ticket:
  "set (map ticket (pcs[i := pc])) \<subseteq> insert (ticket pc) (set (map ticket pcs))"
  using set_update_subset_insert [of "map ticket pcs" i "ticket pc"] by (simp add: map_update)

lemma ticketsOk_keep:
  assumes ok: "ticketsOk r0 s" and i: "i < length (sysPcs s)"
    and pc: "ticket pc = None \<or> ticket pc = ticket (sysPcs s ! i)"
  shows "ticketsOk r0 (s\<lparr>sysPcs := (sysPcs s)[i := pc]\<rparr>)"
proof -
  have "ticket pc \<in> insert None (set (map ticket (sysPcs s)))" using pc i by auto
  then have "set (map ticket ((sysPcs s)[i := pc])) \<subseteq> insert None (Some ` set (sysTaken s))"
    using set_update_ticket [of "sysPcs s" i pc] ok unfolding ticketsOk_def by blast
  moreover have "apart (map ticket ((sysPcs s)[i := pc]))" if "apart (map ticket (sysPcs s))"
    using apart_update [OF that, of i "ticket pc"] i pc by (auto simp: map_update)
  ultimately show ?thesis using ok by (simp add: ticketsOk_def)
qed

lemma ticketsOk_take:
  assumes ok: "ticketsOk r0 s" and i: "i < length (sysPcs s)" and r: "r = sysRr s + 1"
  shows "ticketsOk r0 (s\<lparr>sysRr := r, sysPcs := (sysPcs s)[i := Scan (r - 1) now 0],
    sysTaken := sysTaken s @ [r - 1]\<rparr>)"
proof -
  let ?m = "length (sysTaken s)" and ?pcs = "(sysPcs s)[i := Scan (r - 1) now 0]"
  have t: "r - 1 = r0 + of_nat ?m" and taken: "sysTaken s = map (\<lambda>j. r0 + of_nat j) [0..<?m]"
    using ok r by (auto simp: ticketsOk_def)
  have "sysTaken s @ [r - 1] = map (\<lambda>j. r0 + of_nat j) [0..<Suc ?m]"
    using taken t by simp
  moreover have "set (map ticket (sysPcs s)) \<subseteq> insert None (Some ` set (sysTaken s))"
    using ok unfolding ticketsOk_def by blast
  then have "insert (ticket (Scan (r - 1) now 0)) (set (map ticket (sysPcs s)))
      \<subseteq> insert None (Some ` set (sysTaken s @ [r - 1]))" by auto
  then have "set (map ticket ?pcs) \<subseteq> insert None (Some ` set (sysTaken s @ [r - 1]))"
    using set_update_ticket by (rule order_trans [rotated])
  moreover have "apart (map ticket ?pcs)" if m: "?m < 2 ^ 64"
  proof -
    have "r - 1 \<notin> set (sysTaken s)" using fresh_ticket [OF m, of r0] taken t by metis
    then have "Some (r - 1) \<notin> set (map ticket (sysPcs s))" using ok by (auto simp: ticketsOk_def)
    moreover have "apart (map ticket (sysPcs s))" using ok m by (simp add: ticketsOk_def)
    ultimately show ?thesis using apart_update [of "map ticket (sysPcs s)" i "Some (r - 1)"] i
      by (simp add: map_update)
  qed
  ultimately show ?thesis using ok r by (simp add: ticketsOk_def)
qed

lemma ticketsOk_step:
  assumes "sysStep c s s'" and "ticketsOk r0 s"
  shows "ticketsOk r0 s'"
  using assms
proof (induction rule: sysStep.induct)
  case (take_ticket i s r now)
  then show ?case by (intro ticketsOk_take)
next
  case (stamp_slot s p sl sl' now)
  then show ?case by (simp add: ticketsOk_def)
qed (auto intro!: ticketsOk_keep)

lemma reachable_tickets: "reachable c slots n s \<Longrightarrow> ticketsOk (connRr c) s"
proof (induction rule: reachable.induct)
  case init
  show ?case by (auto simp: ticketsOk_def sysInit_def apart_def)
next
  case (step s s')
  then show ?case by (blast intro: ticketsOk_step)
qed

lemma taken_distinct:
  assumes "ticketsOk r0 s" and "length (sysTaken s) \<le> 2 ^ 64"
  shows "distinct (sysTaken s)"
proof -
  have "distinct (map (\<lambda>j. r0 + of_nat j) [0..<length (sysTaken s)])"
    using assms(2) of_nat_u64_inj by (auto simp: distinct_map inj_on_def)
  then show ?thesis using assms(1) by (metis ticketsOk_def)
qed

lemma mod_count:
  assumes "b < n"
  shows "length (filter (\<lambda>j. j mod n = b) [0..<m * n]) = m"
proof (induction m)
  case (Suc m)
  have "[m * n..<Suc m * n] = map ((+) (m * n)) [0..<n]"
    by (rule nth_equalityI) simp_all
  moreover have "filter (\<lambda>j. (m * n + j) mod n = b) [0..<n] = filter (\<lambda>j. j = b) [0..<n]"
    by (rule filter_cong) auto
  moreover have "filter (\<lambda>j. j = b) [0..<n] = [b]"
    using assms by (induction n) (auto simp: less_Suc_eq filter_empty_conv)
  ultimately have "length (filter (\<lambda>j. j mod n = b) [m * n..<Suc m * n]) = 1"
    by (simp add: filter_map comp_def)
  moreover have "[0..<Suc m * n] = [0..<m * n] @ [m * n..<Suc m * n]"
    using upt_add_eq_append [of 0 "m * n" n] by (simp add: add.commute)
  ultimately show ?case using Suc.IH by simp
qed simp

lemma tickets_fair:
  assumes ok: "ticketsOk 0 s" and n: "b < n" and m: "m * n \<le> length (sysTaken s)" "length (sysTaken s) \<le> 2 ^ 64"
  shows "length (filter (\<lambda>t. unat t mod n = b) (take (m * n) (sysTaken s))) = m"
proof -
  have taken: "sysTaken s = map of_nat [0..<length (sysTaken s)]"
    using ok unfolding ticketsOk_def by (elim conjE) (simp only: add_0)
  have "take (m * n) (sysTaken s) = map of_nat [0..<m * n]"
    using m(1) by (subst taken) (simp add: take_map)
  moreover have "filter (\<lambda>j. unat (of_nat j :: u64) mod n = b) [0..<m * n] = filter (\<lambda>j. j mod n = b) [0..<m * n]"
    using m by (intro filter_cong) (auto simp: unat_of_nat)
  ultimately show ?thesis using mod_count [OF n, of m] by (simp add: filter_map comp_def)
qed

section \<open>Refinement\<close>

text \<open>A table in which every slot has a content it has really had.\<close>

definition viewOf :: "sys \<Rightarrow> conn_slot list \<Rightarrow> bool" where
  "viewOf s v \<longleftrightarrow> length v = length (sysSlots s) \<and> (\<forall>p<length v. v ! p \<in> sysHeld s p)"

fun pcOk :: "conn \<Rightarrow> sys \<Rightarrow> pc \<Rightarrow> bool" where
  "pcOk c s Idle = True"
| "pcOk c s (Scan t now k) \<longleftrightarrow> k \<le> length (connSlots c) \<and>
     (\<exists>v. viewOf s v \<and> (\<forall>j<k. \<not> slotAlive (connTimeoutMs c) now (v ! scanAt c t j)))"
| "pcOk c s (Done t now p) \<longleftrightarrow>
     (\<exists>v c'. viewOf s v \<and> connNext v (c\<lparr>connRr := t\<rparr>) now = Some (p, c'))"

definition sysOk :: "conn \<Rightarrow> sys \<Rightarrow> bool" where
  "sysOk c s \<longleftrightarrow> connOk (sysSlots s) c \<and> viewOf s (sysSlots s) \<and> list_all (pcOk c s) (sysPcs s)"

lemma scanAt_cycle:
  "k < length (connSlots c) \<Longrightarrow> scanAt c t k = cycle (c\<lparr>connRr := t\<rparr>) ! k"
  by (simp add: scanAt_def cycle_def nth_rotate)

lemma set_scan: "p \<in> set (connSlots c) \<Longrightarrow> \<exists>j<length (connSlots c). p = scanAt c t j"
proof -
  assume "p \<in> set (connSlots c)"
  then have "p \<in> set (cycle (c\<lparr>connRr := t\<rparr>))" by simp
  then obtain j where "j < length (cycle (c\<lparr>connRr := t\<rparr>))" "cycle (c\<lparr>connRr := t\<rparr>) ! j = p"
    unfolding in_set_conv_nth by blast
  moreover have "length (cycle (c\<lparr>connRr := t\<rparr>)) = length (connSlots c)" by (simp add: cycle_def)
  ultimately show ?thesis by (intro exI [of _ j]) (simp add: scanAt_cycle)
qed

lemma find_at:
  assumes "k < length xs" and "\<And>j. j < k \<Longrightarrow> \<not> P (xs ! j)" and "P (xs ! k)"
  shows "find P xs = Some (xs ! k)"
  using assms by (auto simp: find_Some_iff)

lemma connOk_view: "connOk (sysSlots s) c \<Longrightarrow> viewOf s v \<Longrightarrow> connOk v (c\<lparr>connRr := t\<rparr>)"
  by (simp add: connOk_def viewOf_def)

lemma scan_slot: "connOk slots c \<Longrightarrow> scanAt c t k < length slots"
  by (simp add: connOk_def scanAt_def)

text \<open>The sequential \<open>next\<close> on a view in which the slots before position \<open>k\<close> are dead.\<close>

lemma next_live:
  assumes "connOk (sysSlots s) c" and "viewOf s v" and "k < length (connSlots c)"
    and "\<And>j. j < k \<Longrightarrow> \<not> slotAlive (connTimeoutMs c) now (v ! scanAt c t j)"
    and "slotAlive (connTimeoutMs c) now (v ! scanAt c t k)"
  shows "\<exists>c'. connNext v (c\<lparr>connRr := t\<rparr>) now = Some (scanAt c t k, c')"
proof -
  let ?c = "c\<lparr>connRr := t\<rparr>"
  have len: "length (cycle ?c) = length (connSlots c)" by (simp add: cycle_def)
  have "find (live v ?c now) (cycle ?c) = Some (cycle ?c ! k)"
    using assms(3-5) len by (intro find_at) (simp_all add: live_def scanAt_cycle)
  then show ?thesis
    using connNext_eq [OF connOk_view [OF assms(1,2), of t], of now] assms(3) by (simp add: scanAt_cycle)
qed

lemma next_dead:
  assumes "connOk (sysSlots s) c" and "viewOf s v"
    and "\<And>j. j < length (connSlots c) \<Longrightarrow> \<not> slotAlive (connTimeoutMs c) now (v ! scanAt c t j)"
  shows "\<exists>c'. connNext v (c\<lparr>connRr := t\<rparr>) now = Some (scanAt c t 0, c')"
proof -
  let ?c = "c\<lparr>connRr := t\<rparr>"
  have n: "0 < length (connSlots c)" using assms(1) by (simp add: connOk_def)
  have "find (live v ?c now) (cycle ?c) = None"
    using assms(3) set_scan [of _ c t] by (auto simp: find_None_iff live_def)
  moreover have "hd (cycle ?c) = scanAt c t 0"
    using n by (simp add: scanAt_cycle hd_conv_nth cycle_def)
  ultimately show ?thesis
    using connNext_eq [OF connOk_view [OF assms(1,2), of t], of now] by simp
qed

text \<open>What the readers know of the past stays true when the memory changes.\<close>

definition grows :: "sys \<Rightarrow> sys \<Rightarrow> bool" where
  "grows s s' \<longleftrightarrow> length (sysSlots s') = length (sysSlots s) \<and> (\<forall>p. sysHeld s p \<subseteq> sysHeld s' p)"

lemma viewOf_grows: "grows s s' \<Longrightarrow> viewOf s v \<Longrightarrow> viewOf s' v"
  unfolding grows_def viewOf_def by (metis subsetD)

lemma pcOk_grows: "grows s s' \<Longrightarrow> pcOk c s pc \<Longrightarrow> pcOk c s' pc"
  by (cases pc) (auto dest: viewOf_grows)

lemma sysOk_update:
  assumes "sysOk c s" and "grows s s'" and "sysSlots s' = sysSlots s"
    and "sysPcs s' = (sysPcs s)[i := pc]" and "pcOk c s pc"
  shows "sysOk c s'"
proof -
  have "list_all (pcOk c s') (sysPcs s)"
    using assms(1,2) by (auto simp: sysOk_def list_all_iff intro: pcOk_grows)
  moreover have "pcOk c s' pc" using pcOk_grows [OF assms(2,5)] .
  ultimately show ?thesis
    using assms viewOf_grows [OF assms(2)] by (auto simp: sysOk_def intro!: list_all_update)
qed

text \<open>Reading one more slot, dead at this moment, extends the view.\<close>

lemma scan_more:
  assumes ok: "sysOk c s" and d: "distinct (connSlots c)" and scan: "pcOk c s (Scan t now k)"
    and k: "k < length (connSlots c)"
  shows "\<exists>v. viewOf s v \<and> (\<forall>j<k. \<not> slotAlive (connTimeoutMs c) now (v ! scanAt c t j)) \<and>
    v ! scanAt c t k = sysSlots s ! scanAt c t k"
proof -
  obtain v where v: "viewOf s v" "\<forall>j<k. \<not> slotAlive (connTimeoutMs c) now (v ! scanAt c t j)"
    using scan by auto
  let ?p = "scanAt c t k"
  have p: "?p < length (sysSlots s)" using ok by (intro scan_slot) (simp add: sysOk_def)
  have "viewOf s (v[?p := sysSlots s ! ?p])"
    using v(1) ok p by (auto simp: viewOf_def sysOk_def nth_list_update)
  moreover have "scanAt c t j \<noteq> ?p" if "j < k" for j
    using that k d by (simp add: scanAt_cycle nth_eq_iff_index_eq cycle_def)
  then have "\<forall>j<k. \<not> slotAlive (connTimeoutMs c) now (v[?p := sysSlots s ! ?p] ! scanAt c t j)"
    using v(2) by (metis nth_list_update_neq)
  moreover have "v[?p := sysSlots s ! ?p] ! ?p = sysSlots s ! ?p" using v(1) p by (simp add: viewOf_def)
  ultimately show ?thesis by blast
qed

lemma sysOk_step:
  assumes "sysStep c s s'" and "sysOk c s" and "distinct (connSlots c)"
  shows "sysOk c s'"
  using assms
proof (induction rule: sysStep.induct)
  case (take_ticket i s r now)
  have "viewOf s (sysSlots s)" using take_ticket by (simp add: sysOk_def)
  then have "pcOk c s (Scan (r - 1) now 0)" by auto
  then show ?case
    by (rule sysOk_update [OF \<open>sysOk c s\<close>, rotated -1]) (simp_all add: grows_def)
next
  case (look_live i s t now k p sl)
  have "pcOk c s (Scan t now k)" using look_live by (metis sysOk_def list_all_length)
  from scan_more [OF \<open>sysOk c s\<close> \<open>distinct (connSlots c)\<close> this look_live(3)]
  obtain v where v: "viewOf s v" "\<forall>j<k. \<not> slotAlive (connTimeoutMs c) now (v ! scanAt c t j)"
      "v ! p = sl"
    using look_live(4,5) by (auto simp: deref_def split: if_splits)
  then have "pcOk c s (Done t now p)"
    using next_live [of s c v k now t] look_live by (auto simp: sysOk_def)
  then show ?case
    by (rule sysOk_update [OF \<open>sysOk c s\<close>, rotated -1]) (simp_all add: grows_def)
next
  case (look_dead i s t now k p sl)
  have "pcOk c s (Scan t now k)" using look_dead by (metis sysOk_def list_all_length)
  from scan_more [OF \<open>sysOk c s\<close> \<open>distinct (connSlots c)\<close> this look_dead(3)]
  obtain v where v: "viewOf s v" "\<forall>j<k. \<not> slotAlive (connTimeoutMs c) now (v ! scanAt c t j)"
      "v ! p = sl"
    using look_dead(4,5) by (auto simp: deref_def split: if_splits)
  then have "pcOk c s (Scan t now (k + 1))"
    using look_dead by (auto simp: less_Suc_eq)
  then show ?case
    by (rule sysOk_update [OF \<open>sysOk c s\<close>, rotated -1]) (simp_all add: grows_def)
next
  case (all_dead i s t now k)
  have "pcOk c s (Scan t now k)" using all_dead by (metis sysOk_def list_all_length)
  then have "pcOk c s (Done t now (scanAt c t 0))"
    using next_dead [of s c _ now t] all_dead by (auto simp: sysOk_def)
  then show ?case
    by (rule sysOk_update [OF \<open>sysOk c s\<close>, rotated -1]) (simp_all add: grows_def)
next
  case (return_slot i s t now p)
  then show ?case
    by (intro sysOk_update [OF \<open>sysOk c s\<close>, of _ i Idle]) (simp_all add: grows_def)
next
  case (stamp_slot s p sl sl' now)
  let ?s = "s\<lparr>sysSlots := (sysSlots s)[p := sl'], sysHeld := (sysHeld s)(p := insert sl' (sysHeld s p))\<rparr>"
  have "grows s ?s" by (auto simp: grows_def)
  moreover have "viewOf ?s (sysSlots ?s)"
    using stamp_slot by (auto simp: sysOk_def viewOf_def nth_list_update)
  ultimately show ?case
    using stamp_slot by (auto simp: sysOk_def connOk_def list_all_iff intro: pcOk_grows)
qed

lemma reachable_sysOk:
  assumes "reachable c slots n s" and "connOk slots c" and "distinct (connSlots c)"
  shows "sysOk c s"
  using assms(1)
proof (induction rule: reachable.induct)
  case init
  show ?case using assms(2) by (auto simp: sysOk_def sysInit_def viewOf_def list_all_iff)
next
  case (step s s')
  then show ?case using assms(3) by (blast intro: sysOk_step)
qed

section \<open>Properties\<close>

text \<open>
  Property C23. However the readers interleave, tickets are handed out in order and, until
  the 64-bit counter has gone round, no ticket is handed out twice and no two readers inside
  \<open>next\<close> hold the same one. So the scans of the readers together start at every slot
  equally often: among the first \<open>m * n\<close> calls of a connection of \<open>n\<close> slots, exactly \<open>m\<close>
  start at slot \<open>b\<close>, for each \<open>b\<close>.
\<close>

theorem threads_tickets:
  assumes "reachable c slots readers s" and "length (sysTaken s) \<le> 2 ^ 64" and "connRr c = 0"
  shows "distinct (sysTaken s) \<and> apart (map ticket (sysPcs s)) \<and>
    (\<forall>m b. b < length (connSlots c) \<and> m * length (connSlots c) \<le> length (sysTaken s) \<longrightarrow>
      length (filter (\<lambda>t. unat t mod length (connSlots c) = b)
        (take (m * length (connSlots c)) (sysTaken s))) = m)"
proof -
  have ok: "ticketsOk 0 s" using reachable_tickets [OF assms(1)] assms(3) by simp
  then have "apart (map ticket (sysPcs s))" using assms(2) by (simp add: ticketsOk_def)
  then show ?thesis using taken_distinct [OF ok assms(2)] tickets_fair [OF ok] assms(2) by blast
qed

text \<open>
  Property C10. The interleaved \<open>next\<close> refines the sequential one: whatever the other
  threads do, the slot a reader is about to return is the one that the sequential \<open>next\<close>
  returns for the reader's ticket and time on some table in which every slot has a content
  that it had at the start or was really stored in it. In particular it exists.
\<close>

theorem threads_next:
  assumes "reachable c slots readers s" and "connOk slots c" and "distinct (connSlots c)"
    and "i < length (sysPcs s)" and "sysPcs s ! i = Done t now p"
  shows "p < length (sysSlots s) \<and>
    (\<exists>v c'. viewOf s v \<and> connNext v (c\<lparr>connRr := t\<rparr>) now = Some (p, c'))"
proof -
  have ok: "sysOk c s" using reachable_sysOk [OF assms(1-3)] .
  then have "pcOk c s (Done t now p)" using assms(4,5) unfolding sysOk_def list_all_length by metis
  then obtain v c' where v: "viewOf s v" "connNext v (c\<lparr>connRr := t\<rparr>) now = Some (p, c')" by auto
  moreover have "connOk v (c\<lparr>connRr := t\<rparr>)" using ok v(1) by (intro connOk_view) (simp_all add: sysOk_def)
  then have "p < length v" using connNext_member [of v "c\<lparr>connRr := t\<rparr>" now] v(2) by auto
  ultimately show ?thesis by (auto simp: viewOf_def)
qed

section \<open>A live slot taken for dead\<close>

text \<open>Stores to the slots \<open>qs\<close>, while a reader is inside \<open>next\<close>.\<close>

lemma stamp_all:
  assumes "reachable c slots n s" and "\<forall>q\<in>set qs. q < length (sysSlots s)"
  shows "\<exists>s'. reachable c slots n s' \<and> sysPcs s' = sysPcs s \<and> length (sysSlots s') = length (sysSlots s) \<and>
    (\<forall>q\<in>set qs. slotLastSeen (sysSlots s' ! q) = later) \<and> (\<forall>p. p \<notin> set qs \<longrightarrow> sysSlots s' ! p = sysSlots s ! p)"
  using assms
proof (induction qs)
  case Nil
  then show ?case by auto
next
  case (Cons q qs)
  then obtain s' where s': "reachable c slots n s'" "sysPcs s' = sysPcs s" "length (sysSlots s') = length (sysSlots s)"
      "\<forall>q\<in>set qs. slotLastSeen (sysSlots s' ! q) = later" "\<forall>p. p \<notin> set qs \<longrightarrow> sysSlots s' ! p = sysSlots s ! p"
    by auto
  let ?sl = "(sysSlots s' ! q)\<lparr>slotLastSeen := later\<rparr>"
  let ?t = "s'\<lparr>sysSlots := (sysSlots s')[q := ?sl], sysHeld := (sysHeld s')(q := insert ?sl (sysHeld s' q))\<rparr>"
  have q: "q < length (sysSlots s')" using Cons.prems(2) s'(3) by simp
  then have "sysStep c s' ?t" by (intro sysStep.stamp_slot) (simp_all add: deref_def)
  then have "reachable c slots n ?t" by (rule reachable.step [OF s'(1)])
  then show ?case
    using s' q by (intro exI [of _ ?t]) (auto simp: nth_list_update)
qed

text \<open>A reader that finds all slots dead comes to return the slot of its ticket.\<close>

lemma scan_all_dead:
  assumes "reachable c slots n s" and "i < length (sysPcs s)" and "sysPcs s ! i = Scan t now k"
    and "k \<le> length (connSlots c)" and "connOk (sysSlots s) c"
    and "\<forall>p\<in>set (connSlots c). \<not> slotAlive (connTimeoutMs c) now (sysSlots s ! p)"
  shows "\<exists>s'. reachable c slots n s' \<and> sysPcs s' ! i = Done t now (scanAt c t 0) \<and> sysSlots s' = sysSlots s"
  using assms
proof (induction "length (connSlots c) - k" arbitrary: s k)
  case 0
  then have "sysStep c s (s\<lparr>sysPcs := (sysPcs s)[i := Done t now (scanAt c t 0)]\<rparr>)"
    by (intro sysStep.all_dead) simp_all
  from reachable.step [OF 0(2) this] show ?case using 0(3) by (intro exI) (auto simp: nth_list_update)
next
  case (Suc m)
  let ?p = "scanAt c t k" and ?s = "s\<lparr>sysPcs := (sysPcs s)[i := Scan t now (k + 1)]\<rparr>"
  have k: "k < length (connSlots c)" using Suc(2) by simp
  then have "?p \<in> set (connSlots c)" unfolding scanAt_def by (intro nth_mem mod_less_divisor) linarith
  then have "sysStep c s ?s"
    using Suc(4-8) k scan_slot [OF Suc(7), of t k]
    by (intro sysStep.look_dead [where p = ?p and sl = "sysSlots s ! ?p"]) (simp_all add: deref_def)
  then have "reachable c slots n ?s" by (rule reachable.step [OF Suc(3)])
  moreover have "m = length (connSlots c) - (k + 1)" using Suc(2) by linarith
  ultimately obtain s' where "reachable c slots n s'" "sysPcs s' ! i = Done t now (scanAt c t 0)" "sysSlots s' = sysSlots ?s"
    using Suc(1) [of "k + 1" ?s] Suc(2,4,7,8) k by auto
  then show ?case by auto
qed

text \<open>The difference of the liveness test, taken from an earlier time.\<close>

lemma later_dead:
  fixes now later timeout :: u64
  assumes "now < later" and "unat (later - now) + unat timeout < 2 ^ 64"
  shows "\<not> now - later \<le> timeout"
proof -
  have n: "unat now < unat later" using assms(1) by (simp add: word_less_nat_alt)
  moreover have "unat later < 2 ^ 64" using unsigned_less [of later, where 'a = nat] by simp
  moreover have "unat (later - now) = unat later - unat now" using n by (simp add: unat_sub_if')
  moreover have "unat (now - later) = unat now + 2 ^ 64 - unat later" using n by (simp add: unat_sub_if')
  ultimately show ?thesis using assms(2) by (simp add: word_le_nat_alt)
qed

text \<open>
  Property C36. The unsigned difference of the liveness test misjudges slots that are heard from
  while a reader is between reading its clock and reading the slots. For every connection, every
  time \<open>now\<close> at which the slot of the next ticket is dead, and every later time: if the stores
  of that later time to all the other slots fall between, then the reader returns the dead
  slot, although every other slot has just been heard from.
\<close>

theorem threads_race:
  assumes ok: "connOk slots c" and "0 < readers" and base: "p = scanAt c (connRr c) 0"
    and dead: "\<not> slotAlive (connTimeoutMs c) now (slots ! p)"
    and later: "now < later" "unat (later - now) + unat (connTimeoutMs c) < 2 ^ 64"
  shows "\<exists>s. reachable c slots readers s \<and> sysPcs s ! 0 = Done (connRr c) now p \<and> sysSlots s ! p = slots ! p \<and>
    (\<forall>q\<in>set (connSlots c) - {p}. slotLastSeen (sysSlots s ! q) = later)"
proof -
  let ?s = "sysInit c slots readers" and ?qs = "filter (\<lambda>q. q \<noteq> p) (connSlots c)"
  let ?s1 = "?s\<lparr>sysRr := connRr c + 1, sysPcs := (sysPcs ?s)[0 := Scan (connRr c) now 0], sysTaken := [connRr c]\<rparr>"
  have "sysStep c ?s ?s1"
    using sysStep.take_ticket [of 0 ?s "connRr c + 1" c now] assms(2) by (simp add: sysInit_def)
  then have "reachable c slots readers ?s1" by (rule reachable.step [OF reachable.init])
  then obtain s2 where s2: "reachable c slots readers s2" "sysPcs s2 = sysPcs ?s1" "length (sysSlots s2) = length slots"
      "\<forall>q\<in>set ?qs. slotLastSeen (sysSlots s2 ! q) = later" "\<forall>r. r \<notin> set ?qs \<longrightarrow> sysSlots s2 ! r = slots ! r"
    using stamp_all [of c slots readers ?s1 ?qs later] ok by (auto simp: sysInit_def connOk_def)
  have "\<not> slotAlive (connTimeoutMs c) now (sysSlots s2 ! q)" if "q \<in> set (connSlots c)" for q
    using that dead s2(4,5) later_dead [OF later] by (cases "q = p") (auto simp: slotAlive_def)
  then obtain s3 where "reachable c slots readers s3" "sysPcs s3 ! 0 = Done (connRr c) now p" "sysSlots s3 = sysSlots s2"
    using scan_all_dead [OF s2(1), of 0 "connRr c" now 0] s2(2,3) ok assms(2)
    by (auto simp: sysInit_def connOk_def base)
  then show ?thesis using s2(4,5) by (intro exI [of _ s3]) auto
qed

section \<open>A concrete run\<close>

text \<open>
  One connection of two slots with a timeout of 50 ms: the first slot was last heard from at
  time 10, the second at time 20.
\<close>

definition raceConn :: conn where
  "raceConn = \<lparr>connVip = 9, connTimeoutMs = 50, connSlots = [0, 1], connRr = 0\<rparr>"

definition raceSlot :: "u64 \<Rightarrow> conn_slot" where
  "raceSlot seen = \<lparr>slotSrcAddr = Sin 7 1, slotSrcFd = 5, slotSrcIdx = 0, slotDstAddr = Sin 7 2,
     slotLastSeen = seen\<rparr>"

definition raceSlots :: "conn_slot list" where "raceSlots = [raceSlot 10, raceSlot 20]"

lemma raceSlots_simps:
  "length raceSlots = 2" "raceSlots ! Suc 0 = raceSlot 20" "raceSlots[Suc 0 := x] = [raceSlot 10, x]"
  "(raceSlot a)\<lparr>slotLastSeen := b\<rparr> = raceSlot b"
  by (simp_all add: raceSlots_def raceSlot_def)

definition raceHeld :: "nat \<Rightarrow> conn_slot set" where
  "raceHeld = (\<lambda>p. if p < length raceSlots then {raceSlots ! p} else {})(1 := {raceSlot 101, raceSlot 20})"

definition raceState :: "pc \<Rightarrow> sys" where
  "raceState pc = \<lparr>sysRr = 1, sysSlots = [raceSlot 10, raceSlot 101], sysPcs = [pc, Idle], sysTaken = [0],
     sysHeld = raceHeld\<rparr>"

text \<open>A reader reads the clock, 100, and takes its ticket; then the second slot is stamped.\<close>

lemma race_stamped: "reachable raceConn raceSlots 2 (raceState (Scan 0 100 0))"
proof -
  let ?s1 = "(sysInit raceConn raceSlots 2)\<lparr>sysRr := 1, sysPcs := [Scan 0 100 0, Idle], sysTaken := [0]\<rparr>"
  have "sysStep raceConn (sysInit raceConn raceSlots 2) ?s1"
    using sysStep.take_ticket [of 0 "sysInit raceConn raceSlots 2" 1 raceConn 100]
    by (simp add: sysInit_def raceConn_def numeral_2_eq_2)
  then have "reachable raceConn raceSlots 2 ?s1"
    by (rule reachable.step [OF reachable.init])
  moreover have "sysStep raceConn ?s1 (raceState (Scan 0 100 0))"
    using sysStep.stamp_slot [of ?s1 1 "raceSlot 20" "raceSlot 101" 101 raceConn]
    by (simp add: sysInit_def raceSlots_simps raceState_def raceHeld_def)
  ultimately show ?thesis by (rule reachable.step)
qed

lemma race_dead:
  assumes "k < 2"
  shows "sysStep raceConn (raceState (Scan 0 100 k)) (raceState (Scan 0 100 (k + 1)))"
proof -
  have "\<not> (- 1 :: u64) \<le> 50"
    by (simp add: word_le_nat_alt unsigned_minus_1_eq_mask mask_eq_exp_minus_1)
  moreover have "k = 0 \<or> k = 1" using assms by auto
  ultimately show ?thesis
    using sysStep.look_dead [of 0 "raceState (Scan 0 100 k)" 0 100 k raceConn k
        "if k = 0 then raceSlot 10 else raceSlot 101"]
    by (auto simp: raceState_def raceConn_def scanAt_def slotAlive_def raceSlot_def)
qed

lemma race_done: "reachable raceConn raceSlots 2 (raceState (Done 0 100 0))"
proof -
  have "reachable raceConn raceSlots 2 (raceState (Scan 0 100 2))"
    using reachable.step [OF race_stamped race_dead [of 0]] reachable.step [OF _ race_dead [of 1]]
    by (simp add: numeral_2_eq_2)
  moreover have "sysStep raceConn (raceState (Scan 0 100 2)) (raceState (Done 0 100 0))"
    using sysStep.all_dead [of 0 "raceState (Scan 0 100 2)" 0 100 2 raceConn]
    by (simp add: raceState_def raceConn_def scanAt_def)
  ultimately show ?thesis by (rule reachable.step)
qed

theorem threads_tickets_witness:
  "\<exists>s. reachable raceConn raceSlots 2 s \<and> sysTaken s = [0] \<and> apart (map ticket (sysPcs s))"
  using threads_tickets [OF race_stamped] race_stamped
  by (intro exI [of _ "raceState (Scan 0 100 0)"]) (simp add: raceState_def raceConn_def)

theorem threads_next_witness:
  "\<exists>v c'. viewOf (raceState (Done 0 100 0)) v \<and> connNext v raceConn 100 = Some (0, c')"
proof -
  have "connOk raceSlots raceConn" "distinct (connSlots raceConn)"
    by (auto simp: connOk_def raceSlots_def raceConn_def)
  moreover have "sysPcs (raceState (Done 0 100 0)) ! 0 = Done 0 100 0" "0 < length (sysPcs (raceState (Done 0 100 0)))"
    by (simp_all add: raceState_def)
  ultimately have "\<exists>v c'. viewOf (raceState (Done 0 100 0)) v \<and> connNext v (raceConn\<lparr>connRr := 0\<rparr>) 100 = Some (0, c')"
    using threads_next [OF race_done] by blast
  moreover have "raceConn\<lparr>connRr := 0\<rparr> = raceConn" by (simp add: raceConn_def)
  ultimately show ?thesis by simp
qed

theorem threads_race_witness:
  "\<exists>s. reachable raceConn raceSlots 2 s \<and> sysPcs s ! 0 = Done 0 100 0 \<and>
     slotLastSeen (sysSlots s ! 0) = 10 \<and> slotLastSeen (sysSlots s ! 1) = 101"
proof -
  have c: "connOk raceSlots raceConn" "connRr raceConn = 0" "connTimeoutMs raceConn = 50"
      "set (connSlots raceConn) = {0, 1}" "scanAt raceConn 0 0 = 0" "slotLastSeen (raceSlots ! 0) = 10"
    by (auto simp: connOk_def raceSlots_def raceConn_def raceSlot_def scanAt_def)
  from threads_race [of raceSlots raceConn 2 0 100 101] show ?thesis
    using c by (auto simp: slotAlive_def)
qed

end
