(* ===== verification/IniPrint.thy ===== *)
theory IniPrint
  imports Ini
begin

text \<open>
  Files for the INI parser: every configuration of named sections with keys and values can be
  written down, and the parser reads it back. The printer is part of the specification; the
  program has none.
\<close>

section \<open>Printing\<close>

type_synonym ini_file = "(string \<times> (string \<times> string) list) list"

definition printEntry :: "string \<times> string \<Rightarrow> string" where
  "printEntry kv = fst kv @ ''='' @ snd kv @ [CHR 0x0A]"

definition printSection :: "string \<times> (string \<times> string) list \<Rightarrow> string" where
  "printSection s = ''['' @ fst s @ '']'' @ [CHR 0x0A] @ concat (map printEntry (snd s))"

definition printIni :: "ini_file \<Rightarrow> string" where
  "printIni f = concat (map printSection f)"

text \<open>
  Names and values are on one line and have no white space at their ends; a key moreover is not
  empty, has no \<^verbatim>\<open>=\<close>, and does not start like a comment or a header.
\<close>

definition plainText :: "string \<Rightarrow> bool" where
  "plainText s \<longleftrightarrow> CHR 0x0A \<notin> set s \<and> (s = [] \<or> \<not> isSpace (hd s) \<and> \<not> isSpace (last s))"

definition keyText :: "string \<Rightarrow> bool" where
  "keyText k \<longleftrightarrow> plainText k \<and> k \<noteq> [] \<and> CHR ''='' \<notin> set k \<and> hd k \<notin> {CHR ''#'', CHR '';'', CHR ''[''}"

definition iniOk :: "ini_file \<Rightarrow> bool" where
  "iniOk f \<longleftrightarrow> distinct (map fst f) \<and> (\<forall>s\<in>set f. plainText (fst s) \<and> distinct (map fst (snd s)) \<and>
     (\<forall>kv\<in>set (snd s). keyText (fst kv) \<and> plainText (snd kv)))"

section \<open>What the parser reads\<close>

lemma classify_entry:
  assumes "splitOk L" and "stripOk L" and "keyText k" and "plainText v"
  shows "classify L (stripSpace L (k @ ''='' @ v)) = Pair k v"
proof -
  have k: "k \<noteq> []" "CHR ''='' \<notin> set k" "hd k \<notin> {CHR ''#'', CHR '';'', CHR ''[''}" "\<not> isSpace (hd k)"
    using assms(3) by (auto simp: keyText_def plainText_def)
  have id: "stripSpace L k = k" "stripSpace L v = v"
    using assms(3,4) by (auto simp: keyText_def plainText_def intro!: stripOk_id [OF assms(2)])
  have "stripSpace L (k @ ''='' @ v) = k @ ''='' @ v"
    using k assms(4) by (intro stripOk_id [OF assms(2)]) (auto simp: plainText_def isSpace_def)
  moreover have "split L (k @ CHR ''='' # v) (CHR ''='') = Some (k, v)" using splitOk_at [OF assms(1) k(2)] .
  ultimately show ?thesis using k by (simp add: classify_def id)
qed

lemma classify_header:
  assumes "stripOk L" and "plainText n"
  shows "classify L (stripSpace L (''['' @ n @ '']'')) = Head n"
proof -
  have "stripSpace L (''['' @ n @ '']'') = ''['' @ n @ '']''"
    by (intro stripOk_id [OF assms(1)]) (auto simp: isSpace_def)
  moreover have "stripSpace L n = n" using assms(2) by (intro stripOk_id [OF assms(1)]) (auto simp: plainText_def)
  ultimately show ?thesis by (simp add: classify_def butlast_append)
qed

lemma fileItems_line:
  "CHR 0x0A \<notin> set line \<Longrightarrow>
   fileItems L (line @ CHR 0x0A # src) = classify L (stripSpace L line) # fileItems L src"
  by (simp add: fileItems_def fieldsBy_at)

lemma fileItems_entries:
  assumes "splitOk L" and "stripOk L" and "\<forall>kv\<in>set kvs. keyText (fst kv) \<and> plainText (snd kv)"
  shows "fileItems L (concat (map printEntry kvs) @ src) = map (\<lambda>kv. Pair (fst kv) (snd kv)) kvs @ fileItems L src"
  using assms(3)
proof (induction kvs)
  case (Cons kv kvs)
  then have nl: "CHR 0x0A \<notin> set (fst kv @ ''='' @ snd kv)" by (auto simp: keyText_def plainText_def)
  have line: "concat (map printEntry (kv # kvs)) @ src =
      (fst kv @ ''='' @ snd kv) @ CHR 0x0A # concat (map printEntry kvs) @ src"
    by (simp add: printEntry_def)
  show ?case
    unfolding line fileItems_line [OF nl]
    using Cons classify_entry [OF assms(1,2), of "fst kv" "snd kv"] by simp
qed simp

definition sectionItems :: "string \<times> (string \<times> string) list \<Rightarrow> item list" where
  "sectionItems s = Head (fst s) # map (\<lambda>kv. Pair (fst kv) (snd kv)) (snd s)"

lemma fileItems_print:
  assumes "splitOk L" and "stripOk L" and "iniOk f"
  shows "fileItems L (printIni f) = concat (map sectionItems f) @ [Skip]"
  using assms(3)
proof (induction f)
  case Nil
  then show ?case by (simp add: printIni_def fileItems_Nil [OF assms(2)])
next
  case (Cons s f)
  then have s: "plainText (fst s)" "\<forall>kv\<in>set (snd s). keyText (fst kv) \<and> plainText (snd kv)" "iniOk f"
    by (auto simp: iniOk_def)
  have line: "printIni (s # f) = (''['' @ fst s @ '']'') @ CHR 0x0A # concat (map printEntry (snd s)) @ printIni f"
    by (simp add: printIni_def printSection_def)
  have "CHR 0x0A \<notin> set (''['' @ fst s @ '']'')" using s(1) by (auto simp: plainText_def)
  then show ?case
    unfolding line fileItems_line [OF \<open>_ \<notin> _\<close>]
    using Cons.IH [OF s(3)] fileItems_entries [OF assms(1,2) s(2)] classify_header [OF assms(2) s(1)]
    by (simp add: sectionItems_def)
qed

lemma firstFault_append: "firstFault xs = None \<Longrightarrow> firstFault (xs @ ys) = firstFault ys"
  by (induction xs rule: firstFault.induct) auto

lemma entries_pairs: "entries n (map (\<lambda>kv. Pair (fst kv) (snd kv)) kvs @ xs) = map (\<lambda>kv. (n, kv)) kvs @ entries n xs"
  by (induction kvs) auto

lemma headers_pairs: "headers (map (\<lambda>kv. Pair (fst kv) (snd kv)) kvs @ xs) = headers xs"
  by (induction kvs) auto

lemma printed_items:
  "firstFault (concat (map sectionItems f) @ [Skip]) = None"
  "headers (concat (map sectionItems f) @ [Skip]) = fst ` set f"
  "entries m (concat (map sectionItems f) @ [Skip]) = concat (map (\<lambda>s. map (\<lambda>kv. (fst s, kv)) (snd s)) f)"
proof -
  have pairs: "firstFault (map (\<lambda>kv. Pair (fst kv) (snd kv)) kvs) = None" for kvs by (induction kvs) auto
  show "firstFault (concat (map sectionItems f) @ [Skip]) = None"
    by (induction f) (simp_all add: sectionItems_def firstFault_append [OF pairs])
  show "headers (concat (map sectionItems f) @ [Skip]) = fst ` set f"
    by (induction f) (simp_all add: sectionItems_def headers_pairs)
  show "entries m (concat (map sectionItems f) @ [Skip]) = concat (map (\<lambda>s. map (\<lambda>kv. (fst s, kv)) (snd s)) f)"
    by (induction f arbitrary: m) (simp_all add: sectionItems_def entries_pairs)
qed

lemma entriesOf_section:
  assumes "distinct (map fst f)" and "(n, kvs) \<in> set f"
  shows "entriesOf n (concat (map (\<lambda>s. map (\<lambda>kv. (fst s, kv)) (snd s)) f)) = kvs"
proof -
  have app: "entriesOf n (xs @ ys) = entriesOf n xs @ entriesOf n ys" for xs ys by (simp add: entriesOf_def)
  have one: "entriesOf n (map (\<lambda>kv. (m, kv)) ys) = (if m = n then ys else [])" for m ys
    by (simp add: entriesOf_def filter_map comp_def)
  have no: "entriesOf n (concat (map (\<lambda>s. map (\<lambda>kv. (fst s, kv)) (snd s)) g)) = []" if "n \<notin> fst ` set g" for g
    using that by (induction g) (auto simp: app one entriesOf_def)
  show ?thesis
    using assms
  proof (induction f)
    case (Cons s f)
    show ?case
    proof (cases "s = (n, kvs)")
      case True
      then show ?thesis using Cons.prems(1) no [of f] by (simp add: app one)
    next
      case False
      then have "(n, kvs) \<in> set f" "fst s \<noteq> n" using Cons.prems by (auto intro: rev_image_eqI)
      then show ?thesis using Cons by (simp add: app one)
    qed
  qed simp
qed

text \<open>
  Property C26. Every configuration that can be written can be read: a file with sections of
  distinct names, and distinct keys in each, is parsed without an error, to a configuration
  with exactly these sections (and the unnamed one), each with its keys in the order of the
  file and with their values.
\<close>

theorem ini_roundtrip:
  assumes "splitOk L" "stripOk L" "affixOk L" "mapOk M" "mapOk C" and f: "iniOk f"
  shows "\<exists>cfg. parseConfig L M C (printIni f) = Some (Inr cfg) \<and>
    (\<forall>n. findSection C cfg n \<noteq> None \<longleftrightarrow> n = [] \<or> n \<in> fst ` set f) \<and>
    (\<forall>n kvs. (n, kvs) \<in> set f \<longrightarrow> (\<exists>p. findSection C cfg n = Some p \<and> p < length (secs cfg) \<and>
      secKeys (secs cfg ! p) = map fst kvs \<and> (\<forall>k. mFind M (secMap (secs cfg ! p)) k = map_of kvs k)))"
proof -
  note items = fileItems_print [OF assms(1,2) f] and printed = printed_items [where f = f]
  obtain cfg where cfg: "parseConfig L M C (printIni f) = Some (Inr cfg)"
      "represents M C cfg (insert [] (fst ` set f)) (concat (map (\<lambda>s. map (\<lambda>kv. (fst s, kv)) (snd s)) f))"
    using parseConfig_reads [OF assms(1-5), of "printIni f"] by (auto simp: items printed)
  have "\<exists>p. findSection C cfg n = Some p \<and> p < length (secs cfg) \<and> secKeys (secs cfg ! p) = map fst kvs \<and>
      (\<forall>k. mFind M (secMap (secs cfg ! p)) k = map_of kvs k)" if kvs: "(n, kvs) \<in> set f" for n kvs
  proof -
    have "n \<in> fst ` set f" using kvs by force
    then obtain p where p: "findSection C cfg n = Some p" using represents_None [OF cfg(2), of n] by auto
    have d: "distinct (map fst kvs)" "distinct (map fst f)" using f kvs by (auto simp: iniOk_def)
    have "holds M (secs cfg ! p) kvs"
      using representsD(3) [OF cfg(2) p] entriesOf_section [OF d(2) kvs] by simp
    moreover have "map_of (rev kvs) k = map_of kvs k" for k using d(1) map_of_inject_set [of "rev kvs" kvs] by (simp add: rev_map [symmetric])
    ultimately show ?thesis
      using p representsD(2) [OF cfg(2) p] d(1) by (simp add: holds_def firstKeys_def lastValue_def distinct_remdups_id)
  qed
  moreover have "findSection C cfg n \<noteq> None \<longleftrightarrow> n = [] \<or> n \<in> fst ` set f" for n
    using represents_None [OF cfg(2), of n] by auto
  ultimately show ?thesis using cfg(1) by blast
qed

definition exFile :: ini_file where
  "exFile = [(''me'', [(''a'', ''1''), (''b'', [])]), (''peer x'', [(''vip'', ''10.0.0.1'')])]"

theorem ini_roundtrip_witness:
  "\<exists>cfg p. parseConfig exLib exMap exMap (printIni exFile) = Some (Inr cfg) \<and>
     findSection exMap cfg ''me'' = Some p \<and> secKeys (secs cfg ! p) = [''a'', ''b''] \<and>
     mFind exMap (secMap (secs cfg ! p)) ''b'' = Some []"
proof -
  have ok: "iniOk exFile"
    by (simp add: iniOk_def exFile_def plainText_def keyText_def isSpace_def)
  obtain cfg :: "(string \<Rightarrow> nat option, string \<Rightarrow> string option) ini_config" where
      cfg: "parseConfig exLib exMap exMap (printIni exFile) = Some (Inr cfg)"
      "\<forall>n kvs. (n, kvs) \<in> set exFile \<longrightarrow> (\<exists>p. findSection exMap cfg n = Some p \<and> p < length (secs cfg) \<and>
        secKeys (secs cfg ! p) = map fst kvs \<and> (\<forall>k. mFind exMap (secMap (secs cfg ! p)) k = map_of kvs k))"
    using ini_roundtrip [OF splitOk_exLib stripOk_exLib affixOk_exLib mapOk_exMap mapOk_exMap ok]
    by (elim exE conjE) (rule that)
  have "(''me'', [(''a'', ''1''), (''b'', [])]) \<in> set exFile" by (simp add: exFile_def)
  with cfg(2) obtain p where "findSection exMap cfg ''me'' = Some p"
      "secKeys (secs cfg ! p) = map fst [(''a'', ''1''), (''b'', [])]"
      "\<forall>k. mFind exMap (secMap (secs cfg ! p)) k = map_of [(''a'', ''1''), (''b'', [])] k" by blast
  with cfg(1) show ?thesis by simp
qed

end
