(* ===== verification/AddrPrint.thy ===== *)
theory AddrPrint
  imports Addr Health
begin

text \<open>
  A printer of addresses and overlay networks, which the program has not, and that
  \<^verbatim>\<open>parseIPv4\<close> and \<^verbatim>\<open>parseCIDR\<close> of \<^verbatim>\<open>addr.cpp\<close> read back what it prints.
\<close>

section \<open>The printer\<close>

text \<open>The bytes of an address from the most significant on, in decimal, with dots between them.\<close>

fun dotted :: "bytes \<Rightarrow> string" where
  "dotted [] = []"
| "dotted [b] = showNat (unat b)"
| "dotted (b # bs) = showNat (unat b) @ CHR ''.'' # dotted bs"

definition netBytes :: "u32 \<Rightarrow> bytes" where "netBytes a = rev (leBytes 4 a)"

definition showIPv4 :: "u32 \<Rightarrow> string" where "showIPv4 a = dotted (netBytes a)"

definition showCIDR :: "u32 \<Rightarrow> nat \<Rightarrow> string" where
  "showCIDR a n = showIPv4 a @ CHR ''/'' # showNat n"

text \<open>
  What \<^verbatim>\<open>inet_pton\<close> and \<^verbatim>\<open>stou\<close> do on such texts: the former gives the bytes of the address in
  network order, the latter the number.
\<close>

definition inetReads :: "lib \<Rightarrow> u32 \<Rightarrow> bool" where
  "inetReads L a \<longleftrightarrow> inetPton4 L (showIPv4 a) = Some (netBytes a)"

definition stouReads :: "lib \<Rightarrow> nat \<Rightarrow> bool" where
  "stouReads L n \<longleftrightarrow> stou L (showNat n) = word_of_nat n"

section \<open>The texts printed\<close>

lemma showNat_digits: "set (showNat n) \<subseteq> {c. 48 \<le> (of_char c :: nat) \<and> (of_char c :: nat) < 58}"
proof (induction n rule: showNat.induct)
  case (1 n)
  have d: "(of_char (char_of (48 + k :: nat)) :: nat) = 48 + k" if "k < 10" for k
    using that by (simp add: of_char_of)
  show ?case
    using 1 d [of n] d [of "n mod 10"] by (subst showNat.simps) (auto simp del: of_char_of)
qed

lemma showNat_no: "c \<notin> set (showNat n)" if "(of_char c :: nat) < 48"
  using showNat_digits [of n] that by auto

lemma length_showNat: "n < 1000 \<Longrightarrow> length (showNat n) \<le> 3"
  by (subst showNat.simps, simp) (subst showNat.simps, simp, subst showNat.simps, simp)

lemma netBytes_eq:
  "netBytes a = [ucast (drop_bit 24 a), ucast (drop_bit 16 a), ucast (drop_bit 8 a), ucast a]"
  by (simp add: netBytes_def numeral_eq_Suc drop_bit_drop_bit)

lemma showIPv4_no: "c \<notin> set (showIPv4 a)" if "(of_char c :: nat) < 48" "c \<noteq> CHR ''.''"
  using that by (simp add: showIPv4_def netBytes_eq showNat_no)

text \<open>The buffer of 16 bytes holds every address and its terminating zero.\<close>

lemma length_showIPv4: "length (showIPv4 a) < 16"
proof -
  have "unat b < 2 ^ LENGTH(8)" for b :: u8 by (rule unsigned_less)
  then have "unat b < 1000" for b :: u8 by (rule order_less_trans) simp
  then have l: "length (showNat (unat b)) \<le> 3" for b :: u8 by (rule length_showNat)
  show ?thesis
    using l [of "ucast a"] l [of "ucast (drop_bit 8 a)"] l [of "ucast (drop_bit 16 a)"]
      l [of "ucast (drop_bit 24 a)"]
    by (simp add: showIPv4_def netBytes_eq)
qed

lemma ntohl_netBytes: "ntohl (leWord (netBytes a)) = a"
proof -
  have "ntohl (leWord (netBytes a)) = htonl (ntohl a)"
    by (simp add: ntohl_def htonl_def bswap32_def netBytes_def)
  then show ?thesis by (simp add: htonl_ntohl)
qed

lemma parseIPv4_shown:
  assumes "inetReads L a"
  shows "parseIPv4 L (showIPv4 a) = Inr a"
proof -
  have "cstr (showIPv4 a) = showIPv4 a"
    using showIPv4_no [of "CHR 0x00" a] by (auto simp: cstr_def takeWhile_eq_all_conv)
  then show ?thesis
    using assms length_showIPv4 [of a] by (simp add: parseIPv4_eq inetReads_def ntohl_netBytes)
qed

text \<open>
  Property C38. An overlay network, printed as an address in dotted decimal, a slash and the length
  of the prefix, is read back by \<^verbatim>\<open>parseCIDR\<close>: every address, whose text and terminating zero
  fit the buffer of 16 bytes, whole and in host order; and the length up to its low 8 bits, as the
  code does not validate it: \<open>280\<close> counts as \<open>24\<close>. An address alone has prefix length 32.
\<close>

theorem parseCIDR_roundtrip:
  assumes "splitOk L" and "inetReads L a" and "stouReads L n"
  shows "(\<exists>p. parseCIDR L (showCIDR a n) = Inr (a, p) \<and> unat p = n mod 256) \<and>
    parseCIDR L (showIPv4 a) = Inr (a, 32)"
proof -
  have no: "CHR ''/'' \<notin> set (showIPv4 a)" by (rule showIPv4_no) simp_all
  have "unat (ucast (word_of_nat n :: u64) :: u8) = n mod 256"
    by (simp add: unat_ucast_u8 unat_of_nat mod_mod_cancel)
  then show ?thesis
    using assms(3) splitOk_at [OF assms(1) no] splitOk_notin [OF assms(1) no] parseIPv4_shown [OF assms(2)]
    by (simp add: parseCIDR_def showCIDR_def stouReads_def)
qed

theorem parseCIDR_roundtrip_witness:
  "parseCIDR exLib ''10.9.0.1/24'' = Inr (0x0A090001, 24) \<and> parseCIDR exLib ''10.9.0.1/280'' = Inr (0x0A090001, 24)"
proof -
  have b: "netBytes 0x0A090001 = [10, 9, 0, 1]" by (simp add: netBytes_eq)
  have s: "showIPv4 0x0A090001 = ''10.9.0.1''" by (simp add: showIPv4_def b showNat.simps char_of_def bit_Suc_0_iff)
  have n: "showNat 24 = ''24''" "showNat 280 = ''280''" by (simp_all add: showNat.simps char_of_def bit_Suc_0_iff)
  have "inetReads exLib 0x0A090001"
    by (simp add: inetReads_def s b exLib_def exInet_def isDigit_def)
  moreover have "stouReads exLib 24" "stouReads exLib 280"
    by (simp_all add: stouReads_def n exLib_def)
  ultimately have "\<exists>p. parseCIDR exLib (showCIDR 0x0A090001 24) = Inr (0x0A090001, p) \<and> unat p = 24"
      "\<exists>p. parseCIDR exLib (showCIDR 0x0A090001 280) = Inr (0x0A090001, p) \<and> unat p = 24"
    using parseCIDR_roundtrip [OF splitOk_exLib, of "0x0A090001" 24]
      parseCIDR_roundtrip [OF splitOk_exLib, of "0x0A090001" 280] by simp_all
  moreover have "p = 24" if "unat p = 24" for p :: u8 using that by (simp add: word_unat_eq_iff)
  ultimately show ?thesis by (auto simp: showCIDR_def s n)
qed

end
