(* ===== verification/Steps.thy ===== *)
theory Steps
  imports Tunnel Health
begin

text \<open>
  The threads of \<^verbatim>\<open>plane.cpp\<close> in small steps. A step makes at most one access to data that
  other threads change: it takes a slot of a connection (\<^verbatim>\<open>next\<close>, which theory Threads takes
  apart), stamps a slot or looks at one; all it does besides is in the thread's own memory and
  in its calls to the system. Between two steps
  the other threads run. A thread alone makes, in several steps, exactly a round of its loop as
  theory Plane has it.
\<close>

section \<open>The TUN reader\<close>

text \<open>
  Where a reader is: before the read; with a packet for a connection to send, before and after
  the clock; with segments to send, before the clock; and before the part that starts at
  segment \<open>i\<close> of \<open>n\<close>.
\<close>

datatype tun_pc =
    TunRead
  | TunSend nat bytes
  | TunNext nat u64 bytes
  | TunSegs nat nat
  | TunPart nat u16 u64 nat nat nat

text \<open>What is done with a packet, up to the first access to shared data that change.\<close>

definition tunChoose ::
  "'i int_ops \<Rightarrow> virtio_net_hdr \<Rightarrow> nat \<Rightarrow> 'i conn_table \<Rightarrow> tun_scratch \<Rightarrow> (tun_pc \<times> tun_scratch \<times> ev list) option"
where
  "tunChoose I hdr innerLen ct sc = do {
     let inner = drop VIRTIO_NET_HDR_LEN (tsReadBuf sc);
     let back = (\<lambda>b. take VIRTIO_NET_HDR_LEN (tsReadBuf sc) @ b);
     dstVip \<leftarrow> dstFromIPv4 inner innerLen;
     (case dstVip of None \<Rightarrow> Some (TunRead, sc, []) | Some v \<Rightarrow>
     (case ctLookup I ct v of None \<Rightarrow> Some (TunRead, sc, []) | Some conn \<Rightarrow>
     if gsoType hdr = VIRTIO_NET_HDR_GSO_NONE
     then do {
       inner \<leftarrow> (if flags hdr AND VIRTIO_NET_HDR_F_NEEDS_CSUM \<noteq> 0
                then gsoNoneChecksum inner innerLen (csumStart hdr) (csumOffset hdr)
                else Some inner);
       pkt \<leftarrow> rdBlk inner 0 innerLen;
       Some (TunSend conn pkt, sc\<lparr>tsReadBuf := back inner\<rparr>, []) }
     else if gsoType hdr = VIRTIO_NET_HDR_GSO_TCPV4
     then do {
       (segs, inner, out) \<leftarrow> gsoSplit inner innerLen hdr (tsSegs sc) MAX_SEGS;
       let sc = sc\<lparr>tsReadBuf := back inner, tsSegs := out\<rparr>;
       (if segs < 0
        then Some (TunRead, sc, [warn ''gsoSplit: too many segments / unsupported gso_type''])
        else Some (TunSegs conn (nat segs), sc, [])) }
     else Some (TunRead, sc, [warn ''tunReader: unsupported gso_type'']))) }"

fun tunMicro ::
  "os \<Rightarrow> 'i int_ops \<Rightarrow> int \<Rightarrow> 'i conn_table \<times> (tun_pc \<times> tun_scratch) \<times> ev list
    \<Rightarrow> ('i conn_table \<times> (tun_pc \<times> tun_scratch) \<times> ev list) option"
where
  "tunMicro os I fd (ct, (TunRead, sc), h) =
     (let e = ReadFd fd (length (tsReadBuf sc)); n = osRes os h e; h = h @ [e]
      in if n < 0 then Some (ct, (TunRead, sc), h @ [WarnErrno ''tun read'' (osErrno os h)])
         else do {
           buf \<leftarrow> wrBlk (tsReadBuf sc) 0 (take (nat n) (osRead os h));
           let sc = sc\<lparr>tsReadBuf := buf\<rparr>;
           if nat n < VIRTIO_NET_HDR_LEN + 20 then Some (ct, (TunRead, sc), h)
           else do {
             hdr \<leftarrow> decodeVirtioNetHdr buf;
             (pc, sc, ws) \<leftarrow> tunChoose I hdr (nat n - VIRTIO_NET_HDR_LEN) ct sc;
             Some (ct, (pc, sc), h @ ws) } })"
| "tunMicro os I fd (ct, (TunSend c pkt, sc), h) =
     (let (now, h) = nowMs os h in Some (ct, (TunNext c now pkt, sc), h))"
| "tunMicro os I fd (ct, (TunNext c now pkt, sc), h) = do {
     (p, ct) \<leftarrow> ctNext ct c now;
     s \<leftarrow> ctSlot ct p;
     Some (ct, (TunRead, sc),
       callWarn os h (SendTo (slotSrcFd s) pkt (slotDstAddr s) (addrLen (slotDstAddr s))) ''udp sendto'') }"
| "tunMicro os I fd (ct, (TunSegs c n, sc), h) = do {
     n0 \<leftarrow> deref (outSizes (tsSegs sc)) 0;
     let (now, h) = nowMs os h;
     Some (ct, (TunPart c (of_nat n0) now ((n + USO_PARTS - 1) div USO_PARTS) n 0, sc), h) }"
| "tunMicro os I fd (ct, (TunPart c g now P n i, sc), h) =
     (if i < n
      then do {
        (ct, sc, h) \<leftarrow> usoPart os c g now i (usoEnd i P n) (ct, sc, h);
        Some (ct, (TunPart c g now P n (usoEnd i P n), sc), h) }
      else Some (ct, (TunRead, sc), h))"

section \<open>The UDP reader\<close>

text \<open>Before the batch; with \<open>n\<close> messages, before the clock; before message \<open>i\<close> of \<open>n\<close>.\<close>

datatype udp_pc = UdpRecv | UdpClock nat | UdpMsgs u64 nat nat

fun udpMicro ::
  "os \<Rightarrow> 'i int_ops \<Rightarrow> int \<Rightarrow> int \<Rightarrow> u32 \<Rightarrow> 'i conn_table \<times> (udp_pc \<times> udp_scratch) \<times> ev list
    \<Rightarrow> ('i conn_table \<times> (udp_pc \<times> udp_scratch) \<times> ev list) option"
where
  "udpMicro os I fd tunFd srcIdx (ct, (UdpRecv, sc), h) =
     (let e = RecvMMsg fd BATCH; n = osRes os h e; h = h @ [e]
      in if n < 0 then Some (ct, (UdpRecv, sc), h @ [WarnErrno ''udp recvmmsg'' (osErrno os h)])
         else do {
           sc \<leftarrow> deliverAll 0 (take (nat n) (osRecv os h)) sc;
           Some (ct, (UdpClock (nat n), sc), h) })"
| "udpMicro os I fd tunFd srcIdx (ct, (UdpClock n, sc), h) =
     (let (now, h) = nowMs os h in Some (ct, (UdpMsgs now n 0, sc), h))"
| "udpMicro os I fd tunFd srcIdx (ct, (UdpMsgs now n i, sc), h) =
     (if i < n
      then do {
        (ct, sc, h) \<leftarrow> udpMessage os I tunFd srcIdx now i (ct, sc, h);
        Some (ct, (UdpMsgs now n (i + 1), sc), h) }
      else Some (ct, (UdpRecv, sc), h))"

section \<open>The prober and the statistics\<close>

text \<open>The slots still to be probed in this pass; the line being built and the slots still to come.\<close>

fun probeMicro ::
  "os \<Rightarrow> nat list \<Rightarrow> u64 \<Rightarrow> 'i conn_table \<times> nat list \<times> ev list \<Rightarrow> ('i conn_table \<times> nat list \<times> ev list) option"
where
  "probeMicro os slots iv (ct, [], h) = Some (ct, slots, h @ [USleep (ucast (iv * 1000))])"
| "probeMicro os slots iv (ct, p # ps, h) = do {
     h \<leftarrow> probeSlots os ct [p] h;
     Some (ct, ps, h) }"

datatype stat_pc = StatClock | StatScan u64 "nat list" stats

definition emptyStats :: stats where
  "emptyStats = \<lparr>statAlive = 0, statDead = 0, statLine = ''gofra slots:''\<rparr>"

fun statMicro ::
  "os \<Rightarrow> nat list \<Rightarrow> u64 \<Rightarrow> u64 \<Rightarrow> 'i conn_table \<times> stat_pc \<times> ev list
    \<Rightarrow> ('i conn_table \<times> stat_pc \<times> ev list) option"
where
  "statMicro os slots tm iv (ct, StatClock, h) =
     (let (now, h) = nowMs os h in Some (ct, StatScan now slots emptyStats, h))"
| "statMicro os slots tm iv (ct, StatScan now [] st, h) =
     Some (ct, StatClock, h @ [LogLine (statLine st),
       LogLine (''gofra slot_health alive='' @ showNat (unat (statAlive st)) @
                '' dead='' @ showNat (unat (statDead st))),
       SleepS (ucast iv)])"
| "statMicro os slots tm iv (ct, StatScan now (p # ps) st, h) = do {
     st \<leftarrow> statSlots os ct tm now [p] st;
     Some (ct, StatScan now ps st, h) }"

section \<open>A thread alone\<close>

lemma rounds_add: "rounds (m + n) f s = Option.bind (rounds m f s) (rounds n f)"
  by (induction m arbitrary: s) (auto split: Option.bind_splits)

lemma rounds_trans: "rounds m f s = Some t \<Longrightarrow> rounds n f t = r \<Longrightarrow> rounds (m + n) f s = r"
  by (simp add: rounds_add)

text \<open>\<open>leads f s t\<close>: some number of steps, at least one, leads from \<open>s\<close> to \<open>t\<close>.\<close>

definition leads :: "('s \<Rightarrow> 's option) \<Rightarrow> 's \<Rightarrow> 's \<Rightarrow> bool" where
  "leads f s t \<longleftrightarrow> (\<exists>n. rounds (Suc n) f s = Some t)"

lemma leads_step: "f s = Some t \<Longrightarrow> leads f s t"
  unfolding leads_def by (rule exI [of _ 0]) simp

lemma leads_trans: "leads f s t \<Longrightarrow> leads f t u \<Longrightarrow> leads f s u"
proof -
  assume "leads f s t" "leads f t u"
  then obtain m n where "rounds (Suc m) f s = Some t" "rounds (Suc n) f t = Some u"
    by (auto simp: leads_def)
  then have "rounds (Suc m + Suc n) f s = Some u" by (rule rounds_trans)
  then show ?thesis unfolding leads_def by (intro exI [of _ "m + Suc n"]) simp
qed

lemma leads_Cons: "f s = Some t \<Longrightarrow> leads f t u \<Longrightarrow> leads f s u"
  by (rule leads_trans [OF leads_step])

text \<open>Steps taken only in states that satisfy \<open>P\<close>.\<close>

definition within :: "('s \<Rightarrow> bool) \<Rightarrow> ('s \<Rightarrow> 's option) \<Rightarrow> 's \<Rightarrow> 's option" where
  "within P f s = (if P s then f s else None)"

lemma within_Some [simp]: "within P f s = Some t \<longleftrightarrow> P s \<and> f s = Some t"
  by (simp add: within_def)

lemma leads_within: "leads (within P f) s t \<Longrightarrow> leads f s t"
proof -
  have "rounds n (within P f) s = Some t \<Longrightarrow> rounds n f s = Some t" for n s
    by (induction n arbitrary: s) (auto simp: bind_Some_iff)
  then show "leads (within P f) s t \<Longrightarrow> leads f s t" unfolding leads_def by blast
qed

lemma within_step: "f s = Some t \<Longrightarrow> P s \<Longrightarrow> leads (within P f) s t"
  by (rule leads_step) simp

lemma within_Cons: "f s = Some t \<Longrightarrow> P s \<Longrightarrow> leads (within P f) t u \<Longrightarrow> leads (within P f) s u"
  by (rule leads_Cons) simp_all

text \<open>A reader that has packets or messages at hand: it is not about to ask the kernel for more.\<close>

definition tunBusy :: "'t \<times> (tun_pc \<times> tun_scratch) \<times> ev list \<Rightarrow> bool" where
  "tunBusy st \<longleftrightarrow> fst (fst (snd st)) \<noteq> TunRead"

definition udpBusy :: "'t \<times> (udp_pc \<times> udp_scratch) \<times> ev list \<Rightarrow> bool" where
  "udpBusy st \<longleftrightarrow> fst (fst (snd st)) \<noteq> UdpRecv"

lemma busy_simps [simp]:
  "tunBusy (ct, (pc, sc), h) \<longleftrightarrow> pc \<noteq> TunRead"
  "udpBusy (ct, (upc, us), h) \<longleftrightarrow> upc \<noteq> UdpRecv"
  by (simp_all add: tunBusy_def udpBusy_def)

text \<open>What is left of a round after its first step, as theory Plane has it.\<close>

definition tunRest ::
  "os \<Rightarrow> 'i conn_table \<times> (tun_pc \<times> tun_scratch) \<times> ev list \<Rightarrow> ('i conn_table \<times> tun_scratch \<times> ev list) option"
where
  "tunRest os st = (case st of (ct, (pc, sc), h) \<Rightarrow> (case pc of
     TunRead \<Rightarrow> Some (ct, sc, h)
   | TunSend c pkt \<Rightarrow> do { (ct, h) \<leftarrow> sendOne os c pkt ct h; Some (ct, sc, h) }
   | TunSegs c n \<Rightarrow> sendUso os c n (ct, sc, h)
   | _ \<Rightarrow> None))"

lemma tunPacket_rest:
  "tunPacket os I hdr n (ct, sc, h) =
     Option.bind (tunChoose I hdr n ct sc) (\<lambda>(pc, sc, ws). tunRest os (ct, (pc, sc), h @ ws))"
  unfolding tunPacket_def tunChoose_def Let_def prod.case
  by (auto simp: Let_def tunRest_def split: Option.bind_splits option.splits prod.splits)

lemma tunStep_rest:
  "tunStep os I fd (ct, sc, h) = Option.bind (tunMicro os I fd (ct, (TunRead, sc), h)) (tunRest os)"
proof -
  have read: "tunRest os (ct, (TunRead, sc), h) = Some (ct, sc, h)" for ct :: "'a conn_table" and sc h
    by (simp add: tunRest_def)
  show ?thesis
    by (auto simp: tunStep_def Let_def tunPacket_rest read split: Option.bind_splits)
qed

lemma uso_alone:
  "usoLoop os c g now P n i st = Some st' \<Longrightarrow>
   leads (within tunBusy (tunMicro os I fd)) (fst st, (TunPart c g now P n i, fst (snd st)), snd (snd st))
     (fst st', (TunRead, fst (snd st')), snd (snd st'))"
proof (erule usoLoop.raw_induct [rotated], goal_cases)
  case (1 loop os c g now P n i st st')
  show ?case
  proof (cases "i < n")
    case True
    obtain ct sc h where st: "st = (ct, sc, h)" by (cases st)
    with 1(2) True obtain ct1 sc1 h1 where m: "usoPart os c g now i (usoEnd i P n) (ct, sc, h) = Some (ct1, sc1, h1)"
        "loop os c g now P n (usoEnd i P n) (ct1, sc1, h1) = Some st'" by (auto simp: bind_Some_iff)
    have "tunMicro os I fd (ct, (TunPart c g now P n i, sc), h) = Some (ct1, (TunPart c g now P n (usoEnd i P n), sc1), h1)"
      using True m(1) by simp
    from within_Cons [OF this _ 1(1) [OF m(2), unfolded fst_conv snd_conv]] show ?thesis by (simp add: st)
  next
    case False
    then show ?thesis using 1(2) by (intro within_step) auto
  qed
qed

lemma send_alone:
  assumes "sendOne os c pkt ct h = Some (ct', h')"
  shows "leads (within tunBusy (tunMicro os I fd)) (ct, (TunSend c pkt, sc), h) (ct', (TunRead, sc), h')"
proof -
  obtain now where now: "nowMs os h = (now, h @ [Clock])" using nowMs_pair by blast
  have "tunMicro os I fd (ct, (TunSend c pkt, sc), h) = Some (ct, (TunNext c now pkt, sc), h @ [Clock])"
    by (simp add: now)
  moreover have "tunMicro os I fd (ct, (TunNext c now pkt, sc), h @ [Clock]) = Some (ct', (TunRead, sc), h')"
    using assms by (auto simp: sendOne_def now bind_Some_iff)
  ultimately show ?thesis by (elim within_Cons [OF _ _ within_step]) simp_all
qed

lemma segs_alone:
  assumes "sendUso os c n (ct, sc, h) = Some (ct', sc', h')"
  shows "leads (within tunBusy (tunMicro os I fd)) (ct, (TunSegs c n, sc), h) (ct', (TunRead, sc'), h')"
proof -
  obtain now where now: "nowMs os h = (now, h @ [Clock])" using nowMs_pair by blast
  let ?P = "(n + USO_PARTS - 1) div USO_PARTS"
  obtain n0 where n0: "deref (outSizes (tsSegs sc)) 0 = Some n0"
      "usoLoop os c (of_nat n0) now ?P n 0 (ct, sc, h @ [Clock]) = Some (ct', sc', h')"
    using assms by (auto simp: sendUso_def bind_Some_iff now Let_def)
  then have "tunMicro os I fd (ct, (TunSegs c n, sc), h) =
      Some (ct, (TunPart c (of_nat n0) now ?P n 0, sc), h @ [Clock])"
    by (simp add: now)
  from within_Cons [OF this _ uso_alone [OF n0(2), unfolded fst_conv snd_conv]] show ?thesis by simp
qed

lemma rest_alone:
  assumes "tunRest os (ct, (pc, sc), h) = Some (ct', sc', h')"
  shows "(ct, (pc, sc), h) = (ct', (TunRead, sc'), h') \<or>
    leads (within tunBusy (tunMicro os I fd)) (ct, (pc, sc), h) (ct', (TunRead, sc'), h')"
proof (cases pc)
  case (TunSend c pkt)
  then obtain h1 where "sendOne os c pkt ct h = Some (ct', h1)" "sc = sc'" "h1 = h'"
    using assms by (auto simp: tunRest_def bind_Some_iff)
  then show ?thesis using TunSend send_alone by fastforce
next
  case (TunSegs c n)
  then have "sendUso os c n (ct, sc, h) = Some (ct', sc', h')" using assms by (simp add: tunRest_def)
  then show ?thesis using TunSegs segs_alone by fastforce
qed (use assms in \<open>simp_all add: tunRest_def\<close>)

lemma tun_alone:
  assumes "tunStep os I fd (ct, sc, h) = Some (ct', sc', h')"
  shows "leads (tunMicro os I fd) (ct, (TunRead, sc), h) (ct', (TunRead, sc'), h')"
proof -
  obtain st where m: "tunMicro os I fd (ct, (TunRead, sc), h) = Some st" "tunRest os st = Some (ct', sc', h')"
    using assms unfolding tunStep_rest by (auto simp only: bind_Some_iff)
  obtain ct1 pc sc1 h1 where st: "st = (ct1, (pc, sc1), h1)" by (cases st; cases "fst (snd st)") auto
  show ?thesis
    using rest_alone [OF m(2) [unfolded st], of I fd] m(1) unfolding st
    by (blast intro: leads_Cons leads_step leads_within)
qed

lemma msgs_alone:
  "udpMessages os I tunFd srcIdx now [i..<n] (ct, sc, h) = Some (ct', sc', h') \<Longrightarrow>
   leads (within udpBusy (udpMicro os I fd tunFd srcIdx)) (ct, (UdpMsgs now n i, sc), h) (ct', (UdpRecv, sc'), h')"
proof (induction "n - i" arbitrary: i ct sc h)
  case 0
  then show ?case by (auto intro!: within_step)
next
  case (Suc k)
  then have i: "i < n" "[i..<n] = i # [Suc i..<n]" by (auto simp: upt_conv_Cons)
  then obtain ct1 sc1 h1 where m: "udpMessage os I tunFd srcIdx now i (ct, sc, h) = Some (ct1, sc1, h1)"
      "udpMessages os I tunFd srcIdx now [Suc i..<n] (ct1, sc1, h1) = Some (ct', sc', h')"
    using Suc.prems by (auto simp: bind_Some_iff)
  have "leads (within udpBusy (udpMicro os I fd tunFd srcIdx)) (ct1, (UdpMsgs now n (Suc i), sc1), h1) (ct', (UdpRecv, sc'), h')"
    using Suc.hyps(1) [OF _ m(2)] Suc.hyps(2) by simp
  from within_Cons [OF _ _ this] show ?case using i(1) m(1) by simp
qed

lemma udpStep_rest:
  assumes "udpStep os I fd tunFd srcIdx (ct, sc, h) = Some (ct', sc', h')"
  shows "\<exists>pc sc1 h1. udpMicro os I fd tunFd srcIdx (ct, (UdpRecv, sc), h) = Some (ct, (pc, sc1), h1) \<and>
    ((ct, (pc, sc1), h1) = (ct', (UdpRecv, sc'), h') \<or>
     leads (within udpBusy (udpMicro os I fd tunFd srcIdx)) (ct, (pc, sc1), h1) (ct', (UdpRecv, sc'), h'))"
proof (cases "osRes os h (RecvMMsg fd BATCH) < 0")
  case True
  then show ?thesis using assms by (simp add: udpStep_def Let_def)
next
  case False
  let ?h = "h @ [RecvMMsg fd BATCH]" and ?n = "nat (osRes os h (RecvMMsg fd BATCH))"
  obtain now where now: "nowMs os ?h = (now, ?h @ [Clock])" using nowMs_pair by blast
  obtain sc1 where sc1: "deliverAll 0 (take ?n (osRecv os ?h)) sc = Some sc1"
      "udpMessages os I tunFd srcIdx now [0..<?n] (ct, sc1, ?h @ [Clock]) = Some (ct', sc', h')"
    using assms False by (auto simp: udpStep_def Let_def bind_Some_iff now)
  have "udpMicro os I fd tunFd srcIdx (ct, (UdpClock ?n, sc1), ?h) = Some (ct, (UdpMsgs now ?n 0, sc1), ?h @ [Clock])"
    by (simp add: now)
  from within_Cons [OF this _ msgs_alone [OF sc1(2)]] show ?thesis using False sc1(1) by (simp add: Let_def)
qed

lemma udp_alone:
  assumes "udpStep os I fd tunFd srcIdx (ct, sc, h) = Some (ct', sc', h')"
  shows "leads (udpMicro os I fd tunFd srcIdx) (ct, (UdpRecv, sc), h) (ct', (UdpRecv, sc'), h')"
  using udpStep_rest [OF assms] by (auto intro: leads_Cons leads_step leads_within simp del: udpMicro.simps)

lemma probe_alone:
  "probeSlots os ct ps h = Some h' \<Longrightarrow>
   leads (probeMicro os slots iv) (ct, ps, h) (ct, slots, h' @ [USleep (ucast (iv * 1000))])"
proof (induction ps arbitrary: h)
  case (Cons p ps)
  then obtain h1 where h1: "probeSlots os ct [p] h = Some h1" "probeSlots os ct ps h1 = Some h'"
    by (auto simp: bind_Some_iff)
  then show ?case by (intro leads_Cons [OF _ Cons.IH [OF h1(2)]]) (simp del: probeSlots.simps)
qed (auto intro!: leads_step)

lemma scan_alone:
  "statSlots os ct tm now ps st = Some st' \<Longrightarrow>
   leads (statMicro os slots tm iv) (ct, StatScan now ps st, h)
     (ct, StatClock, h @ [LogLine (statLine st'),
       LogLine (''gofra slot_health alive='' @ showNat (unat (statAlive st')) @
                '' dead='' @ showNat (unat (statDead st'))), SleepS (ucast iv)])"
proof (induction ps arbitrary: st)
  case (Cons p ps)
  then obtain st1 where s1: "statSlots os ct tm now [p] st = Some st1" "statSlots os ct tm now ps st1 = Some st'"
    by (auto simp: bind_Some_iff Let_def)
  then show ?case by (intro leads_Cons [OF _ Cons.IH [OF s1(2)]]) (simp del: statSlots.simps)
qed (auto intro!: leads_step)

lemma stat_alone:
  assumes "statStep os ct slots tm iv h = Some h'"
  shows "leads (statMicro os slots tm iv) (ct, StatClock, h) (ct, StatClock, h')"
proof -
  obtain now where now: "nowMs os h = (now, h @ [Clock])" using nowMs_pair by blast
  obtain st where st: "statSlots os ct tm now slots emptyStats = Some st"
      "h' = (h @ [Clock]) @ [LogLine (statLine st),
       LogLine (''gofra slot_health alive='' @ showNat (unat (statAlive st)) @
                '' dead='' @ showNat (unat (statDead st))), SleepS (ucast iv)]"
    using assms by (auto simp: statStep_def emptyStats_def now bind_Some_iff)
  have "statMicro os slots tm iv (ct, StatClock, h) = Some (ct, StatScan now slots emptyStats, h @ [Clock])"
    by (simp add: now)
  with scan_alone [OF st(1), of slots iv "h @ [Clock]"] st(2) show ?thesis by (simp add: leads_Cons)
qed

end
