(* ===== verification/StepSafety.thy ===== *)
theory StepSafety
  imports Process Steps
begin

text \<open>
  The steps of theory Steps among those of other threads: what all of them leave of the shared
  table, and that each is memory safe and sends, writes or skips exactly what the thread still
  has to send or write.
\<close>

section \<open>What stays of a table\<close>

text \<open>All but the round-robin counters and the times, which threads change.\<close>

definition frozen :: "'i conn_table \<Rightarrow> 'i conn_table" where
  "frozen ct = ct\<lparr>ctConns := map (\<lambda>c. c\<lparr>connRr := 0\<rparr>) (ctConns ct),
     ctSlots := map (\<lambda>s. s\<lparr>slotLastSeen := 0\<rparr>) (ctSlots ct)\<rparr>"

lemma map_update_same: "f x = f (xs ! p) \<Longrightarrow> map f (xs[p := x]) = map f xs"
  by (cases "p < length xs") (simp_all add: map_update list_update_same_conv list_update_beyond)

lemma find_in: "find P xs = Some q \<Longrightarrow> q \<in> set xs"
  by (induction xs) (auto split: if_splits)

lemma frozen_next: "ctNext ct c now = Some (p, ct') \<Longrightarrow> frozen ct' = frozen ct"
proof -
  assume "ctNext ct c now = Some (p, ct')"
  then obtain r where "c < length (ctConns ct)"
      "ct' = ct\<lparr>ctConns := (ctConns ct)[c := (ctConns ct ! c)\<lparr>connRr := r\<rparr>]\<rparr>"
    by (auto simp: ctNext_def connNext_def Let_def bind_Some_iff deref_def split: if_splits option.splits)
  then show ?thesis by (simp add: frozen_def map_update_same)
qed

lemma frozen_stamp: "frozen (stamp I srcIdx now r ct) = frozen ct"
  by (simp add: stamp_def frozen_def map_update_same split: option.split)

lemma frozen_sizes:
  assumes "frozen ct = frozen ct0"
  shows "ctSize ct = ctSize ct0" "length (ctSlots ct) = length (ctSlots ct0)"
    and "ctLookup I ct = ctLookup I ct0" "ctLookupSlot I ct = ctLookupSlot I ct0"
proof -
  have "length (ctConns (frozen ct)) = length (ctConns (frozen ct0))"
      "length (ctSlots (frozen ct)) = length (ctSlots (frozen ct0))"
      "ctByVip (frozen ct) = ctByVip (frozen ct0)" "ctByEntry (frozen ct) = ctByEntry (frozen ct0)"
    using assms by simp_all
  then show "ctSize ct = ctSize ct0" "length (ctSlots ct) = length (ctSlots ct0)"
      "ctLookup I ct = ctLookup I ct0" "ctLookupSlot I ct = ctLookupSlot I ct0"
    by (simp_all add: frozen_def ctSize_def ctLookup_def ctLookupSlot_def fun_eq_iff)
qed

text \<open>The endpoints a connection sends to.\<close>

definition endpoints :: "'i conn_table \<Rightarrow> nat \<Rightarrow> sockaddr set" where
  "endpoints ct c = (\<lambda>p. slotDstAddr (ctSlots ct ! p)) ` set (connSlots (ctConns ct ! c))"

lemma frozen_endpoints:
  assumes f: "frozen ct = frozen ct0" and ok: "connTableOk I ct" and c: "c < ctSize ct"
  shows "endpoints ct c = endpoints ct0 c"
proof -
  have n: "c < length (ctConns ct)" "c < length (ctConns ct0)"
    using c frozen_sizes(1) [OF f] by (simp_all add: ctSize_def)
  have "connSlots (ctConns (frozen ct) ! c) = connSlots (ctConns (frozen ct0) ! c)" using f by simp
  then have slots: "connSlots (ctConns ct ! c) = connSlots (ctConns ct0 ! c)" using n by (simp add: frozen_def)
  have "slotDstAddr (ctSlots ct ! p) = slotDstAddr (ctSlots ct0 ! p)" if "p \<in> set (connSlots (ctConns ct ! c))" for p
  proof -
    have p: "p < length (ctSlots ct)" "p < length (ctSlots ct0)"
      using ok n(1) that frozen_sizes(2) [OF f] by (auto simp: connTableOk_def connOk_def)
    have "slotDstAddr (ctSlots (frozen ct) ! p) = slotDstAddr (ctSlots (frozen ct0) ! p)" using f by simp
    then show ?thesis using p by (simp add: frozen_def)
  qed
  then show ?thesis unfolding endpoints_def slots [symmetric] by (rule image_cong [OF refl])
qed

text \<open>A connection hands out its own slots.\<close>

lemma ctNext_own:
  assumes ct: "connTableOk I ct" and c: "c < ctSize ct"
  shows "\<exists>p ct' s. ctNext ct c now = Some (p, ct') \<and> connTableOk I ct' \<and> ctSlot ct' p = Some s \<and>
    slotDstAddr s \<in> endpoints ct c"
proof -
  have n: "c < length (ctConns ct)" using c by (simp add: ctSize_def)
  then have ok: "connOk (ctSlots ct) (ctConns ct ! c)" using ct by (simp add: connTableOk_def)
  obtain p ct' s where nx: "ctNext ct c now = Some (p, ct')" "connTableOk I ct'" "ctSlot ct' p = Some s"
    using cv.next_again [OF ct c] by blast
  have "p \<in> set (connSlots (ctConns ct ! c))"
  proof -
    have "p = (case find (live (ctSlots ct) (ctConns ct ! c) now) (cycle (ctConns ct ! c)) of
        Some p \<Rightarrow> p | None \<Rightarrow> hd (cycle (ctConns ct ! c)))"
      using nx(1) n by (simp add: ctNext_def connNext_eq [OF ok])
    moreover have "hd (cycle (ctConns ct ! c)) \<in> set (cycle (ctConns ct ! c))"
      using ok by (intro hd_in_set cycle_nonempty) (simp add: connOk_def)
    ultimately show ?thesis using find_in by (fastforce split: option.splits)
  qed
  moreover have "s = ctSlots ct ! p"
    using nx(1,3) ctNext_slots [OF nx(1)] by (auto simp: ctSlot_def deref_def split: if_splits)
  ultimately show ?thesis using nx by (auto simp: endpoints_def)
qed

text \<open>What all threads keep.\<close>

definition stays :: "os \<Rightarrow> 'i int_ops \<Rightarrow> 'i conn_table \<Rightarrow> 'i conn_table \<Rightarrow> bool" where
  "stays os I ct0 ct \<longleftrightarrow> kernelOk os \<and> connTableOk I ct \<and> frozen ct = frozen ct0"

lemma stays_next:
  assumes st: "stays os I ct0 ct" and c: "c < ctSize ct0"
  shows "\<exists>p ct' s. ctNext ct c now = Some (p, ct') \<and> stays os I ct0 ct' \<and> ctSlot ct' p = Some s \<and>
    slotDstAddr s \<in> endpoints ct0 c"
proof -
  have ct: "connTableOk I ct" "frozen ct = frozen ct0" and k: "kernelOk os" using st by (simp_all add: stays_def)
  have c': "c < ctSize ct" using c frozen_sizes(1) [OF ct(2)] by simp
  obtain p ct' s where nx: "ctNext ct c now = Some (p, ct')" "connTableOk I ct'" "ctSlot ct' p = Some s"
      "slotDstAddr s \<in> endpoints ct c"
    using ctNext_own [OF ct(1) c'] by blast
  then show ?thesis
    using k frozen_next [OF nx(1)] ct(2) frozen_endpoints [OF ct(2,1) c'] by (auto simp: stays_def)
qed

lemma stays_lookup:
  "stays os I ct0 ct \<Longrightarrow> ctLookup I ct v = Some c \<Longrightarrow> ctLookup I ct0 v = Some c \<and> c < ctSize ct0"
  using frozen_sizes [of ct ct0] ctSize_Some [of I ct v c] by (auto simp: stays_def)

section \<open>A TUN reader among others\<close>

text \<open>The datagrams a run sends, with their destinations.\<close>

fun sentTo :: "ev list \<Rightarrow> (sockaddr \<times> bytes) list" where
  "sentTo [] = []"
| "sentTo (SendTo fd x sa n # es) = (sa, x) # sentTo es"
| "sentTo (SendMsg fd iovs sa n g # es) = map (\<lambda>d. (sa, d)) (chunks (unat g) (concat iovs)) @ sentTo es"
| "sentTo (_ # es) = sentTo es"

lemma sentTo_append [simp]: "sentTo (xs @ ys) = sentTo xs @ sentTo ys"
  by (induction xs rule: sentTo.induct) auto

lemma wireOf_sentTo: "wireOf es = map snd (sentTo es)"
  by (induction es rule: sentTo.induct) (auto simp: comp_def)

text \<open>What is still to be sent, with the connection, and what the reader may rely on.\<close>

fun unsent :: "tun_pc \<times> tun_scratch \<Rightarrow> (nat \<times> bytes) list" where
  "unsent (TunRead, sc) = []"
| "unsent (TunSend c pkt, sc) = [(c, pkt)]"
| "unsent (TunNext c now pkt, sc) = [(c, pkt)]"
| "unsent (TunSegs c n, sc) = map (\<lambda>j. (c, packet (tsSegs sc) j)) [0..<n]"
| "unsent (TunPart c g now P n i, sc) = map (\<lambda>j. (c, packet (tsSegs sc) j)) [i..<n]"

definition segsOk :: "tun_scratch \<Rightarrow> nat \<Rightarrow> bool" where
  "segsOk sc n \<longleftrightarrow> segsReady sc n \<and>
     fullButLast (outSizes (tsSegs sc) ! 0) (map (packet (tsSegs sc)) [0..<n]) \<and>
     (0 < n \<longrightarrow> outSizes (tsSegs sc) ! 0 < 65536)"

fun tunOwn :: "nat \<Rightarrow> tun_pc \<times> tun_scratch \<Rightarrow> bool" where
  "tunOwn k (TunRead, sc) = tunScratchOk sc"
| "tunOwn k (TunSend c pkt, sc) = (tunScratchOk sc \<and> c < k)"
| "tunOwn k (TunNext c now pkt, sc) = (tunScratchOk sc \<and> c < k)"
| "tunOwn k (TunSegs c n, sc) = (tunScratchOk sc \<and> c < k \<and> segsOk sc n)"
| "tunOwn k (TunPart c g now P n i, sc) = (tunScratchOk sc \<and> c < k \<and> segsReady sc n \<and>
     fullButLast (unat g) (map (packet (tsSegs sc)) [0..<n]) \<and> (i < n \<longrightarrow> 0 < P))"

text \<open>A datagram goes to an endpoint of the connection it is for.\<close>

definition goesTo :: "'i conn_table \<Rightarrow> sockaddr \<times> bytes \<Rightarrow> nat \<times> bytes \<Rightarrow> bool" where
  "goesTo ct0 x y \<longleftrightarrow> snd x = snd y \<and> fst x \<in> endpoints ct0 (fst y)"

lemma callWarn_sent: "\<exists>ws. callWarn os h e what = h @ e # ws \<and> sentTo ws = []"
  by (auto simp: callWarn_def)

lemma part_sent:
  assumes full: "fullButLast g (map (packet out) [0..<n])" and e: "i \<le> e" "e \<le> n"
  shows "chunks g (concat (map (packet out) [i..<e])) = map (packet out) [i..<e]"
proof -
  have "[0..<n] = [0..<i] @ [i..<e] @ [e..<n]"
    using e by (metis le_add_diff_inverse less_eq_nat.simps(1) upt_add_eq_append append_assoc order.trans)
  then have "fullButLast g (map (packet out) [i..<e])"
    using full by (metis fullButLast_appendD1 fullButLast_appendD2 map_append)
  then show ?thesis by (rule chunks_concat)
qed

lemma tunMicro_sends:
  assumes st: "stays os I ct0 ct" and own: "tunOwn (ctSize ct0) (pc, sc)" and pc: "pc \<noteq> TunRead"
  shows "\<exists>ct' w' es now. tunMicro os I fd (ct, (pc, sc), h) = Some (ct', w', h @ es) \<and>
    stays os I ct0 ct' \<and> tunOwn (ctSize ct0) w' \<and> unsent (pc, sc) = now @ unsent w' \<and>
    list_all2 (goesTo ct0) (sentTo es) now"
proof (cases pc)
  case (TunSend c pkt)
  obtain now where "nowMs os h = (now, h @ [Clock])" using nowMs_pair by blast
  then show ?thesis using TunSend st own by auto
next
  case (TunNext c now pkt)
  obtain p ct' s where nx: "ctNext ct c now = Some (p, ct')" "stays os I ct0 ct'" "ctSlot ct' p = Some s"
      "slotDstAddr s \<in> endpoints ct0 c"
    using stays_next [OF st, of c now] own TunNext by auto
  let ?e = "SendTo (slotSrcFd s) pkt (slotDstAddr s) (addrLen (slotDstAddr s))"
  obtain ws where "callWarn os h ?e ''udp sendto'' = h @ ?e # ws" "sentTo ws = []" using callWarn_sent by blast
  then show ?thesis using nx own TunNext by (auto simp: goesTo_def)
next
  case (TunSegs c n)
  obtain now where now: "nowMs os h = (now, h @ [Clock])" using nowMs_pair by blast
  have "length (outSizes (tsSegs sc)) = MAX_SEGS" using own TunSegs by (simp add: tunScratchOk_def)
  then have d: "deref (outSizes (tsSegs sc)) 0 = Some (outSizes (tsSegs sc) ! 0)" by (simp add: MAX_SEGS_def)
  have "fullButLast (unat (of_nat (outSizes (tsSegs sc) ! 0) :: u16)) (map (packet (tsSegs sc)) [0..<n])"
    using own TunSegs by (cases "n = 0") (simp_all add: segsOk_def unat_of_nat)
  moreover have "0 < n \<Longrightarrow> 0 < (n + USO_PARTS - 1) div USO_PARTS" by (simp add: USO_PARTS_def)
  ultimately show ?thesis using TunSegs st own now d by (simp add: segsOk_def)
next
  case (TunPart c g now P n i)
  show ?thesis
  proof (cases "i < n")
    case False
    then show ?thesis using TunPart st own by auto
  next
    case True
    let ?e = "usoEnd i P n" and ?pkts = "map (packet (tsSegs sc)) [i..<usoEnd i P n]"
    have P: "0 < P" and sc: "tunScratchOk sc" "segsReady sc n" "c < ctSize ct0"
        "fullButLast (unat g) (map (packet (tsSegs sc)) [0..<n])"
      using own TunPart True by auto
    have e: "i < ?e" "?e \<le> n" using True P by (auto simp: usoEnd_def)
    have ct: "connTableOk I ct" "c < ctSize ct"
      using st sc(3) frozen_sizes(1) [of ct ct0] by (simp_all add: stays_def)
    obtain ct' sc' ws p s where part: "usoPart os c g now i ?e (ct, sc, h) =
          Some (ct', sc', h @ SendMsg (slotSrcFd s) ?pkts (slotDstAddr s) (addrLen (slotDstAddr s)) g # ws)"
        "ctNext ct c now = Some (p, ct')" "ctSlot ct' p = Some s" "wireOf ws = []" "tunScratchOk sc'"
        "tsSegs sc' = tsSegs sc"
      using usoPart_eq [OF ct sc(1,2) e(2), of os g now i h] by (elim exE conjE) (rule that)
    obtain ct2 s2 where nx: "ctNext ct c now = Some (p, ct2)" "stays os I ct0 ct2" "ctSlot ct2 p = Some s2"
        "slotDstAddr s2 \<in> endpoints ct0 c"
      using stays_next [OF st sc(3), of now] part(2) by auto
    have s: "stays os I ct0 ct'" "slotDstAddr s \<in> endpoints ct0 c" using nx part(2,3) by auto
    have sent: "sentTo (SendMsg (slotSrcFd s) ?pkts (slotDstAddr s) (addrLen (slotDstAddr s)) g # ws) =
        map (\<lambda>d. (slotDstAddr s, d)) ?pkts"
      using part(4) part_sent [OF sc(4), of i ?e] e by (simp add: wireOf_sentTo)
    have "unsent (pc, sc) = map (\<lambda>d. (c, d)) ?pkts @ unsent (TunPart c g now P n ?e, sc')"
      using e part(6) map_upt_append [of i ?e n "\<lambda>j. (c, packet (tsSegs sc) j)"] TunPart by (simp add: comp_def)
    moreover have "list_all2 (goesTo ct0) (map (\<lambda>d. (slotDstAddr s, d)) ?pkts) (map (\<lambda>d. (c, d)) ?pkts)"
      using s(2) by (simp add: list_all2_conv_all_nth goesTo_def)
    moreover have "tunOwn (ctSize ct0) (TunPart c g now P n ?e, sc')"
      using part(5,6) sc P by (simp add: segsReady_def)
    moreover have "tunMicro os I fd (ct, (pc, sc), h) = Some (ct', (TunPart c g now P n ?e, sc'),
        h @ SendMsg (slotSrcFd s) ?pkts (slotDstAddr s) (addrLen (slotDstAddr s)) g # ws)"
      using True part(1) TunPart by simp
    ultimately show ?thesis using s(1) unfolding sent [symmetric] by blast
  qed
qed (use pc in simp)

text \<open>
  What the kernel asks the reader to send by the read to come: the destination and the packets
  meant, if there are bytes for a packet, it is for a known peer and of a kind that is relayed.
\<close>

definition tunAsked ::
  "os \<Rightarrow> 'i int_ops \<Rightarrow> int \<Rightarrow> 'i conn_table \<Rightarrow> tun_scratch \<Rightarrow> ev list \<Rightarrow> (u32 \<times> bytes) list"
where
  "tunAsked os I fd ct sc h =
     (let e = ReadFd fd (length (tsReadBuf sc)); n = osRes os h e; data = osRead os (h @ [e]);
          inb = innerOf sc data; inLen = length data - VIRTIO_NET_HDR_LEN
      in if n < 0 \<or> length data < VIRTIO_NET_HDR_LEN + 20 then []
         else case decodeVirtioNetHdr data of None \<Rightarrow> [] | Some hdr \<Rightarrow>
         (case dstFromIPv4 inb inLen of
            Some (Some v) \<Rightarrow> if ctLookup I ct v \<noteq> None \<and> relayed inLen hdr
              then map (\<lambda>d. (v, d)) (meant inb inLen hdr) else []
          | _ \<Rightarrow> []))"

definition forPeer :: "'i int_ops \<Rightarrow> 'i conn_table \<Rightarrow> nat \<times> bytes \<Rightarrow> u32 \<times> bytes \<Rightarrow> bool" where
  "forPeer I ct0 x y \<longleftrightarrow> snd x = snd y \<and> ctLookup I ct0 (fst y) = Some (fst x)"

lemma tunMicro_read:
  assumes rd: "tunReads os h fd sc data" and len: "VIRTIO_NET_HDR_LEN + 20 \<le> length data"
    and hdr: "decodeVirtioNetHdr data = Some hdr"
  shows "tunMicro os I fd (ct, (TunRead, sc), h) =
    Option.bind (tunChoose I hdr (length data - VIRTIO_NET_HDR_LEN) ct
        (sc\<lparr>tsReadBuf := data @ drop (length data) (tsReadBuf sc)\<rparr>))
      (\<lambda>(pc, sc', ws). Some (ct, (pc, sc'), (h @ [ReadFd fd (length (tsReadBuf sc))]) @ ws))"
proof -
  have "decodeVirtioNetHdr (data @ drop (length data) (tsReadBuf sc)) = decodeVirtioNetHdr data"
    using len by (simp add: decodeVirtioNetHdr_def rdBlk_def)
  then show ?thesis
    using assms by (simp add: tunReads_def Let_def wrBlk_front)
qed

text \<open>The choice, on a packet for a known peer.\<close>

lemma tunChoose_known:
  assumes sc: "tunScratchOk sc" and inb: "inb = drop VIRTIO_NET_HDR_LEN (tsReadBuf sc)"
    and n: "20 \<le> n" "n \<le> length inb" and ok: "hdrOk inb n hdr"
    and to: "dstFromIPv4 inb n = Some (Some v)" "ctLookup I ct v = Some c"
  shows "\<exists>pc sc' ws. tunChoose I hdr n ct sc = Some (pc, sc', ws) \<and> sentTo ws = [] \<and>
    (c < k \<longrightarrow> tunOwn k (pc, sc')) \<and>
    unsent (pc, sc') = map (\<lambda>d. (c, d)) (if relayed n hdr then meant inb n hdr else [])"
proof -
  have buf: "length (tsReadBuf sc) = READ_SIZE" using sc by (simp add: tunScratchOk_def)
  have keep: "length (take VIRTIO_NET_HDR_LEN (tsReadBuf sc) @ x) = READ_SIZE" if "length x = length inb" for x
    using that buf by (simp add: inb VIRTIO_NET_HDR_LEN_def READ_SIZE_def)
  consider (none) "gsoType hdr = VIRTIO_NET_HDR_GSO_NONE" | (tcp) "gsoType hdr = VIRTIO_NET_HDR_GSO_TCPV4"
    | (other) "gsoType hdr \<noteq> VIRTIO_NET_HDR_GSO_NONE" "gsoType hdr \<noteq> VIRTIO_NET_HDR_GSO_TCPV4"
    by blast
  then show ?thesis
  proof cases
    case none
    have not: "gsoType hdr \<noteq> VIRTIO_NET_HDR_GSO_TCPV4"
      using none by (simp add: VIRTIO_NET_HDR_GSO_NONE_def VIRTIO_NET_HDR_GSO_TCPV4_def)
    obtain x where x: "plainPacket inb n hdr = Some x"
      using plainPacket_total [of hdr n inb] ok none n(2) by (auto simp: hdrOk_def)
    have lx: "length x = length inb" using plainPacket_length [OF x] .
    have "rdBlk x 0 n = Some (take n x)" using lx n(2) by (simp add: rdBlk_def)
    then have "tunChoose I hdr n ct sc = Some (TunSend c (take n x),
        sc\<lparr>tsReadBuf := take VIRTIO_NET_HDR_LEN (tsReadBuf sc) @ x\<rparr>, [])"
      using to none x unfolding tunChoose_def Let_def inb [symmetric] plainPacket_def by simp
    moreover have "meant inb n hdr = [take n x]" "relayed n hdr" using not none x by (simp_all add: meant_def relayed_def)
    ultimately show ?thesis using sc keep [OF lx] by (simp add: tunScratchOk_def)
  next
    case tcp
    have not: "gsoType hdr \<noteq> VIRTIO_NET_HDR_GSO_NONE"
      using tcp by (simp add: VIRTIO_NET_HDR_GSO_NONE_def VIRTIO_NET_HDR_GSO_TCPV4_def)
    have g: "gsoOk inb n hdr" "unat (hdrLen hdr) + unat (gsoSize hdr) \<le> SEG_SIZE"
      using ok tcp by (auto simp: hdrOk_def)
    let ?rb = "take VIRTIO_NET_HDR_LEN (tsReadBuf sc) @ cleanIn inb hdr"
    have rb: "length ?rb = READ_SIZE" by (rule keep) simp
    have choose: "tunChoose I hdr n ct sc = Some (if r < 0
        then (TunRead, sc\<lparr>tsReadBuf := ?rb, tsSegs := out\<rparr>, [warn ''gsoSplit: too many segments / unsupported gso_type''])
        else (TunSegs c (nat r), sc\<lparr>tsReadBuf := ?rb, tsSegs := out\<rparr>, []))"
      if "gsoSplit inb n hdr (tsSegs sc) MAX_SEGS = Some (r, cleanIn inb hdr, out)" for r out
      using to not tcp that unfolding tunChoose_def Let_def inb [symmetric] by simp
    show ?thesis
    proof (cases "segCount n hdr \<le> MAX_SEGS")
      case True
      obtain out where out: "gsoSplit inb n hdr (tsSegs sc) MAX_SEGS = Some (int (segCount n hdr), cleanIn inb hdr, out)"
          "\<forall>rb. length rb = READ_SIZE \<longrightarrow> tunScratchOk (sc\<lparr>tsReadBuf := rb, tsSegs := out\<rparr>)"
          "\<forall>rb. segsReady (sc\<lparr>tsReadBuf := rb, tsSegs := out\<rparr>) (segCount n hdr)"
          "map (packet out) [0..<segCount n hdr] = map (gsoSeg inb n hdr) [0..<segCount n hdr]"
          "0 < segCount n hdr \<longrightarrow> outSizes out ! 0 = segLen n hdr 0"
        using split_ready [OF g sc True] by (elim exE conjE) (rule that; assumption)
      let ?sc = "sc\<lparr>tsReadBuf := ?rb, tsSegs := out\<rparr>"
      have "tunChoose I hdr n ct sc = Some (TunSegs c (segCount n hdr), ?sc, [])"
        using choose [OF out(1)] by simp
      moreover have "segsOk ?sc (segCount n hdr)"
        using gsoSegs_full [OF g(1)] out(3-5) segLen_le [of hdr 0 n] g(1)
        by (cases "segCount n hdr = 0") (simp_all add: segsOk_def gsoOk_def del: map_eq_conv)
      moreover have "unsent (TunSegs c (segCount n hdr), ?sc) = map (\<lambda>d. (c, d)) (map (packet out) [0..<segCount n hdr])"
        by simp
      ultimately show ?thesis
        using out(2) [rule_format, OF rb] out(4) True tcp by (simp add: relayed_def meant_def)
    next
      case False
      obtain out where out: "gsoSplit inb n hdr (tsSegs sc) MAX_SEGS = Some (-1, cleanIn inb hdr, out)"
          "tunScratchOk (sc\<lparr>tsReadBuf := ?rb, tsSegs := out\<rparr>)"
        using split_keeps [OF g sc rb] False by auto
      then show ?thesis using choose [OF out(1)] False tcp by (simp add: relayed_def)
    qed
  next
    case other
    then have "tunChoose I hdr n ct sc = Some (TunRead, sc, [warn ''tunReader: unsupported gso_type''])"
      using to unfolding tunChoose_def Let_def inb [symmetric] by simp
    then show ?thesis using other sc by (simp add: relayed_def)
  qed
qed

lemma tunMicro_reads:
  assumes st: "stays os I ct0 ct" and sc: "tunScratchOk sc"
  shows "\<exists>w' es. tunMicro os I fd (ct, (TunRead, sc), h) = Some (ct, w', h @ es) \<and>
    tunOwn (ctSize ct0) w' \<and> sentTo es = [] \<and> list_all2 (forPeer I ct0) (unsent w') (tunAsked os I fd ct sc h) \<and>
    (\<forall>x\<in>set (tunAsked os I fd ct sc h). 20 \<le> length (snd x))"
proof -
  let ?e = "ReadFd fd (length (tsReadBuf sc))"
  have buf: "length (tsReadBuf sc) = READ_SIZE" using sc by (simp add: tunScratchOk_def)
  have k: "kernelOk os" using st by (simp add: stays_def)
  obtain data where rd: "osRes os h ?e < 0 \<or> tunReads os h fd sc data"
      and ok: "osRes os h ?e < 0 \<or> (\<forall>hdr. decodeVirtioNetHdr data = Some hdr \<longrightarrow>
        hdrOk (innerOf sc data) (length data - VIRTIO_NET_HDR_LEN) hdr)"
    using k sc unfolding kernelOk_def buf by blast
  show ?thesis
  proof (cases "osRes os h ?e < 0")
    case True
    then show ?thesis using sc by (simp add: tunAsked_def Let_def)
  next
    case False
    then have rd: "tunReads os h fd sc data" using rd by simp
    let ?sc1 = "sc\<lparr>tsReadBuf := data @ drop (length data) (tsReadBuf sc)\<rparr>"
    let ?n = "length data - VIRTIO_NET_HDR_LEN" and ?inb = "innerOf sc data"
    have sc1: "tunScratchOk ?sc1" using readBuf_length [OF rd sc] .
    have data: "osRead os (h @ [?e]) = data" "osRes os h ?e = int (length data)"
      using rd by (simp_all add: tunReads_def Let_def)
    show ?thesis
    proof (cases "length data < VIRTIO_NET_HDR_LEN + 20")
      case True
      then show ?thesis
        using sc1 data rd by (simp add: tunAsked_def Let_def wrBlk_front tunReads_def)
    next
      case short: False
      then have len: "VIRTIO_NET_HDR_LEN + 20 \<le> length data" by simp
      then obtain hdr where hdr: "decodeVirtioNetHdr data = Some hdr" by (simp add: decodeVirtioNetHdr_def rdBlk_def)
      have "length data \<le> READ_SIZE" using rd buf by (simp add: tunReads_def Let_def)
      then have n: "20 \<le> ?n" "?n \<le> length ?inb" using innerOf_length [OF rd sc] len by (simp_all add: diff_le_mono)
      obtain d where d: "dstFromIPv4 ?inb ?n = Some d" using dstFromIPv4_eq [OF n(2)] by blast
      have inb: "?inb = drop VIRTIO_NET_HDR_LEN (tsReadBuf ?sc1)" by (simp add: innerOf_def)
      note micro = tunMicro_read [OF rd len hdr, of I ct]
      have asked: "tunAsked os I fd ct sc h = (case d of
          Some v \<Rightarrow> if ctLookup I ct v \<noteq> None \<and> relayed ?n hdr then map (\<lambda>d. (v, d)) (meant ?inb ?n hdr) else []
        | None \<Rightarrow> [])"
        using False short data hdr d by (cases d) (simp_all add: tunAsked_def Let_def)
      show ?thesis
      proof (cases "\<exists>v c. d = Some v \<and> ctLookup I ct v = Some c")
        case True
        then obtain v c where vc: "d = Some v" "ctLookup I ct v = Some c" by blast
        note c0 = stays_lookup [OF st vc(2)]
        have hok: "hdrOk ?inb ?n hdr" using ok False hdr by blast
        then obtain pc sc' ws where ch: "tunChoose I hdr ?n ct ?sc1 = Some (pc, sc', ws)" "sentTo ws = []"
            "tunOwn (ctSize ct0) (pc, sc')"
            "unsent (pc, sc') = map (\<lambda>d. (c, d)) (if relayed ?n hdr then meant ?inb ?n hdr else [])"
          using tunChoose_known [OF sc1 inb n, of hdr v I ct c "ctSize ct0"] d vc c0 by auto
        then show ?thesis
          using micro asked vc c0 meant_long [OF hok _ n] by (auto simp: list_all2_conv_all_nth forPeer_def)
      next
        case unknown: False
        then have "tunChoose I hdr ?n ct ?sc1 = Some (TunRead, ?sc1, [])"
          using d unfolding tunChoose_def Let_def inb [symmetric] by (cases d) auto
        then show ?thesis using micro asked unknown sc1 by (cases d) auto
      qed
    qed
  qed
qed

section \<open>A UDP reader among others\<close>

text \<open>The messages still to be handled.\<close>

fun udpAt :: "udp_pc \<times> udp_scratch \<Rightarrow> rx list \<Rightarrow> bool" where
  "udpAt (UdpRecv, sc) rs = (udpScratchOk sc \<and> rs = [])"
| "udpAt (UdpClock n, sc) rs = (batchFrom 0 rs sc \<and> n = length rs \<and> n \<le> BATCH \<and> list_all rxOk rs)"
| "udpAt (UdpMsgs now n i, sc) rs = (\<exists>rs0. batchFrom i rs0 sc \<and> i \<le> n \<and> n = length rs0 \<and> n \<le> BATCH \<and>
     list_all rxOk rs0 \<and> rs = drop i rs0)"

definition written :: "rx list \<Rightarrow> bytes list" where
  "written rs = map (\<lambda>p. zeros @ p) (concat (map rxPackets rs))"

lemma written_append [simp]: "written (rs @ rs') = written rs @ written rs'"
  by (simp add: written_def)

lemma written_Nil [simp]: "written [] = []"
  by (simp add: written_def)

text \<open>What the kernel hands over by the receive to come.\<close>

definition udpGiven :: "os \<Rightarrow> int \<Rightarrow> ev list \<Rightarrow> rx list" where
  "udpGiven os fd h =
     (let e = RecvMMsg fd BATCH; n = osRes os h e
      in if n < 0 then [] else take (nat n) (osRecv os (h @ [e])))"

lemma udpMicro_receives:
  assumes st: "stays os I ct0 ct" and sc: "udpScratchOk sc"
  shows "\<exists>w' es. udpMicro os I fd tunFd srcIdx (ct, (UdpRecv, sc), h) = Some (ct, w', h @ es) \<and>
    udpAt w' (udpGiven os fd h) \<and> tunWrites es = []"
proof (cases "osRes os h (RecvMMsg fd BATCH) < 0")
  case True
  then show ?thesis using sc by (simp add: udpGiven_def Let_def)
next
  case False
  then obtain rs where rx: "udpReceives os h fd rs"
    using st unfolding stays_def kernelOk_def by blast
  then have rs: "length rs \<le> BATCH" "list_all rxOk rs" "osRes os h (RecvMMsg fd BATCH) = int (length rs)"
      "osRecv os (h @ [RecvMMsg fd BATCH]) = rs"
    by (simp_all add: udpReceives_def)
  obtain sc1 where "deliverAll 0 rs sc = Some sc1" "batchFrom 0 rs sc1"
    using deliverAll_ok [of "[]" rs sc] sc rs(1,2) by (auto simp: udpScratchOk_def list_all_length)
  then show ?thesis using rs by (simp add: udpGiven_def Let_def)
qed

lemma stays_stamp: "stays os I ct0 ct \<Longrightarrow> stays os I ct0 (stamp I srcIdx now r ct)"
  using stamp_ok(2) [of I ct srcIdx now r] by (simp add: stays_def frozen_stamp)

lemma udpMicro_handles:
  assumes st: "stays os I ct0 ct" and own: "udpAt (pc, sc) rs" and pc: "pc \<noteq> UdpRecv"
  shows "\<exists>ct' w' es past rs'. udpMicro os I fd tunFd srcIdx (ct, (pc, sc), h) = Some (ct', w', h @ es) \<and>
    stays os I ct0 ct' \<and> udpAt w' rs' \<and> rs = past @ rs' \<and> tunWrites es = written past"
proof (cases pc)
  case (UdpClock n)
  obtain now where "nowMs os h = (now, h @ [Clock])" using nowMs_pair by blast
  then show ?thesis using UdpClock st own
    by (intro exI [of _ ct] exI [of _ "(UdpMsgs now n 0, sc)"] exI [of _ "[Clock]"] exI [of _ "[]"] exI [of _ rs]) auto
next
  case (UdpMsgs now n i)
  then obtain rs0 where b: "batchFrom i rs0 sc" "i \<le> n" "n = length rs0" "n \<le> BATCH" "list_all rxOk rs0"
      "rs = drop i rs0" using own by auto
  have ct: "connTableOk I ct" using st by (simp add: stays_def)
  show ?thesis
  proof (cases "i < n")
    case True
    then have r: "rxOk (rs0 ! i)" using b by (simp add: list_all_length)
    have len: "i < length rs0" "length rs0 \<le> BATCH" using True b by simp_all
    obtain sc' es where m: "udpMessage os I tunFd srcIdx now i (ct, sc, h) =
          Some (stamp I srcIdx now (rs0 ! i) ct, sc', h @ es)" "batchFrom (Suc i) rs0 sc'"
        "tunWrites es = map (\<lambda>p. zeros @ p) (rxPackets (rs0 ! i))"
      using udpMessage_ok [OF ct b(1) len r, of os tunFd srcIdx now h] by blast
    have rs: "rs = [rs0 ! i] @ drop (Suc i) rs0" using b(6) len(1) by (simp add: Cons_nth_drop_Suc)
    have "udpMicro os I fd tunFd srcIdx (ct, (pc, sc), h) =
        Some (stamp I srcIdx now (rs0 ! i) ct, (UdpMsgs now n (Suc i), sc'), h @ es)"
      using UdpMsgs True m(1) by simp
    moreover have "udpAt (UdpMsgs now n (Suc i), sc') (drop (Suc i) rs0)" using b m(2) True by auto
    moreover have "tunWrites es = written [rs0 ! i]" using m(3) by (simp add: written_def)
    ultimately show ?thesis using rs stays_stamp [OF st] by blast
  next
    case False
    then have "i = length rs0" using b by simp
    then show ?thesis
      using UdpMsgs False st b batch_done [of rs0 sc] by (auto intro!: exI [of _ "[] :: rx list"])
  qed
qed (use pc in simp)

section \<open>The prober and the statistics among others\<close>

fun statOwn :: "nat \<Rightarrow> stat_pc \<Rightarrow> bool" where
  "statOwn m StatClock = True"
| "statOwn m (StatScan now ps st) = list_all (\<lambda>p. p < m) ps"

lemma probeMicro_ok:
  assumes "list_all (\<lambda>p. p < length (ctSlots ct)) slots" and "list_all (\<lambda>p. p < length (ctSlots ct)) ps"
  shows "\<exists>ps' h'. probeMicro os slots iv (ct, ps, h) = Some (ct, ps', h') \<and>
    list_all (\<lambda>p. p < length (ctSlots ct)) ps'"
proof (cases ps)
  case (Cons p qs)
  then have "list_all (\<lambda>p. p < length (ctSlots ct)) [p]" using assms(2) by simp
  then obtain h' where "probeSlots os ct [p] h = Some h'" using probeSlots_total by blast
  then show ?thesis using Cons assms(2) by (simp del: probeSlots.simps)
qed (use assms in simp)

lemma statMicro_ok:
  assumes "list_all (\<lambda>p. p < length (ctSlots ct)) slots" and "statOwn (length (ctSlots ct)) pc"
  shows "\<exists>pc' h'. statMicro os slots tm iv (ct, pc, h) = Some (ct, pc', h') \<and> statOwn (length (ctSlots ct)) pc'"
proof (cases "(os, slots, tm, iv, ct, pc, h)" rule: statMicro.cases)
  case (1 os slots tm iv ct h)
  obtain now where "nowMs os h = (now, h @ [Clock])" using nowMs_pair by blast
  then show ?thesis using 1 assms by simp
next
  case (3 os slots tm iv ct now p ps st h)
  then have "list_all (\<lambda>p. p < length (ctSlots ct)) [p]" using assms(2) by simp
  then obtain st' where "statSlots os ct tm now [p] st = Some st'" using statSlots_total by blast
  then show ?thesis using 3 assms(2) by (simp del: statSlots.simps)
qed (use assms in simp)

end
