(* ===== verification/Hosts.thy ===== *)
theory Hosts
  imports StepSafety
begin

text \<open>
  A running host, with its threads interleaved at the small steps of theory Steps. The state
  carries, besides what the code has, the history of every thread: what it was asked to send,
  what it sent, what it received and what it wrote.
\<close>

section \<open>The host\<close>

text \<open>
  \<open>hAsked i\<close>: the packets that the kernel asked TUN reader \<open>i\<close> to send, with the peer they are
  for; \<open>hSent i\<close>: the datagrams it sent, with their destinations; \<open>hGiven i\<close>: the messages that
  UDP reader \<open>i\<close> received; \<open>hWrote i\<close>: what it wrote to its TUN queue.
\<close>

record 'i host =
  hTable :: "'i conn_table"
  hTun :: "(tun_pc \<times> tun_scratch) list"
  hUdp :: "(udp_pc \<times> udp_scratch) list"
  hProbe :: "nat list"
  hStat :: stat_pc
  hHist :: "ev list"
  hAsked :: "nat \<Rightarrow> (u32 \<times> bytes) list"
  hSent :: "nat \<Rightarrow> (sockaddr \<times> bytes) list"
  hGiven :: "nat \<Rightarrow> rx list"
  hWrote :: "nat \<Rightarrow> bytes list"

definition askedBy ::
  "os \<Rightarrow> 'i int_ops \<Rightarrow> int \<Rightarrow> 'i conn_table \<Rightarrow> tun_pc \<times> tun_scratch \<Rightarrow> ev list \<Rightarrow> (u32 \<times> bytes) list"
where
  "askedBy os I fd ct w h = (if fst w = TunRead then tunAsked os I fd ct (snd w) h else [])"

definition givenTo :: "os \<Rightarrow> int \<Rightarrow> udp_pc \<times> udp_scratch \<Rightarrow> ev list \<Rightarrow> rx list" where
  "givenTo os fd w h = (if fst w = UdpRecv then udpGiven os fd h else [])"

definition newCalls :: "ev list \<Rightarrow> ev list \<Rightarrow> ev list" where
  "newCalls h h' = drop (length h) h'"

lemma newCalls_append [simp]: "newCalls h (h @ es) = es"
  by (simp add: newCalls_def)

inductive hostStep ::
  "os \<Rightarrow> 'i int_ops \<Rightarrow> 'i config \<Rightarrow> int list \<Rightarrow> int list \<Rightarrow> nat list \<Rightarrow> 'i host \<Rightarrow> 'i host \<Rightarrow> bool"
  for os I cfg tunFds srcFds slots
where
  tun_step: "i < length tunFds \<Longrightarrow>
    tunMicro os I (tunFds ! i) (hTable s, hTun s ! i, hHist s) = Some (ct', w', h') \<Longrightarrow>
    hostStep os I cfg tunFds srcFds slots s
      (s\<lparr>hTable := ct', hTun := (hTun s)[i := w'], hHist := h',
         hAsked := (hAsked s)(i := hAsked s i @ askedBy os I (tunFds ! i) (hTable s) (hTun s ! i) (hHist s)),
         hSent := (hSent s)(i := hSent s i @ sentTo (newCalls (hHist s) h'))\<rparr>)"
| udp_step: "i < length srcFds \<Longrightarrow>
    udpMicro os I (srcFds ! i) (tunFds ! i) (of_nat i) (hTable s, hUdp s ! i, hHist s) = Some (ct', w', h') \<Longrightarrow>
    hostStep os I cfg tunFds srcFds slots s
      (s\<lparr>hTable := ct', hUdp := (hUdp s)[i := w'], hHist := h',
         hGiven := (hGiven s)(i := hGiven s i @ givenTo os (srcFds ! i) (hUdp s ! i) (hHist s)),
         hWrote := (hWrote s)(i := hWrote s i @ tunWrites (newCalls (hHist s) h'))\<rparr>)"
| probe_step: "probeMicro os slots (probeIntervalMs cfg) (hTable s, hProbe s, hHist s) = Some (ct', ps', h') \<Longrightarrow>
    hostStep os I cfg tunFds srcFds slots s (s\<lparr>hTable := ct', hProbe := ps', hHist := h'\<rparr>)"
| stat_step: "statMicro os slots (probeTimeoutMs cfg) (statsIntervalSec cfg) (hTable s, hStat s, hHist s) =
      Some (ct', pc', h') \<Longrightarrow>
    hostStep os I cfg tunFds srcFds slots s (s\<lparr>hTable := ct', hStat := pc', hHist := h'\<rparr>)"

definition hostInit :: "'i conn_table \<Rightarrow> nat \<Rightarrow> udp_scratch \<Rightarrow> ev list \<Rightarrow> 'i host" where
  "hostInit ct n us h = \<lparr>hTable = ct, hTun = replicate n (TunRead, makeTunReaderScratch),
     hUdp = replicate n (UdpRecv, us), hProbe = collectSlots ct, hStat = StatClock, hHist = h,
     hAsked = (\<lambda>_. []), hSent = (\<lambda>_. []), hGiven = (\<lambda>_. []), hWrote = (\<lambda>_. [])\<rparr>"

inductive hostReach ::
  "os \<Rightarrow> 'i int_ops \<Rightarrow> 'i config \<Rightarrow> int list \<Rightarrow> int list \<Rightarrow> 'i conn_table \<Rightarrow> ev list \<Rightarrow> 'i host \<Rightarrow> bool"
  for os I cfg tunFds srcFds ct0 h0
where
  host_start: "makeUdpReaderScratch = Some us \<Longrightarrow>
    hostReach os I cfg tunFds srcFds ct0 h0 (hostInit ct0 (length tunFds) us h0)"
| host_step: "hostReach os I cfg tunFds srcFds ct0 h0 s \<Longrightarrow>
    hostStep os I cfg tunFds srcFds (collectSlots ct0) s s' \<Longrightarrow>
    hostReach os I cfg tunFds srcFds ct0 h0 s'"

section \<open>The invariant of a host\<close>

text \<open>A datagram sent is a packet asked for, and goes to an endpoint of the peer it is for.\<close>

definition destined :: "'i int_ops \<Rightarrow> 'i conn_table \<Rightarrow> sockaddr \<times> bytes \<Rightarrow> u32 \<times> bytes \<Rightarrow> bool" where
  "destined I ct0 x y \<longleftrightarrow> snd x = snd y \<and> (\<exists>c. ctLookup I ct0 (fst y) = Some c \<and> fst x \<in> endpoints ct0 c)"

definition tunLine ::
  "'i int_ops \<Rightarrow> 'i conn_table \<Rightarrow> tun_pc \<times> tun_scratch \<Rightarrow> (u32 \<times> bytes) list \<Rightarrow> (sockaddr \<times> bytes) list \<Rightarrow> bool"
where
  "tunLine I ct0 w asked sent \<longleftrightarrow> tunOwn (ctSize ct0) w \<and> (\<forall>x\<in>set asked. 20 \<le> length (snd x)) \<and>
     (\<exists>pre post. asked = pre @ post \<and> list_all2 (destined I ct0) sent pre \<and>
        list_all2 (forPeer I ct0) (unsent w) post)"

definition udpLine :: "udp_pc \<times> udp_scratch \<Rightarrow> rx list \<Rightarrow> bytes list \<Rightarrow> bool" where
  "udpLine w given wrote \<longleftrightarrow> (\<exists>past rs. udpAt w rs \<and> given = past @ rs \<and> wrote = written past)"

definition hostOk :: "os \<Rightarrow> 'i int_ops \<Rightarrow> nat \<Rightarrow> 'i conn_table \<Rightarrow> 'i host \<Rightarrow> bool" where
  "hostOk os I n ct0 s \<longleftrightarrow> stays os I ct0 (hTable s) \<and> length (hTun s) = n \<and> length (hUdp s) = n \<and>
     (\<forall>i<n. tunLine I ct0 (hTun s ! i) (hAsked s i) (hSent s i)) \<and>
     (\<forall>i<n. udpLine (hUdp s ! i) (hGiven s i) (hWrote s i)) \<and>
     list_all (\<lambda>p. p < length (ctSlots ct0)) (hProbe s) \<and> statOwn (length (ctSlots ct0)) (hStat s)"

lemma tunLine_step:
  assumes st: "stays os I ct0 ct" and line: "tunLine I ct0 w asked sent"
  shows "\<exists>ct' w' h'. tunMicro os I fd (ct, w, h) = Some (ct', w', h') \<and> stays os I ct0 ct' \<and>
    tunLine I ct0 w' (asked @ askedBy os I fd ct w h) (sent @ sentTo (newCalls h h'))"
proof -
  obtain pc sc where w: "w = (pc, sc)" by (cases w)
  have own: "tunOwn (ctSize ct0) (pc, sc)" and long: "\<forall>x\<in>set asked. 20 \<le> length (snd x)"
    using line by (simp_all add: tunLine_def w)
  obtain pre post where a: "asked = pre @ post" "list_all2 (destined I ct0) sent pre"
      "list_all2 (forPeer I ct0) (unsent (pc, sc)) post"
    using line by (auto simp: tunLine_def w)
  show ?thesis
  proof (cases "pc = TunRead")
    case True
    then have sc: "tunScratchOk sc" and "post = []" using own a(3) by simp_all
    obtain w' es where m: "tunMicro os I fd (ct, (TunRead, sc), h) = Some (ct, w', h @ es)"
        "tunOwn (ctSize ct0) w'" "sentTo es = []" "list_all2 (forPeer I ct0) (unsent w') (tunAsked os I fd ct sc h)"
        "\<forall>x\<in>set (tunAsked os I fd ct sc h). 20 \<le> length (snd x)"
      using tunMicro_reads [OF st sc, of fd h] by blast
    have "tunLine I ct0 w' (pre @ tunAsked os I fd ct sc h) sent"
      using m long a(1,2) \<open>post = []\<close> by (auto simp: tunLine_def)
    then show ?thesis using m(1,3) a(1) \<open>post = []\<close> st True by (simp add: w askedBy_def)
  next
    case False
    obtain ct' w' es now where m: "tunMicro os I fd (ct, (pc, sc), h) = Some (ct', w', h @ es)"
        "stays os I ct0 ct'" "tunOwn (ctSize ct0) w'" "unsent (pc, sc) = now @ unsent w'"
        "list_all2 (goesTo ct0) (sentTo es) now"
      using tunMicro_sends [OF st own False, of fd h] by blast
    obtain p1 p2 where p: "post = p1 @ p2" "list_all2 (forPeer I ct0) now p1" "list_all2 (forPeer I ct0) (unsent w') p2"
      using a(3) unfolding m(4) by (auto simp: list_all2_append1)
    have "list_all2 (destined I ct0) (sentTo es) p1"
      by (rule list_all2_trans [OF _ m(5) p(2)]) (auto simp: goesTo_def forPeer_def destined_def)
    then have "list_all2 (destined I ct0) (sent @ sentTo es) (pre @ p1)" using a(2) by (simp add: list_all2_appendI)
    then have "tunLine I ct0 w' asked (sent @ sentTo es)"
      using m(3) long p(1,3) a(1) unfolding tunLine_def by (metis append_assoc)
    then show ?thesis using m(1,2) False by (simp add: w askedBy_def)
  qed
qed

lemma udpLine_step:
  assumes st: "stays os I ct0 ct" and line: "udpLine w given wrote"
  shows "\<exists>ct' w' h'. udpMicro os I fd tunFd srcIdx (ct, w, h) = Some (ct', w', h') \<and> stays os I ct0 ct' \<and>
    udpLine w' (given @ givenTo os fd w h) (wrote @ tunWrites (newCalls h h'))"
proof -
  obtain pc sc where w: "w = (pc, sc)" by (cases w)
  obtain past rs where l: "udpAt (pc, sc) rs" "given = past @ rs" "wrote = written past"
    using line by (auto simp: udpLine_def w)
  show ?thesis
  proof (cases "pc = UdpRecv")
    case True
    then have sc: "udpScratchOk sc" and "rs = []" using l(1) by simp_all
    obtain w' es where m: "udpMicro os I fd tunFd srcIdx (ct, (UdpRecv, sc), h) = Some (ct, w', h @ es)"
        "udpAt w' (udpGiven os fd h)" "tunWrites es = []"
      using udpMicro_receives [OF st sc, of fd tunFd srcIdx h] by blast
    have "udpLine w' (past @ udpGiven os fd h) (written past)" using m(2) by (auto simp: udpLine_def)
    then show ?thesis using m(1,3) l(2,3) \<open>rs = []\<close> st True by (simp add: w givenTo_def)
  next
    case False
    obtain ct' w' es now rs' where m: "udpMicro os I fd tunFd srcIdx (ct, (pc, sc), h) = Some (ct', w', h @ es)"
        "stays os I ct0 ct'" "udpAt w' rs'" "rs = now @ rs'" "tunWrites es = written now"
      using udpMicro_handles [OF st l(1) False, of fd tunFd srcIdx h] by blast
    have "udpLine w' ((past @ now) @ rs') (written (past @ now))" using m(3) unfolding udpLine_def by blast
    then show ?thesis using m l(2,3) False by (simp add: w givenTo_def)
  qed
qed

lemma hostOkD:
  assumes "hostOk os I n ct0 s"
  shows "stays os I ct0 (hTable s)" and "i < n \<Longrightarrow> tunLine I ct0 (hTun s ! i) (hAsked s i) (hSent s i)"
    and "i < n \<Longrightarrow> udpLine (hUdp s ! i) (hGiven s i) (hWrote s i)"
    and "list_all (\<lambda>p. p < length (ctSlots (hTable s))) (collectSlots ct0)"
    and "list_all (\<lambda>p. p < length (ctSlots (hTable s))) (hProbe s)"
    and "statOwn (length (ctSlots (hTable s))) (hStat s)"
  using assms frozen_sizes(2) [of "hTable s" ct0]
  by (auto simp: hostOk_def stays_def collectSlots_eq list_all_iff)

lemmas steps_ok =
  tunLine_step [OF hostOkD(1) hostOkD(2)] udpLine_step [OF hostOkD(1) hostOkD(3)]
  probeMicro_ok [OF hostOkD(4) hostOkD(5)] statMicro_ok [OF hostOkD(4) hostOkD(6)]

lemma hostStep_ok:
  assumes ok: "hostOk os I n ct0 s" and n: "length tunFds = n" "length srcFds = n"
    and st: "hostStep os I cfg tunFds srcFds (collectSlots ct0) s s'"
  shows "hostOk os I n ct0 s'"
  using st
proof (cases rule: hostStep.cases)
  case (tun_step i ct' w' h')
  have i: "i < n" using tun_step(2) n by simp
  have "stays os I ct0 ct' \<and> tunLine I ct0 w'
      (hAsked s i @ askedBy os I (tunFds ! i) (hTable s) (hTun s ! i) (hHist s))
      (hSent s i @ sentTo (newCalls (hHist s) h'))"
    using steps_ok(1) [OF ok ok i, of "tunFds ! i" "hHist s"] tun_step(3) by auto
  then show ?thesis using ok i tun_step(1) by (auto simp: hostOk_def nth_list_update)
next
  case (udp_step i ct' w' h')
  have i: "i < n" using udp_step(2) n by simp
  have "stays os I ct0 ct' \<and> udpLine w' (hGiven s i @ givenTo os (srcFds ! i) (hUdp s ! i) (hHist s))
      (hWrote s i @ tunWrites (newCalls (hHist s) h'))"
    using steps_ok(2) [OF ok ok i, of "srcFds ! i" "tunFds ! i" "of_nat i" "hHist s"] udp_step(3) by auto
  then show ?thesis using ok i udp_step(1) by (auto simp: hostOk_def nth_list_update)
next
  case (probe_step ct' ps' h')
  then show ?thesis
    using ok steps_ok(3) [OF ok ok, of os "probeIntervalMs cfg" "hHist s"] frozen_sizes(2) [of "hTable s" ct0]
    by (auto simp: hostOk_def stays_def)
next
  case (stat_step ct' pc' h')
  then show ?thesis
    using ok steps_ok(4) [OF ok ok, of os "probeTimeoutMs cfg" "statsIntervalSec cfg" "hHist s"]
      frozen_sizes(2) [of "hTable s" ct0]
    by (auto simp: hostOk_def stays_def)
qed

lemma hostInit_ok:
  assumes "kernelOk os" and "connTableOk I ct" and "makeUdpReaderScratch = Some us"
  shows "hostOk os I n ct (hostInit ct n us h)"
proof -
  obtain sc where sc: "makeUdpReaderScratch = Some sc" "udpScratchOk sc" using makeUdp_ok by blast
  have "sc = us" using trans [OF sc(1) [symmetric] assms(3)] by simp
  then have "udpScratchOk us" using sc(2) by simp
  then show ?thesis
    using assms(1,2) tunScratchOk_make
    by (simp add: hostOk_def hostInit_def stays_def tunLine_def udpLine_def collectSlots_eq list_all_iff)
qed

lemma hostReach_ok:
  assumes "hostReach os I cfg tunFds srcFds ct0 h0 s" and "kernelOk os" and "connTableOk I ct0"
    and "length tunFds = length srcFds"
  shows "hostOk os I (length tunFds) ct0 s"
  using assms
proof (induction rule: hostReach.induct)
  case (host_start us)
  then show ?case by (intro hostInit_ok)
next
  case (host_step s s')
  then show ?case by (intro hostStep_ok [OF _ _ _ host_step.hyps(2)]) simp_all
qed

text \<open>No thread can go wrong in its next step.\<close>

definition stepsOk :: "os \<Rightarrow> 'i int_ops \<Rightarrow> 'i config \<Rightarrow> int list \<Rightarrow> int list \<Rightarrow> nat list \<Rightarrow> 'i host \<Rightarrow> bool" where
  "stepsOk os I cfg tunFds srcFds slots s \<longleftrightarrow>
     (\<forall>i<length tunFds. tunMicro os I (tunFds ! i) (hTable s, hTun s ! i, hHist s) \<noteq> None \<and>
        udpMicro os I (srcFds ! i) (tunFds ! i) (of_nat i) (hTable s, hUdp s ! i, hHist s) \<noteq> None) \<and>
     probeMicro os slots (probeIntervalMs cfg) (hTable s, hProbe s, hHist s) \<noteq> None \<and>
     statMicro os slots (probeTimeoutMs cfg) (statsIntervalSec cfg) (hTable s, hStat s, hHist s) \<noteq> None"

lemma hostOk_steps:
  assumes ok: "hostOk os I (length tunFds) ct0 s"
  shows "stepsOk os I cfg tunFds srcFds (collectSlots ct0) s"
  unfolding stepsOk_def
  using steps_ok(1) [OF ok ok] steps_ok(2) [OF ok ok] steps_ok(3) [OF ok ok] steps_ok(4) [OF ok ok]
  by (metis option.distinct(1))

lemma host_safe_run:
  assumes "kernelOk os" and "connTableOk I ct0" and "length tunFds = length srcFds"
    and "hostReach os I cfg tunFds srcFds ct0 h0 s"
  shows "hostOk os I (length tunFds) ct0 s \<and> stepsOk os I cfg tunFds srcFds (collectSlots ct0) s"
  using hostReach_ok [OF assms(4,1-3)] hostOk_steps by blast

section \<open>What goes through a host\<close>

lemma tunLine_order:
  assumes "tunLine I ct0 w asked sent"
  shows "list_all2 (destined I ct0) sent (take (length sent) asked) \<and>
    (fst w = TunRead \<longrightarrow> length sent = length asked)"
proof -
  obtain pre post where l: "asked = pre @ post" "list_all2 (destined I ct0) sent pre"
      "list_all2 (forPeer I ct0) (unsent w) post"
    using assms by (auto simp: tunLine_def)
  have "post = []" if "fst w = TunRead" using l(3) that by (cases w) simp
  then show ?thesis using l(1) l(2) list_all2_lengthD [OF l(2)] by auto
qed

lemma udpLine_order:
  assumes "udpLine w given wrote"
  shows "\<exists>past rest. given = past @ rest \<and> wrote = written past \<and> (fst w = UdpRecv \<longrightarrow> rest = [])"
proof -
  obtain past rs where l: "udpAt w rs" "given = past @ rs" "wrote = written past"
    using assms by (auto simp: udpLine_def)
  have "rs = []" if "fst w = UdpRecv" using l(1) that by (cases w) simp
  then show ?thesis using l(2,3) by blast
qed

end
