(* ===== verification/HostRounds.thy ===== *)
theory HostRounds
  imports Hosts
begin

text \<open>
  The process of theory Process, where a round of a thread is one step, is a host of theory
  Hosts whose threads happen not to be interrupted within a round: every state that rounds
  reach, small steps reach.
\<close>

section \<open>One thread moves, the others rest\<close>

text \<open>
  A thread is a view \<open>get\<close> of the state on which \<open>f\<close> acts, and what it leaves alone, \<open>rest\<close>.
\<close>

locale thread_view =
  fixes step :: "'s \<Rightarrow> 's \<Rightarrow> bool"
    and fits :: "'s \<Rightarrow> bool"
    and get :: "'s \<Rightarrow> 'v"
    and rest :: "'s \<Rightarrow> 'r"
    and micro :: "'v \<Rightarrow> 'v option"
  assumes moves: "fits s \<Longrightarrow> micro (get s) = Some v \<Longrightarrow> \<exists>s'. step s s' \<and> fits s' \<and> get s' = v \<and> rest s' = rest s"
begin

lemma rounds_move:
  "fits s \<Longrightarrow> rounds n micro (get s) = Some v \<Longrightarrow> \<exists>s'. step\<^sup>*\<^sup>* s s' \<and> fits s' \<and> get s' = v \<and> rest s' = rest s"
proof (induction n arbitrary: s)
  case (Suc n)
  then obtain v1 where v1: "micro (get s) = Some v1" "rounds n micro v1 = Some v"
    by (auto simp: bind_Some_iff)
  obtain s1 where s1: "step s s1" "fits s1" "get s1 = v1" "rest s1 = rest s"
    using moves [OF Suc.prems(1) v1(1)] by blast
  then obtain s' where "step\<^sup>*\<^sup>* s1 s'" "fits s'" "get s' = v" "rest s' = rest s1"
    using Suc.IH [OF s1(2)] v1(2) by auto
  then show ?case using s1(1,4) by (metis converse_rtranclp_into_rtranclp)
qed auto

lemma leads_move:
  "fits s \<Longrightarrow> leads micro (get s) v \<Longrightarrow> \<exists>s'. step\<^sup>*\<^sup>* s s' \<and> fits s' \<and> get s' = v \<and> rest s' = rest s"
  unfolding leads_def using rounds_move by blast

end

definition tunView :: "nat \<Rightarrow> 'i host \<Rightarrow> 'i conn_table \<times> (tun_pc \<times> tun_scratch) \<times> ev list" where
  "tunView i s = (hTable s, hTun s ! i, hHist s)"

definition tunOthers :: "nat \<Rightarrow> 'i host \<Rightarrow> (tun_pc \<times> tun_scratch) list \<times> (udp_pc \<times> udp_scratch) list \<times> nat list \<times> stat_pc" where
  "tunOthers i s = ((hTun s)[i := (TunRead, makeTunReaderScratch)], hUdp s, hProbe s, hStat s)"

definition udpView :: "nat \<Rightarrow> 'i host \<Rightarrow> 'i conn_table \<times> (udp_pc \<times> udp_scratch) \<times> ev list" where
  "udpView i s = (hTable s, hUdp s ! i, hHist s)"

definition udpOthers :: "nat \<Rightarrow> udp_pc \<times> udp_scratch \<Rightarrow> 'i host
    \<Rightarrow> (tun_pc \<times> tun_scratch) list \<times> (udp_pc \<times> udp_scratch) list \<times> nat list \<times> stat_pc" where
  "udpOthers i w s = (hTun s, (hUdp s)[i := w], hProbe s, hStat s)"

text \<open>What the kernel has handed over so far changes only at a read or a receive.\<close>

definition asksOf :: "'i host \<Rightarrow> (nat \<Rightarrow> (u32 \<times> bytes) list) \<times> (nat \<Rightarrow> rx list)" where
  "asksOf s = (hAsked s, hGiven s)"

lemma tun_first:
  assumes i: "i < length tunFds" "length (hTun s) = length tunFds"
    and m: "tunMicro os I (tunFds ! i) (tunView i s) = Some v"
  shows "\<exists>s'. hostStep os I cfg tunFds srcFds slots s s' \<and> length (hTun s') = length tunFds \<and>
    tunView i s' = v \<and> tunOthers i s' = tunOthers i s \<and>
    asksOf s' = ((hAsked s)(i := hAsked s i @ askedBy os I (tunFds ! i) (hTable s) (hTun s ! i) (hHist s)), hGiven s)"
proof -
  obtain ct' w' h' where v: "v = (ct', w', h')" by (cases v) auto
  have "tunMicro os I (tunFds ! i) (hTable s, hTun s ! i, hHist s) = Some (ct', w', h')"
    using m v by (simp add: tunView_def)
  note step = hostStep.tun_step [OF i(1) this]
  show ?thesis
    by (rule exI, rule conjI, rule step) (use i in \<open>simp add: v tunView_def tunOthers_def asksOf_def\<close>)
qed

lemma udp_first:
  assumes i: "i < length srcFds" "length (hUdp s) = length srcFds"
    and m: "udpMicro os I (srcFds ! i) (tunFds ! i) (of_nat i) (udpView i s) = Some v"
  shows "\<exists>s'. hostStep os I cfg tunFds srcFds slots s s' \<and> length (hUdp s') = length srcFds \<and>
    udpView i s' = v \<and> udpOthers i w s' = udpOthers i w s \<and>
    asksOf s' = (hAsked s, (hGiven s)(i := hGiven s i @ givenTo os (srcFds ! i) (hUdp s ! i) (hHist s)))"
proof -
  obtain ct' w' h' where v: "v = (ct', w', h')" by (cases v) auto
  have "udpMicro os I (srcFds ! i) (tunFds ! i) (of_nat i) (hTable s, hUdp s ! i, hHist s) = Some (ct', w', h')"
    using m v by (simp add: udpView_def)
  note step = hostStep.udp_step [OF i(1) this]
  show ?thesis
    by (rule exI, rule conjI, rule step) (use i in \<open>simp add: v udpView_def udpOthers_def asksOf_def\<close>)
qed

interpretation tv: thread_view "hostStep os I cfg tunFds srcFds slots"
    "\<lambda>s. i < length tunFds \<and> length (hTun s) = length tunFds" "tunView i" "\<lambda>s. (tunOthers i s, asksOf s)"
    "within tunBusy (tunMicro os I (tunFds ! i))"
  for os I cfg tunFds srcFds slots i
proof (unfold_locales, goal_cases)
  case (1 s v)
  then have i: "i < length tunFds" "length (hTun s) = length tunFds" "fst (hTun s ! i) \<noteq> TunRead"
    and m: "tunMicro os I (tunFds ! i) (tunView i s) = Some v" by (simp_all add: tunView_def tunBusy_def)
  from tun_first [OF i(1,2) m, of cfg srcFds slots] i show ?case by (auto simp: askedBy_def asksOf_def)
qed

interpretation uv: thread_view "hostStep os I cfg tunFds srcFds slots"
    "\<lambda>s. i < length srcFds \<and> length (hUdp s) = length srcFds" "udpView i" "\<lambda>s. (udpOthers i w s, asksOf s)"
    "within udpBusy (udpMicro os I (srcFds ! i) (tunFds ! i) (of_nat i))"
  for os I cfg tunFds srcFds slots i w
proof (unfold_locales, goal_cases)
  case (1 s v)
  then have i: "i < length srcFds" "length (hUdp s) = length srcFds" "fst (hUdp s ! i) \<noteq> UdpRecv"
    and m: "udpMicro os I (srcFds ! i) (tunFds ! i) (of_nat i) (udpView i s) = Some v"
    by (simp_all add: udpView_def udpBusy_def)
  from udp_first [OF i(1,2) m, of cfg slots w] i show ?case by (auto simp: givenTo_def asksOf_def)
qed

interpretation pv: thread_view "hostStep os I cfg tunFds srcFds slots" "\<lambda>s. True"
    "\<lambda>s. (hTable s, hProbe s, hHist s)" "\<lambda>s. (hTun s, hUdp s, hStat s)" "probeMicro os slots (probeIntervalMs cfg)"
  for os I cfg tunFds srcFds slots
proof (unfold_locales, goal_cases)
  case (1 s v)
  obtain ct' ps' h' where v: "v = (ct', ps', h')" by (cases v) auto
  show ?case
    using hostStep.probe_step [OF 1(2) [unfolded v], of I tunFds srcFds]
    by (intro exI conjI, assumption) (simp_all add: v)
qed

interpretation sv: thread_view "hostStep os I cfg tunFds srcFds slots" "\<lambda>s. True"
    "\<lambda>s. (hTable s, hStat s, hHist s)" "\<lambda>s. (hTun s, hUdp s, hProbe s)"
    "statMicro os slots (probeTimeoutMs cfg) (statsIntervalSec cfg)"
  for os I cfg tunFds srcFds slots
proof (unfold_locales, goal_cases)
  case (1 s v)
  obtain ct' pc' h' where v: "v = (ct', pc', h')" by (cases v) auto
  show ?case
    using hostStep.stat_step [OF 1(2) [unfolded v], of I tunFds srcFds]
    by (intro exI conjI, assumption) (simp_all add: v)
qed

section \<open>Rounds are small steps\<close>

text \<open>The state between rounds: every thread is at its beginning.\<close>

definition atRest :: "nat list \<Rightarrow> 'i process \<Rightarrow> 'i host \<Rightarrow> bool" where
  "atRest slots p s \<longleftrightarrow> hTable s = prTable p \<and> hTun s = map (\<lambda>sc. (TunRead, sc)) (prTun p) \<and>
     hUdp s = map (\<lambda>us. (UdpRecv, us)) (prUdp p) \<and> hProbe s = slots \<and> hStat s = StatClock \<and> hHist s = prHist p"

lemma update_from: "xs[i := a] = ys[i := a] \<Longrightarrow> i < length xs \<Longrightarrow> xs = ys[i := xs ! i]"
  by (metis list_update_id list_update_overwrite)

lemma tun_move:
  assumes r: "atRest slots p s" and i: "i < length tunFds" "length (prTun p) = length tunFds"
    and st: "tunStep os I (tunFds ! i) (prTable p, prTun p ! i, prHist p) = Some (ct', sc', h')"
  shows "\<exists>s'. (hostStep os I cfg tunFds srcFds slots)\<^sup>*\<^sup>* s s' \<and>
    atRest slots (p\<lparr>prTable := ct', prTun := (prTun p)[i := sc'], prHist := h'\<rparr>) s' \<and>
    asksOf s' = ((hAsked s)(i := hAsked s i @ tunAsked os I (tunFds ! i) (prTable p) (prTun p ! i) (prHist p)), hGiven s)"
proof -
  let ?S = "hostStep os I cfg tunFds srcFds slots"
  have len: "length (hTun s) = length tunFds" using r i by (simp add: atRest_def)
  have v: "tunView i s = (prTable p, (TunRead, prTun p ! i), prHist p)" using r i by (simp add: atRest_def tunView_def)
  obtain v1 where m: "tunMicro os I (tunFds ! i) (tunView i s) = Some v1" "tunRest os v1 = Some (ct', sc', h')"
    using st unfolding tunStep_rest v by (auto simp only: bind_Some_iff)
  obtain s1 where s1: "?S s s1" "length (hTun s1) = length tunFds" "tunView i s1 = v1" "tunOthers i s1 = tunOthers i s"
      "asksOf s1 = ((hAsked s)(i := hAsked s i @ askedBy os I (tunFds ! i) (hTable s) (hTun s ! i) (hHist s)), hGiven s)"
    using tun_first [OF i(1) len m(1)] by blast
  have "v1 = (ct', (TunRead, sc'), h') \<or> leads (within tunBusy (tunMicro os I (tunFds ! i))) v1 (ct', (TunRead, sc'), h')"
    using rest_alone [of os "fst v1" "fst (fst (snd v1))" "snd (fst (snd v1))" "snd (snd v1)"] m(2) by simp
  then obtain s' where s': "?S\<^sup>*\<^sup>* s1 s'" "length (hTun s') = length tunFds"
      "tunView i s' = (ct', (TunRead, sc'), h')" "tunOthers i s' = tunOthers i s" "asksOf s' = asksOf s1"
    using tv.leads_move [of i tunFds s1 os I "(ct', (TunRead, sc'), h')" cfg srcFds slots] i(1) s1(2-4)
    by (metis Product_Type.Pair_inject rtranclp.rtrancl_refl)
  have "hTun s' = (hTun s)[i := hTun s' ! i]"
    using s'(2,4) i by (intro update_from) (auto simp: tunOthers_def)
  then have "hTun s' = map (\<lambda>sc. (TunRead, sc)) ((prTun p)[i := sc'])"
    using s'(3) r by (simp add: tunView_def atRest_def map_update)
  moreover have "askedBy os I (tunFds ! i) (hTable s) (hTun s ! i) (hHist s) =
      tunAsked os I (tunFds ! i) (prTable p) (prTun p ! i) (prHist p)"
    using v by (simp add: tunView_def askedBy_def)
  moreover have "?S\<^sup>*\<^sup>* s s'" using s1(1) s'(1) by (rule converse_rtranclp_into_rtranclp)
  ultimately show ?thesis using s'(3-5) s1(5) r by (auto simp: atRest_def tunView_def tunOthers_def)
qed

lemma udp_move:
  assumes r: "atRest slots p s" and i: "i < length srcFds" "length (prUdp p) = length srcFds"
    and st: "udpStep os I (srcFds ! i) (tunFds ! i) (of_nat i) (prTable p, prUdp p ! i, prHist p) = Some (ct', us', h')"
  shows "\<exists>s'. (hostStep os I cfg tunFds srcFds slots)\<^sup>*\<^sup>* s s' \<and>
    atRest slots (p\<lparr>prTable := ct', prUdp := (prUdp p)[i := us'], prHist := h'\<rparr>) s' \<and>
    asksOf s' = (hAsked s, (hGiven s)(i := hGiven s i @ udpGiven os (srcFds ! i) (prHist p)))"
proof -
  let ?S = "hostStep os I cfg tunFds srcFds slots" and ?o = "udpOthers i (hUdp s ! i)"
  let ?f = "udpMicro os I (srcFds ! i) (tunFds ! i) (of_nat i)"
  have len: "length (hUdp s) = length srcFds" using r i by (simp add: atRest_def)
  have v: "udpView i s = (prTable p, (UdpRecv, prUdp p ! i), prHist p)" using r i by (simp add: atRest_def udpView_def)
  obtain v1 where m: "?f (udpView i s) = Some v1"
      "v1 = (ct', (UdpRecv, us'), h') \<or> leads (within udpBusy ?f) v1 (ct', (UdpRecv, us'), h')"
    using udpStep_rest [OF st] unfolding v by blast
  obtain s1 where s1: "?S s s1" "length (hUdp s1) = length srcFds" "udpView i s1 = v1" "?o s1 = ?o s"
      "asksOf s1 = (hAsked s, (hGiven s)(i := hGiven s i @ givenTo os (srcFds ! i) (hUdp s ! i) (hHist s)))"
    using udp_first [OF i(1) len m(1)] by blast
  obtain s' where s': "?S\<^sup>*\<^sup>* s1 s'" "length (hUdp s') = length srcFds"
      "udpView i s' = (ct', (UdpRecv, us'), h')" "?o s' = ?o s" "asksOf s' = asksOf s1"
    using uv.leads_move [of i srcFds s1 os I tunFds "(ct', (UdpRecv, us'), h')" cfg slots "hUdp s ! i"] i(1) s1(2-4) m(2)
    by (metis Product_Type.Pair_inject rtranclp.rtrancl_refl)
  have "hUdp s' = (hUdp s)[i := hUdp s' ! i]"
    using s'(2,4) i by (intro update_from [of _ _ "hUdp s ! i"]) (auto simp: udpOthers_def)
  then have "hUdp s' = map (\<lambda>us. (UdpRecv, us)) ((prUdp p)[i := us'])"
    using s'(3) r by (simp add: udpView_def atRest_def map_update)
  moreover have "givenTo os (srcFds ! i) (hUdp s ! i) (hHist s) = udpGiven os (srcFds ! i) (prHist p)"
    using v by (simp add: udpView_def givenTo_def)
  moreover have "?S\<^sup>*\<^sup>* s s'" using s1(1) s'(1) by (rule converse_rtranclp_into_rtranclp)
  ultimately show ?thesis using s'(3-5) s1(5) r by (auto simp: atRest_def udpView_def udpOthers_def)
qed

lemma probe_move:
  assumes r: "atRest slots p s"
    and st: "probeStep os (prTable p) slots (probeIntervalMs cfg) (prHist p) = Some h'"
  shows "\<exists>s'. (hostStep os I cfg tunFds srcFds slots)\<^sup>*\<^sup>* s s' \<and> atRest slots (p\<lparr>prHist := h'\<rparr>) s'"
proof -
  obtain h1 where h1: "probeSlots os (prTable p) slots (prHist p) = Some h1"
      "h' = h1 @ [USleep (ucast (probeIntervalMs cfg * 1000))]"
    using st by (auto simp: probeStep_def bind_Some_iff)
  have "leads (probeMicro os slots (probeIntervalMs cfg)) (hTable s, hProbe s, hHist s) (prTable p, slots, h')"
    using probe_alone [OF h1(1)] r h1(2) by (simp add: atRest_def)
  from pv.leads_move [OF TrueI this, of I tunFds srcFds] show ?thesis using r by (auto simp: atRest_def)
qed

lemma stat_move:
  assumes r: "atRest slots p s"
    and st: "statStep os (prTable p) slots (probeTimeoutMs cfg) (statsIntervalSec cfg) (prHist p) = Some h'"
  shows "\<exists>s'. (hostStep os I cfg tunFds srcFds slots)\<^sup>*\<^sup>* s s' \<and> atRest slots (p\<lparr>prHist := h'\<rparr>) s'"
proof -
  have "leads (statMicro os slots (probeTimeoutMs cfg) (statsIntervalSec cfg)) (hTable s, hStat s, hHist s)
      (prTable p, StatClock, h')"
    using stat_alone [OF st] r by (simp add: atRest_def)
  from sv.leads_move [OF TrueI this, of I tunFds srcFds] show ?thesis using r by (auto simp: atRest_def)
qed

lemma procStep_moves:
  assumes r: "atRest slots p s" and n: "length (prTun p) = length tunFds" "length (prUdp p) = length srcFds"
    and st: "procStep os I cfg tunFds srcFds slots p p'"
  shows "\<exists>s'. (hostStep os I cfg tunFds srcFds slots)\<^sup>*\<^sup>* s s' \<and> atRest slots p' s'"
  using st
proof (cases rule: procStep.cases)
  case (tun_round i ct' sc' h')
  then show ?thesis using tun_move [OF r _ n(1)] by blast
next
  case (udp_round i ct' us' h')
  then show ?thesis using udp_move [OF r _ n(2)] by blast
next
  case (probe_round h')
  then show ?thesis using probe_move [OF r] by blast
next
  case (stats_round h')
  then show ?thesis using stat_move [OF r] by blast
qed

lemma hostReach_steps:
  "(hostStep os I cfg tunFds srcFds (collectSlots ct0))\<^sup>*\<^sup>* s s' \<Longrightarrow>
   hostReach os I cfg tunFds srcFds ct0 h0 s \<Longrightarrow> hostReach os I cfg tunFds srcFds ct0 h0 s'"
  by (induction rule: rtranclp_induct) (auto intro: hostReach.host_step)

lemma procReach_lengths:
  "procReach os I cfg tunFds srcFds ct0 h0 p \<Longrightarrow> length (prTun p) = length tunFds \<and> length (prUdp p) = length tunFds"
proof (induction rule: procReach.induct)
  case (start us)
  then show ?case by (simp add: procInit_def)
next
  case (step s s')
  then show ?case by (auto elim!: procStep.cases)
qed

lemma rounds_reach:
  assumes "procReach os I cfg tunFds srcFds ct0 h0 p" and "length tunFds = length srcFds"
  shows "\<exists>s. hostReach os I cfg tunFds srcFds ct0 h0 s \<and> atRest (collectSlots ct0) p s"
  using assms
proof (induction rule: procReach.induct)
  case (start us)
  have "atRest (collectSlots ct0) (procInit ct0 (length tunFds) us h0) (hostInit ct0 (length tunFds) us h0)"
    by (simp add: atRest_def procInit_def hostInit_def)
  then show ?case using hostReach.host_start [OF start(1)] by blast
next
  case (step p p')
  obtain s where s: "hostReach os I cfg tunFds srcFds ct0 h0 s" "atRest (collectSlots ct0) p s"
    using step by blast
  have "length (prTun p) = length tunFds" "length (prUdp p) = length srcFds"
    using procReach_lengths [OF step.hyps(1)] step.prems by simp_all
  from procStep_moves [OF s(2) this step.hyps(2)] show ?case using hostReach_steps s(1) by blast
qed

section \<open>Properties of the running host\<close>

text \<open>
  Property C4. However the threads of a running host are interleaved, access by access to the
  shared data, and whatever the kernel hands them, the invariants of the connection table and
  of every thread hold, wherever in a round each of them is, and no thread can go wrong in its
  next step: the readers of every queue, the prober and the statistics stay inside their
  memory.
\<close>

theorem host_safe:
  assumes "kernelOk os" and "connTableOk I ct0" and "length tunFds = length srcFds"
    and "hostReach os I cfg tunFds srcFds ct0 h0 s"
  shows "hostOk os I (length tunFds) ct0 s \<and> stepsOk os I cfg tunFds srcFds (collectSlots ct0) s"
  using assms by (rule host_safe_run)

text \<open>
  Property C5. What a host does with its packets, however its threads are interleaved. A TUN
  reader sends the packets that it was asked to send, in their order, unchanged, none twice and
  none left out, each to an endpoint of the peer it is for; when it is back at its read it has
  sent them all. A UDP reader writes the packets of the messages received, in their order; when
  it is back at its receive it has written them all.
\<close>

theorem host_order:
  assumes "kernelOk os" and "connTableOk I ct0" and "length tunFds = length srcFds"
    and "hostReach os I cfg tunFds srcFds ct0 h0 s" and "i < length tunFds"
  shows "list_all2 (destined I ct0) (hSent s i) (take (length (hSent s i)) (hAsked s i)) \<and>
    (fst (hTun s ! i) = TunRead \<longrightarrow> length (hSent s i) = length (hAsked s i)) \<and>
    (\<exists>past rest. hGiven s i = past @ rest \<and> hWrote s i = written past \<and>
      (fst (hUdp s ! i) = UdpRecv \<longrightarrow> rest = []))"
proof -
  have ok: "hostOk os I (length tunFds) ct0 s" using hostReach_ok [OF assms(4,1-3)] .
  show ?thesis
    using tunLine_order [OF hostOkD(2) [OF ok assms(5)]] udpLine_order [OF hostOkD(3) [OF ok assms(5)]] by blast
qed

section \<open>A concrete run\<close>

text \<open>The reader asks for the three segments, and the UDP reader gets two messages.\<close>

lemma exAsked: "tunAsked exBusy exMap 7 exCt makeTunReaderScratch [] = map (\<lambda>d. (0x0A000002, d)) exSegs"
proof -
  have hdr: "decodeVirtioNetHdr (exVnet 1 @ exPkt) = Some exHdr" using exVnet_decode [of 1] by (simp add: exHdr_def)
  have len: "\<not> length (exVnet 1 @ exPkt) < VIRTIO_NET_HDR_LEN + 20"
    by (simp add: VIRTIO_NET_HDR_LEN_def exVnet_def exPkt_def)
  have tcp: "gsoType exHdr = VIRTIO_NET_HDR_GSO_TCPV4" using exInner_ok by (simp add: gsoOk_def)
  have "meant exInner 59 exHdr = exSegs" "relayed 59 exHdr"
    by (simp_all add: meant_def relayed_def tcp exSegs_def exCount MAX_SEGS_def)
  moreover have "osRes exBusy h (ReadFd fd n) = 69" "osRead exBusy h = exVnet 1 @ exPkt" for h fd n
    by (simp_all add: exBusy_def)
  ultimately show ?thesis
    using len hdr by (simp add: tunAsked_def Let_def exInner_eq exInner_len exInner_dst exCt_lookup
        del: length_append)
qed

lemma procInit_rest: "atRest (collectSlots ct) (procInit ct n us h) (hostInit ct n us h)"
  by (simp add: atRest_def procInit_def hostInit_def)

text \<open>A start of the host, in which the TUN reader has finished a round.\<close>

lemma exHost:
  "\<exists>p s. hostReach exBusy exMap exCfg [7] [5] exCt [] s \<and> atRest [0] p s \<and> length (prTun p) = 1 \<and>
     asksOf s = ((\<lambda>_. [])(0 := map (\<lambda>d. (0x0A000002, d)) exSegs), \<lambda>_. [])"
proof -
  obtain us where us: "makeUdpReaderScratch = Some us" using makeUdp_Some by blast
  let ?s = "hostInit exCt 1 us []" and ?p = "procInit exCt 1 us []"
  have slots: "collectSlots exCt = [0]" by (simp add: collectSlots_eq exCt_def)
  have s0: "hostReach exBusy exMap exCfg [7] [5] exCt [] ?s"
    using hostReach.host_start [OF us] by (metis One_nat_def length_Cons list.size(3))
  have "sharedOk exBusy exMap 1 exCt"
    by (simp add: sharedOk_def exBusy_ok connTableOk_exCt) (simp add: exCt_def)
  from tunStep_keeps [OF this tunScratchOk_make, of 7 "[]"]
  obtain ct' sc' h' where "tunStep exBusy exMap ([7] ! 0) (prTable ?p, prTun ?p ! 0, prHist ?p) = Some (ct', sc', h')"
    by (auto simp: procInit_def)
  from tun_move [OF procInit_rest _ _ this, of exCfg "[5]"]
  obtain s' where s': "(hostStep exBusy exMap exCfg [7] [5] (collectSlots exCt))\<^sup>*\<^sup>* ?s s'"
      "atRest [0] (?p\<lparr>prTable := ct', prTun := (prTun ?p)[0 := sc'], prHist := h'\<rparr>) s'"
      "asksOf s' = ((\<lambda>_. [])(0 := map (\<lambda>d. (0x0A000002, d)) exSegs), \<lambda>_. [])"
    by (auto simp: procInit_def hostInit_def exAsked slots)
  with hostReach_steps [OF s'(1) s0] show ?thesis by (fastforce simp: procInit_def)
qed

theorem host_safe_witness:
  "\<exists>s. hostReach exBusy exMap exCfg [7] [5] exCt [] s \<and> map snd (hAsked s 0) = exSegs \<and>
     hostOk exBusy exMap 1 exCt s \<and> stepsOk exBusy exMap exCfg [7] [5] (collectSlots exCt) s"
proof -
  obtain s where s: "hostReach exBusy exMap exCfg [7] [5] exCt [] s" "map snd (hAsked s 0) = exSegs"
    using exHost by (auto simp: asksOf_def comp_def)
  with host_safe [OF exBusy_ok connTableOk_exCt _ s(1)] show ?thesis by auto
qed

text \<open>The three segments are sent, in order, by then.\<close>

theorem host_order_witness:
  "\<exists>s. hostReach exBusy exMap exCfg [7] [5] exCt [] s \<and> map snd (hSent s 0) = exSegs"
proof -
  obtain p s where s: "hostReach exBusy exMap exCfg [7] [5] exCt [] s" "atRest [0] p s" "length (prTun p) = 1"
      "map snd (hAsked s 0) = exSegs"
    using exHost by (auto simp: asksOf_def comp_def)
  have rest: "fst (hTun s ! 0) = TunRead" using s(2,3) by (simp add: atRest_def)
  have len: "length [7 :: int] = length [5 :: int]" "0 < length [7 :: int]" by simp_all
  have all: "list_all2 (destined exMap exCt) (hSent s 0) (hAsked s 0)"
    using host_order [OF exBusy_ok connTableOk_exCt len(1) s(1) len(2)] rest by (metis take_all order_refl)
  have "map snd (hSent s 0) = map snd (hAsked s 0)"
    using all by (induction rule: list_all2_induct) (simp_all add: destined_def)
  then show ?thesis using s(1,4) by auto
qed

end
