(* ===== verification/Types.thy ===== *)
theory Types
  imports HostRounds
begin

text \<open>
  The types of the memory that the threads use: the sizes of all arrays and buffers, the zero
  headers, and of the connection table everything but the counters and the times. No step of
  any thread changes them, whatever the kernel does: this needs none of its promises.
\<close>

section \<open>Segmentation\<close>

lemma gsoSegment_length:
  assumes "gsoSegment inb inLen hdr s0 a e i out = Some (n, out')"
  shows "length out' = length out"
  using assms unfolding gsoSegment_def Let_def
  by (clarsimp simp only: bind_Some_iff option.inject prod.inject)
    (drule putBE16_length putBE32_length if_put_length if_wr_length wrBlk_room
      | elim conjE | simp only:)+

definition segsTyped :: "nat list \<Rightarrow> nat \<Rightarrow> gso_out \<Rightarrow> bool" where
  "segsTyped ls m st \<longleftrightarrow> map length (outBufs st) = ls \<and> length (outSizes st) = m"

lemma gsoStep_typed: "gsoStep inb n hdr s0 a i st = Some st' \<Longrightarrow> segsTyped ls m st \<Longrightarrow> segsTyped ls m st'"
  by (auto simp: gsoStep_def bind_Some_iff segsTyped_def map_update_same
      dest!: gsoSegment_length split: if_splits)

lemma gsoLoop_typed:
  "gsoLoop inb n hdr s0 maxSegs a i st = Some r \<Longrightarrow> segsTyped ls m st \<longrightarrow> segsTyped ls m (snd r)"
proof (erule gsoLoop.raw_induct [rotated], goal_cases)
  case (1 loop inb n hdr s0 maxSegs a i st r)
  show ?case
  proof (cases "a < n \<and> i \<noteq> maxSegs")
    case True
    with 1(2) obtain st1 where s: "gsoStep inb n hdr s0 a i st = Some st1"
        "loop inb n hdr s0 maxSegs (a + unat (gsoSize hdr)) (i + 1) st1 = Some r"
      by (auto simp: bind_Some_iff)
    show ?thesis using 1(1) [OF s(2)] gsoStep_typed [OF s(1)] by blast
  qed (use 1(2) in \<open>auto split: if_splits\<close>)
qed

lemma gsoSplit_typed:
  assumes "gsoSplit inb n hdr st maxSegs = Some (r, inb', st')" and "segsTyped ls m st"
  shows "length inb' = length inb" and "segsTyped ls m st'"
  using assms by (auto simp: gsoSplit_def Let_def bind_Some_iff dest!: wr8_length gsoLoop_typed split: if_splits)

section \<open>The TUN reader\<close>

lemma tunScratchOk_typed: "tunScratchOk sc \<longleftrightarrow> length (tsReadBuf sc) = READ_SIZE \<and>
    segsTyped (replicate MAX_SEGS SEG_SIZE) MAX_SEGS (tsSegs sc) \<and> length (tsIovs sc) = MAX_SEGS"
proof -
  have "map length bs = replicate MAX_SEGS SEG_SIZE \<longleftrightarrow>
      length bs = MAX_SEGS \<and> list_all (\<lambda>b. length b = SEG_SIZE) bs" for bs :: "bytes list"
    by (auto simp: list_eq_iff_nth_eq list_all_length)
  then show ?thesis by (auto simp: tunScratchOk_def segsTyped_def)
qed

lemma fillIovs_typed: "fillIovs ks sc = Some sc' \<Longrightarrow> tunScratchOk sc \<Longrightarrow> tunScratchOk sc'"
  by (induction ks arbitrary: sc) (auto simp: bind_Some_iff tunScratchOk_def split: if_splits)

lemma usoPart_typed:
  "usoPart os c g now i e (ct, sc, h) = Some (ct', sc', h') \<Longrightarrow> tunScratchOk sc \<Longrightarrow>
   frozen ct' = frozen ct \<and> tunScratchOk sc'"
  by (auto simp: usoPart_def bind_Some_iff dest: frozen_next fillIovs_typed split: prod.splits)

lemma tunChoose_typed:
  assumes "tunChoose I hdr n ct sc = Some (pc, sc', ws)" and "tunScratchOk sc"
  shows "tunScratchOk sc'"
proof -
  let ?in = "drop VIRTIO_NET_HDR_LEN (tsReadBuf sc)"
  let ?sc = "\<lambda>b. sc\<lparr>tsReadBuf := take VIRTIO_NET_HDR_LEN (tsReadBuf sc) @ b\<rparr>"
  have *: "tunScratchOk (?sc b\<lparr>tsSegs := out\<rparr>)"
    if "length b = length ?in" "segsTyped (replicate MAX_SEGS SEG_SIZE) MAX_SEGS out" for b out
    using that assms(2) by (simp add: tunScratchOk_typed VIRTIO_NET_HDR_LEN_def READ_SIZE_def)
  have segs: "segsTyped (replicate MAX_SEGS SEG_SIZE) MAX_SEGS (tsSegs sc)"
    using assms(2) by (simp add: tunScratchOk_typed)
  then have plain: "tunScratchOk (?sc b)" if "length b = length ?in" for b using * [OF that segs] by simp
  note split = gsoSplit_typed [OF _ segs]
  obtain d where d: "dstFromIPv4 ?in n = Some d"
    using assms(1) by (auto simp: tunChoose_def Let_def bind_Some_iff)
  show ?thesis
  proof (cases "\<exists>v c. d = Some v \<and> ctLookup I ct v = Some c")
    case True
    then show ?thesis
      using assms d unfolding tunChoose_def Let_def
      by (auto simp: bind_Some_iff intro: plain * split dest: gsoNoneChecksum_length split: if_split_asm)
  next
    case False
    then have "sc' = sc"
      using assms(1) d unfolding tunChoose_def Let_def by (auto split: option.split_asm)
    then show ?thesis using assms(2) by simp
  qed
qed

lemma tunMicro_typed:
  assumes "tunMicro os I fd (ct, (pc, sc), h) = Some (ct', (pc', sc'), h')" and "tunScratchOk sc"
  shows "frozen ct' = frozen ct \<and> tunScratchOk sc'"
proof (cases pc)
  case TunRead
  have "tunScratchOk (sc\<lparr>tsReadBuf := b\<rparr>)" if "wrBlk (tsReadBuf sc) 0 x = Some b" for b x
    using assms(2) wrBlk_length [OF that] by (simp add: tunScratchOk_def)
  then show ?thesis
    using assms TunRead by (auto simp: Let_def bind_Some_iff dest!: tunChoose_typed split: if_splits prod.splits)
next
  case (TunPart c g now P n i)
  then show ?thesis using assms by (auto simp: bind_Some_iff dest!: usoPart_typed split: if_splits prod.splits)
qed (use assms in \<open>auto simp: bind_Some_iff case_prod_beta dest: frozen_next\<close>)

section \<open>The UDP reader\<close>

definition udpTyped :: "udp_scratch \<Rightarrow> bool" where
  "udpTyped sc \<longleftrightarrow> length (usMsgs sc) = BATCH \<and> length (usBufs sc) = BATCH \<and> list_all bufOk (usBufs sc) \<and>
     usZeroHdr sc = zeros"

lemma deliver_typed: "deliver r m b = Some (m', b') \<Longrightarrow> bufOk b \<Longrightarrow> bufOk b'"
  by (auto simp: deliver_def bind_Some_iff bufOk_def wrBlk_def splice_def split: if_splits)

lemma deliverAll_typed: "deliverAll i rs sc = Some sc' \<Longrightarrow> udpTyped sc \<Longrightarrow> udpTyped sc'"
proof (induction rs arbitrary: i sc)
  case (Cons r rs)
  then obtain m b m' b' where d: "i < length (usBufs sc)" "b = usBufs sc ! i" "deliver r m b = Some (m', b')"
      "deliverAll (Suc i) rs (sc\<lparr>usMsgs := (usMsgs sc)[i := m'], usBufs := (usBufs sc)[i := b']\<rparr>) = Some sc'"
    by (auto simp: bind_Some_iff deref_def split: if_splits)
  have "bufOk b" using Cons.prems(2) d(1,2) by (simp add: udpTyped_def list_all_length)
  then have "udpTyped (sc\<lparr>usMsgs := (usMsgs sc)[i := m'], usBufs := (usBufs sc)[i := b']\<rparr>)"
    using Cons.prems(2) deliver_typed [OF d(3)] by (simp add: udpTyped_def list_all_update)
  then show ?case using Cons.IH [OF d(4)] by simp
qed simp

lemma frozen_touch: "ctTouch ct p now = Some ct' \<Longrightarrow> frozen ct' = frozen ct"
  by (auto simp: ctTouch_def bind_Some_iff deref_def frozen_def map_update_same split: if_splits)

lemma udpMessage_typed:
  assumes "udpMessage os I tunFd srcIdx now i (ct, sc, h) = Some (ct', sc', h')" and "udpTyped sc"
  shows "frozen ct' = frozen ct \<and> udpTyped sc'"
  using assms
  by (auto simp: udpMessage_def bind_Some_iff Let_def udpTyped_def dest: frozen_touch split: option.splits if_splits)

lemma udpMicro_typed:
  assumes "udpMicro os I fd tunFd srcIdx (ct, (pc, sc), h) = Some (ct', (pc', sc'), h')" and "udpTyped sc"
  shows "frozen ct' = frozen ct \<and> udpTyped sc'"
  using assms
  by (cases pc) (auto simp: Let_def bind_Some_iff dest: deliverAll_typed udpMessage_typed split: if_splits prod.splits)

section \<open>The prober and the statistics\<close>

lemma probeMicro_typed:
  "probeMicro os slots iv (ct, ps, h) = Some (ct', ps', h') \<Longrightarrow> ct' = ct \<and> set ps' \<subseteq> set slots \<union> set ps"
  by (cases ps) (auto simp: bind_Some_iff simp del: probeSlots.simps)

fun statSet :: "stat_pc \<Rightarrow> nat set" where
  "statSet StatClock = {}"
| "statSet (StatScan now ps st) = set ps"

lemma statMicro_typed:
  "statMicro os slots tm iv (ct, pc, h) = Some (ct', pc', h') \<Longrightarrow> ct' = ct \<and> statSet pc' \<subseteq> set slots \<union> statSet pc"
  by (cases "(os, slots, tm, iv, ct, pc, h)" rule: statMicro.cases)
    (auto simp: bind_Some_iff simp del: statSlots.simps split: prod.splits)

section \<open>The host\<close>

definition hostTyped :: "nat \<Rightarrow> 'i conn_table \<Rightarrow> 'i host \<Rightarrow> bool" where
  "hostTyped n ct0 s \<longleftrightarrow> frozen (hTable s) = frozen ct0 \<and> length (hTun s) = n \<and> length (hUdp s) = n \<and>
     list_all (\<lambda>w. tunScratchOk (snd w)) (hTun s) \<and> list_all (\<lambda>w. udpTyped (snd w)) (hUdp s) \<and>
     set (hProbe s) \<union> statSet (hStat s) \<subseteq> {..<length (ctSlots ct0)}"

lemma hostStep_typed:
  assumes s: "hostTyped n ct0 s" and n: "length tunFds = n" "length srcFds = n"
    and st: "hostStep os I cfg tunFds srcFds (collectSlots ct0) s s'"
  shows "hostTyped n ct0 s'"
  using st
proof (cases rule: hostStep.cases)
  case (tun_step i ct' w' h')
  obtain pc sc pc' sc' where w: "hTun s ! i = (pc, sc)" "w' = (pc', sc')" by fastforce
  have "tunScratchOk (snd (hTun s ! i))" using s tun_step(2) n by (simp add: hostTyped_def list_all_length)
  then have "frozen ct' = frozen (hTable s) \<and> tunScratchOk sc'"
    using tunMicro_typed [of os I "tunFds ! i" "hTable s" pc sc] tun_step(3) by (simp add: w)
  then show ?thesis using s tun_step(1) by (auto simp: hostTyped_def list_all_update w)
next
  case (udp_step i ct' w' h')
  obtain pc sc pc' sc' where w: "hUdp s ! i = (pc, sc)" "w' = (pc', sc')" by fastforce
  have "udpTyped (snd (hUdp s ! i))" using s udp_step(2) n by (simp add: hostTyped_def list_all_length)
  then have "frozen ct' = frozen (hTable s) \<and> udpTyped sc'"
    using udpMicro_typed [of os I "srcFds ! i" "tunFds ! i" "of_nat i" "hTable s" pc sc] udp_step(3) by (simp add: w)
  then show ?thesis using s udp_step(1) by (auto simp: hostTyped_def list_all_update w)
next
  case (probe_step ct' ps' h')
  then show ?thesis using s probeMicro_typed [OF probe_step(2)] by (auto simp: hostTyped_def collectSlots_eq)
next
  case (stat_step ct' pc' h')
  then show ?thesis using s statMicro_typed [OF stat_step(2)] by (auto simp: hostTyped_def collectSlots_eq)
qed

lemma hostInit_typed: "makeUdpReaderScratch = Some us \<Longrightarrow> hostTyped n ct (hostInit ct n us h)"
proof -
  assume us: "makeUdpReaderScratch = Some us"
  obtain sc where sc: "makeUdpReaderScratch = Some sc" "udpScratchOk sc" using makeUdp_ok by blast
  have "sc = us" using trans [OF sc(1) [symmetric] us] by simp
  then have "udpTyped us" using sc(2) by (simp add: udpTyped_def udpScratchOk_def)
  then show ?thesis
    using tunScratchOk_make by (auto simp: hostTyped_def hostInit_def list_all_length collectSlots_eq)
qed

text \<open>
  Property C11. The types of a host's memory. Whatever the kernel does, even against its own
  documentation, no step of any thread changes the size of a buffer or an array, the zero
  headers that go in front of the packets, or anything of the connection table but its
  counters and times; and the prober and the statistics hold pointers to slots only.
\<close>

theorem host_types:
  assumes "hostReach os I cfg tunFds srcFds ct0 h0 s" and "length tunFds = length srcFds"
  shows "hostTyped (length tunFds) ct0 s"
  using assms
proof (induction rule: hostReach.induct)
  case (host_start us)
  then show ?case by (intro hostInit_typed)
next
  case (host_step s s')
  then show ?case by (intro hostStep_typed [OF _ _ _ host_step.hyps(2)]) simp_all
qed

theorem host_types_witness:
  "\<exists>s. hostReach exBusy exMap exCfg [7] [5] exCt [] s \<and> map snd (hAsked s 0) = exSegs \<and> hostTyped 1 exCt s"
proof -
  obtain s where s: "hostReach exBusy exMap exCfg [7] [5] exCt [] s" "map snd (hAsked s 0) = exSegs"
    using exHost by (auto simp: asksOf_def comp_def)
  with host_types [OF s(1)] show ?thesis by auto
qed

end
