(* ===== verification/Progress.thy ===== *)
theory Progress
  imports HostRounds
begin

text \<open>
  Progress of a running host: a reader that is scheduled again and again comes back to its
  read again and again, and has then done with all that it was given, whatever the other
  threads do in between.
\<close>

section \<open>How far a reader is from its read\<close>

fun tunLeft :: "tun_pc \<Rightarrow> nat" where
  "tunLeft TunRead = 0"
| "tunLeft (TunSend c pkt) = 2"
| "tunLeft (TunNext c now pkt) = 1"
| "tunLeft (TunSegs c n) = n + 2"
| "tunLeft (TunPart c g now P n i) = n - i + 1"

fun udpLeft :: "udp_pc \<Rightarrow> nat" where
  "udpLeft UdpRecv = 0"
| "udpLeft (UdpClock n) = n + 2"
| "udpLeft (UdpMsgs now n i) = n - i + 1"

lemma tunMicro_nearer:
  assumes m: "tunMicro os I fd (ct, (pc, sc), h) = Some (ct', (pc', sc'), h')"
    and own: "tunOwn k (pc, sc)" and pc: "pc \<noteq> TunRead"
  shows "tunLeft pc' < tunLeft pc"
proof (cases pc)
  case (TunPart c g now P n i)
  then show ?thesis using m own by (auto simp: bind_Some_iff usoEnd_def split: if_splits)
qed (use m pc in \<open>auto simp: bind_Some_iff case_prod_beta\<close>)

lemma udpMicro_nearer:
  assumes m: "udpMicro os I fd tunFd srcIdx (ct, (pc, sc), h) = Some (ct', (pc', sc'), h')" and pc: "pc \<noteq> UdpRecv"
  shows "udpLeft pc' < udpLeft pc"
  using assms by (cases pc) (auto simp: bind_Some_iff case_prod_beta split: if_splits)

section \<open>Fair schedules\<close>

text \<open>A run comes back to a set of states if its steps go nearer to it, and such steps are taken again and again.\<close>

lemma comes_back:
  fixes left :: "nat \<Rightarrow> nat"
  assumes fair: "\<forall>k. \<exists>m\<ge>k. moves m" and near: "\<And>m. left m \<noteq> 0 \<Longrightarrow> moves m \<Longrightarrow> left (Suc m) < left m"
    and keep: "\<And>m. left m \<noteq> 0 \<Longrightarrow> left (Suc m) \<le> left m"
  shows "\<exists>m\<ge>k. left m = 0"
proof (induction "left k" arbitrary: k rule: less_induct)
  case less
  obtain m where m: "k \<le> m" "moves m" using fair by blast
  show ?case
  proof (cases "\<exists>j\<ge>k. left j = 0")
    case False
    then have pos: "left j \<noteq> 0" if "k \<le> j" for j by (metis that)
    have mono: "left (k + d) \<le> left k" for d
    proof (induction d)
      case (Suc d)
      have "left (Suc (k + d)) \<le> left (k + d)" by (rule keep, rule pos) simp
      also have "\<dots> \<le> left k" by (rule Suc)
      finally show ?case by simp
    qed simp
    have "left (Suc m) < left m" by (rule near [OF pos [OF m(1)] m(2)])
    also have "\<dots> \<le> left k" using mono [of "m - k"] m(1) by simp
    finally have "left (Suc m) < left k" .
    from less [OF this] obtain j where "Suc m \<le> j" "left j = 0" by blast
    then show ?thesis using m(1) by (intro exI [of _ j]) simp
  qed simp
qed

text \<open>Reader \<open>i\<close> makes this step.\<close>

definition tunMoves :: "os \<Rightarrow> 'i int_ops \<Rightarrow> int list \<Rightarrow> nat \<Rightarrow> 'i host \<Rightarrow> 'i host \<Rightarrow> bool" where
  "tunMoves os I tunFds i s s' \<longleftrightarrow>
     (\<exists>ct' w' h'. tunMicro os I (tunFds ! i) (hTable s, hTun s ! i, hHist s) = Some (ct', w', h') \<and>
        hTable s' = ct' \<and> hTun s' = (hTun s)[i := w'] \<and> hHist s' = h')"

definition udpMoves :: "os \<Rightarrow> 'i int_ops \<Rightarrow> int list \<Rightarrow> int list \<Rightarrow> nat \<Rightarrow> 'i host \<Rightarrow> 'i host \<Rightarrow> bool" where
  "udpMoves os I tunFds srcFds i s s' \<longleftrightarrow>
     (\<exists>ct' w' h'. udpMicro os I (srcFds ! i) (tunFds ! i) (of_nat i) (hTable s, hUdp s ! i, hHist s) = Some (ct', w', h') \<and>
        hTable s' = ct' \<and> hUdp s' = (hUdp s)[i := w'] \<and> hHist s' = h')"

lemma step_keeps_left:
  assumes ok: "hostOk os I n ct0 s" and n: "length tunFds = n" "length srcFds = n" and i: "i < n"
    and st: "hostStep os I cfg tunFds srcFds slots s s'"
  shows "tunLeft (fst (hTun s ! i)) \<noteq> 0 \<Longrightarrow> tunLeft (fst (hTun s' ! i)) \<le> tunLeft (fst (hTun s ! i))"
    and "udpLeft (fst (hUdp s ! i)) \<noteq> 0 \<Longrightarrow> udpLeft (fst (hUdp s' ! i)) \<le> udpLeft (fst (hUdp s ! i))"
proof -
  have len: "length (hTun s) = n" "length (hUdp s) = n" using ok by (simp_all add: hostOk_def)
  have own: "tunOwn (ctSize ct0) (hTun s ! j)" if "j < n" for j
    using hostOkD(2) [OF ok that] by (simp add: tunLine_def)
  show "tunLeft (fst (hTun s' ! i)) \<le> tunLeft (fst (hTun s ! i))" if "tunLeft (fst (hTun s ! i)) \<noteq> 0"
    using st
  proof (cases rule: hostStep.cases)
    case (tun_step j ct' w' h')
    show ?thesis
    proof (cases "j = i")
      case True
      obtain pc sc pc' sc' where w: "hTun s ! i = (pc, sc)" "w' = (pc', sc')" by fastforce
      have "pc \<noteq> TunRead" using that w by auto
      then have "tunLeft pc' < tunLeft pc" using tunMicro_nearer own [OF i] tun_step(3) True w by metis
      then show ?thesis using True tun_step(1) len i w by simp
    qed (simp add: tun_step(1))
  qed simp_all
  show "udpLeft (fst (hUdp s' ! i)) \<le> udpLeft (fst (hUdp s ! i))" if "udpLeft (fst (hUdp s ! i)) \<noteq> 0"
    using st
  proof (cases rule: hostStep.cases)
    case (udp_step j ct' w' h')
    show ?thesis
    proof (cases "j = i")
      case True
      obtain pc sc pc' sc' where w: "hUdp s ! i = (pc, sc)" "w' = (pc', sc')" by fastforce
      have "pc \<noteq> UdpRecv" using that w by auto
      then have "udpLeft pc' < udpLeft pc" using udpMicro_nearer udp_step(3) True w by metis
      then show ?thesis using True udp_step(1) len i w by simp
    qed (simp add: udp_step(1))
  qed simp_all
qed

lemma moves_nearer:
  assumes ok: "hostOk os I n ct0 s" and i: "i < n"
  shows "tunLeft (fst (hTun s ! i)) \<noteq> 0 \<Longrightarrow> tunMoves os I tunFds i s s' \<Longrightarrow>
      tunLeft (fst (hTun s' ! i)) < tunLeft (fst (hTun s ! i))"
    and "udpLeft (fst (hUdp s ! i)) \<noteq> 0 \<Longrightarrow> udpMoves os I tunFds srcFds i s s' \<Longrightarrow>
      udpLeft (fst (hUdp s' ! i)) < udpLeft (fst (hUdp s ! i))"
proof -
  have len: "length (hTun s) = n" "length (hUdp s) = n" using ok by (simp_all add: hostOk_def)
  have own: "tunOwn (ctSize ct0) (hTun s ! i)" using hostOkD(2) [OF ok i] by (simp add: tunLine_def)
  obtain pc sc upc us where w: "hTun s ! i = (pc, sc)" "hUdp s ! i = (upc, us)" by fastforce
  show "tunLeft (fst (hTun s' ! i)) < tunLeft (fst (hTun s ! i))"
    if "tunLeft (fst (hTun s ! i)) \<noteq> 0" "tunMoves os I tunFds i s s'"
    using that own w len i by (auto simp: tunMoves_def dest!: tunMicro_nearer simp del: tunMicro.simps)
  show "udpLeft (fst (hUdp s' ! i)) < udpLeft (fst (hUdp s ! i))"
    if "udpLeft (fst (hUdp s ! i)) \<noteq> 0" "udpMoves os I tunFds srcFds i s s'"
    using that w len i by (auto simp: udpMoves_def dest!: udpMicro_nearer simp del: udpMicro.simps)
qed

lemma run_reach:
  assumes "hostReach os I cfg tunFds srcFds ct0 h0 (f 0)"
    and "\<forall>k. hostStep os I cfg tunFds srcFds (collectSlots ct0) (f k) (f (Suc k))"
  shows "hostReach os I cfg tunFds srcFds ct0 h0 (f k)"
  by (induction k) (use assms hostReach.host_step in blast)+

lemma left_zero: "tunLeft pc = 0 \<longleftrightarrow> pc = TunRead" "udpLeft upc = 0 \<longleftrightarrow> upc = UdpRecv"
  by (cases pc; simp) (cases upc; simp)

text \<open>
  Property C6. Nothing is left behind. In an infinite run of the host in which the two readers
  of a queue are scheduled again and again, the others in any way, there is after every moment
  a later one at which all that the kernel has asked the TUN reader to send so far is sent, and
  one at which all messages that the UDP reader has received so far are written.
\<close>

theorem host_progress:
  assumes k: "kernelOk os" "connTableOk I ct0" "length tunFds = length srcFds" and i: "i < length tunFds"
    and run: "hostReach os I cfg tunFds srcFds ct0 h0 (f 0)"
      "\<forall>k. hostStep os I cfg tunFds srcFds (collectSlots ct0) (f k) (f (Suc k))"
    and fair: "\<forall>k. \<exists>m\<ge>k. tunMoves os I tunFds i (f m) (f (Suc m))"
      "\<forall>k. \<exists>m\<ge>k. udpMoves os I tunFds srcFds i (f m) (f (Suc m))"
  shows "(\<exists>m\<ge>k. list_all2 (destined I ct0) (hSent (f m) i) (hAsked (f m) i)) \<and>
    (\<exists>m\<ge>k. hWrote (f m) i = written (hGiven (f m) i))"
proof -
  have ok: "hostOk os I (length tunFds) ct0 (f m)" for m using hostReach_ok [OF run_reach [OF run] k] .
  note keep = step_keeps_left [OF ok refl k(3) [symmetric] i run(2) [rule_format]]
  note near = moves_nearer [OF ok i]
  obtain m where m: "m \<ge> k" "fst (hTun (f m) ! i) = TunRead"
    using comes_back [of "\<lambda>m. tunMoves os I tunFds i (f m) (f (Suc m))" "\<lambda>m. tunLeft (fst (hTun (f m) ! i))" k]
      fair(1) near(1) keep(1) by (auto simp: left_zero)
  have "list_all2 (destined I ct0) (hSent (f m) i) (hAsked (f m) i)"
    using tunLine_order [OF hostOkD(2) [OF ok i]] m(2) by (metis take_all order_refl)
  moreover obtain m' where m': "m' \<ge> k" "fst (hUdp (f m') ! i) = UdpRecv"
    using comes_back [of "\<lambda>m. udpMoves os I tunFds srcFds i (f m) (f (Suc m))" "\<lambda>m. udpLeft (fst (hUdp (f m) ! i))" k]
      fair(2) near(2) keep(2) by (auto simp: left_zero)
  moreover have "hWrote (f m') i = written (hGiven (f m') i)"
    using udpLine_order [OF hostOkD(3) [OF ok i, of m']] m'(2) by auto
  ultimately show ?thesis using m(1) m'(1) by blast
qed

section \<open>Fair runs exist\<close>

text \<open>From every state of a host the two readers of a queue can be scheduled in turn, for ever.\<close>

lemma fair_run:
  assumes k: "kernelOk os" "connTableOk I ct0" "length tunFds = length srcFds" and i: "i < length tunFds"
    and s: "hostReach os I cfg tunFds srcFds ct0 h0 s"
  shows "\<exists>f. f 0 = s \<and> (\<forall>k. hostStep os I cfg tunFds srcFds (collectSlots ct0) (f k) (f (Suc k)) \<and>
    (even k \<longrightarrow> tunMoves os I tunFds i (f k) (f (Suc k))) \<and> (odd k \<longrightarrow> udpMoves os I tunFds srcFds i (f k) (f (Suc k))))"
proof -
  let ?R = "hostReach os I cfg tunFds srcFds ct0 h0" and ?S = "hostStep os I cfg tunFds srcFds (collectSlots ct0)"
  let ?Q = "\<lambda>k s s'. ?S s s' \<and> (even k \<longrightarrow> tunMoves os I tunFds i s s') \<and> (odd k \<longrightarrow> udpMoves os I tunFds srcFds i s s')"
  have "\<exists>s'. (?R s' \<and> (Suc m = 0 \<longrightarrow> s' = x)) \<and> ?Q m s s'" if s: "?R s" for m s x
  proof -
    have steps: "stepsOk os I cfg tunFds srcFds (collectSlots ct0) s" using host_safe_run [OF k s] by blast
    then obtain st where "tunMicro os I (tunFds ! i) (hTable s, hTun s ! i, hHist s) = Some st"
      using i by (auto simp: stepsOk_def)
    then obtain ct w h where t: "tunMicro os I (tunFds ! i) (hTable s, hTun s ! i, hHist s) = Some (ct, w, h)"
      by (cases st) auto
    obtain st where "udpMicro os I (srcFds ! i) (tunFds ! i) (of_nat i) (hTable s, hUdp s ! i, hHist s) = Some st"
      using i steps by (auto simp: stepsOk_def)
    then obtain ct2 w2 h2 where u: "udpMicro os I (srcFds ! i) (tunFds ! i) (of_nat i) (hTable s, hUdp s ! i, hHist s) =
        Some (ct2, w2, h2)" by (cases st) auto
    have j: "i < length srcFds" using i k(3) by simp
    note ts = hostStep.tun_step [OF i t, of cfg srcFds "collectSlots ct0"]
      and us = hostStep.udp_step [OF j u, of cfg "collectSlots ct0"]
    show ?thesis
    proof (cases "even m")
      case True
      show ?thesis
        by (intro exI [of _ "s\<lparr>hTable := ct, hTun := (hTun s)[i := w], hHist := h,
              hAsked := (hAsked s)(i := hAsked s i @ askedBy os I (tunFds ! i) (hTable s) (hTun s ! i) (hHist s)),
              hSent := (hSent s)(i := hSent s i @ sentTo (newCalls (hHist s) h))\<rparr>"])
          (use True ts t hostReach.host_step [OF s ts] in \<open>simp add: tunMoves_def del: tunMicro.simps\<close>)
    next
      case False
      show ?thesis
        by (intro exI [of _ "s\<lparr>hTable := ct2, hUdp := (hUdp s)[i := w2], hHist := h2,
              hGiven := (hGiven s)(i := hGiven s i @ givenTo os (srcFds ! i) (hUdp s ! i) (hHist s)),
              hWrote := (hWrote s)(i := hWrote s i @ tunWrites (newCalls (hHist s) h2))\<rparr>"])
          (use False us u hostReach.host_step [OF s us] in \<open>simp add: udpMoves_def del: udpMicro.simps\<close>)
    qed
  qed
  then have "\<exists>f. \<forall>k. (?R (f k) \<and> (k = 0 \<longrightarrow> f k = s)) \<and> ?Q k (f k) (f (Suc k))"
    using s by (intro dependent_nat_choice) auto
  then show ?thesis by blast
qed

theorem host_progress_witness:
  "\<exists>f. map snd (hAsked (f 0) 0) = exSegs \<and>
     (\<forall>k. hostStep exBusy exMap exCfg [7] [5] (collectSlots exCt) (f k) (f (Suc k))) \<and>
     (\<forall>k. \<exists>m\<ge>k. list_all2 (destined exMap exCt) (hSent (f m) 0) (hAsked (f m) 0)) \<and>
     (\<forall>k. \<exists>m\<ge>k. hWrote (f m) 0 = written (hGiven (f m) 0))"
proof -
  obtain s where s: "hostReach exBusy exMap exCfg [7] [5] exCt [] s" "map snd (hAsked s 0) = exSegs"
    using exHost by (auto simp: asksOf_def comp_def)
  have len: "length [7 :: int] = length [5 :: int]" "0 < length [7 :: int]" by simp_all
  obtain f where f: "f 0 = s" "\<forall>k. hostStep exBusy exMap exCfg [7] [5] (collectSlots exCt) (f k) (f (Suc k))"
      "\<forall>k. even k \<longrightarrow> tunMoves exBusy exMap [7] 0 (f k) (f (Suc k))"
      "\<forall>k. odd k \<longrightarrow> udpMoves exBusy exMap [7] [5] 0 (f k) (f (Suc k))"
    using fair_run [OF exBusy_ok connTableOk_exCt len s(1)] by blast
  have fair: "\<forall>k. \<exists>m\<ge>k. tunMoves exBusy exMap [7] 0 (f m) (f (Suc m))"
      "\<forall>k. \<exists>m\<ge>k. udpMoves exBusy exMap [7] [5] 0 (f m) (f (Suc m))"
    using f(3,4) by (meson even_Suc le_SucI order_refl)+
  have r: "hostReach exBusy exMap exCfg [7] [5] exCt [] (f 0)" using s(1) f(1) by simp
  show ?thesis
    using host_progress [OF exBusy_ok connTableOk_exCt len r f(2) fair] f(1,2) s(2)
    by (intro exI [of _ f]) blast
qed

end
