(* ===== verification/Network.thy ===== *)
theory Network
  imports HostRounds "HOL-Library.Multiset"
begin

text \<open>
  Any number of hosts that run the program, with the network between them. What arrives at a
  host is some of what was sent to it, in any order, and coalesced in any way; what its TUN
  queues get is then what the kernels of the others asked for, and nothing else.
\<close>

section \<open>The hosts of an overlay\<close>

text \<open>
  A host: its kernel, its configuration, descriptors and connection table, and what the others
  know of it, its overlay address and its own endpoints.
\<close>

record 'i node =
  ndOs :: os
  ndOps :: "'i int_ops"
  ndCfg :: "'i config"
  ndTun :: "int list"
  ndSrc :: "int list"
  ndTable :: "'i conn_table"
  ndVip :: u32
  ndAddrs :: "sockaddr set"

definition nodeOk :: "'i node \<Rightarrow> bool" where
  "nodeOk d \<longleftrightarrow> kernelOk (ndOs d) \<and> connTableOk (ndOps d) (ndTable d) \<and> length (ndTun d) = length (ndSrc d)"

definition nodeReach :: "'i node \<Rightarrow> 'i host \<Rightarrow> bool" where
  "nodeReach d s \<longleftrightarrow> (\<exists>h0. hostReach (ndOs d) (ndOps d) (ndCfg d) (ndTun d) (ndSrc d) (ndTable d) h0 s)"

text \<open>
  The table of \<open>d\<close> agrees with the addresses of \<open>e\<close>: the connection of \<open>e\<close>'s overlay address
  leads to \<open>e\<close>, and no other does.
\<close>

definition agrees :: "'i node \<Rightarrow> 'i node \<Rightarrow> bool" where
  "agrees d e \<longleftrightarrow> (\<forall>v c a. ctLookup (ndOps d) (ndTable d) v = Some c \<longrightarrow> a \<in> endpoints (ndTable d) c \<longrightarrow>
     (a \<in> ndAddrs e \<longleftrightarrow> v = ndVip e))"

definition mesh :: "'i node list \<Rightarrow> bool" where
  "mesh ds \<longleftrightarrow> (\<forall>d\<in>set ds. nodeOk d \<and> (\<forall>e\<in>set ds. agrees d e))"

section \<open>What is asked, sent, delivered and written\<close>

definition netAsked :: "'i node list \<Rightarrow> 'i host list \<Rightarrow> u32 \<Rightarrow> bytes multiset" where
  "netAsked ds ss v = (\<Sum>k<length ds. \<Sum>i<length (ndTun (ds ! k)).
     mset (map snd (filter (\<lambda>x. fst x = v) (hAsked (ss ! k) i))))"

definition netSent :: "'i node list \<Rightarrow> 'i host list \<Rightarrow> sockaddr set \<Rightarrow> bytes multiset" where
  "netSent ds ss E = (\<Sum>k<length ds. \<Sum>i<length (ndTun (ds ! k)).
     mset (map snd (filter (\<lambda>x. fst x \<in> E) (hSent (ss ! k) i))))"

text \<open>The messages received carry the datagrams \<open>D\<close>, and empty ones, the probes.\<close>

definition arrived :: "'i node \<Rightarrow> 'i host \<Rightarrow> bytes multiset \<Rightarrow> bool" where
  "arrived d s D \<longleftrightarrow> (\<exists>dss. (\<forall>j<length (ndSrc d). carries (hGiven s j) (dss j)) \<and>
     D = (\<Sum>j<length (ndSrc d). mset (dss j)))"

definition netWrote :: "'i node \<Rightarrow> 'i host \<Rightarrow> bytes multiset" where
  "netWrote d s = (\<Sum>j<length (ndSrc d). mset (hWrote s j))"

definition txRest :: "'i node \<Rightarrow> 'i host \<Rightarrow> bool" where
  "txRest d s \<longleftrightarrow> (\<forall>i<length (ndTun d). fst (hTun s ! i) = TunRead)"

definition rxRest :: "'i node \<Rightarrow> 'i host \<Rightarrow> bool" where
  "rxRest d s \<longleftrightarrow> (\<forall>j<length (ndSrc d). fst (hUdp s ! j) = UdpRecv)"

lemma image_mset_sum: "image_mset f (\<Sum>j<n. g j) = (\<Sum>j<n. image_mset f (g j))" for n :: nat
  by (induction n) simp_all

lemma sum_subset: "(\<And>j. j < n \<Longrightarrow> f j \<subseteq># g j) \<Longrightarrow> (\<Sum>j<n. f j) \<subseteq># (\<Sum>j<n. g j)" for n :: nat
proof (induction n)
  case (Suc n)
  then have "(\<Sum>j<n. f j) \<subseteq># (\<Sum>j<n. g j)" "f n \<subseteq># g n" by simp_all
  then show ?case by (simp add: subset_mset.add_mono)
qed simp

lemma nodeReach_ok: "nodeOk d \<Longrightarrow> nodeReach d s \<Longrightarrow> hostOk (ndOs d) (ndOps d) (length (ndTun d)) (ndTable d) s"
  unfolding nodeOk_def nodeReach_def using hostReach_ok by blast

section \<open>One sender\<close>

lemma destined_filter:
  assumes "agrees d e" and "list_all2 (destined (ndOps d) (ndTable d)) xs ys"
  shows "map snd (filter (\<lambda>x. fst x \<in> ndAddrs e) xs) = map snd (filter (\<lambda>y. fst y = ndVip e) ys)"
  using assms(2)
proof (induction rule: list_all2_induct)
  case (Cons x xs y ys)
  then have "snd x = snd y \<and> (fst x \<in> ndAddrs e \<longleftrightarrow> fst y = ndVip e)"
    using assms(1) by (auto simp: destined_def agrees_def)
  then show ?case using Cons by simp
qed simp

lemma sender:
  assumes "nodeOk d" and "nodeReach d s" and ag: "agrees d e" and i: "i < length (ndTun d)"
  shows "mset (map snd (filter (\<lambda>x. fst x \<in> ndAddrs e) (hSent s i))) \<subseteq>#
      mset (map snd (filter (\<lambda>x. fst x = ndVip e) (hAsked s i)))"
    and "fst (hTun s ! i) = TunRead \<Longrightarrow> mset (map snd (filter (\<lambda>x. fst x \<in> ndAddrs e) (hSent s i))) =
      mset (map snd (filter (\<lambda>x. fst x = ndVip e) (hAsked s i)))"
    and "\<forall>x\<in>set (hAsked s i). 20 \<le> length (snd x)"
proof -
  have line: "tunLine (ndOps d) (ndTable d) (hTun s ! i) (hAsked s i) (hSent s i)"
    using hostOkD(2) [OF nodeReach_ok [OF assms(1,2)] i] .
  then show "\<forall>x\<in>set (hAsked s i). 20 \<le> length (snd x)" by (simp add: tunLine_def)
  let ?n = "length (hSent s i)"
  have eq: "map snd (filter (\<lambda>x. fst x \<in> ndAddrs e) (hSent s i)) =
      map snd (filter (\<lambda>x. fst x = ndVip e) (take ?n (hAsked s i)))"
    using destined_filter [OF ag] tunLine_order [OF line] by blast
  have "mset (filter P (take n xs)) \<subseteq># mset (filter P xs)" for P n and xs :: "(u32 \<times> bytes) list"
    by (metis append_take_drop_id filter_append mset_append mset_subset_eq_add_left)
  then show "mset (map snd (filter (\<lambda>x. fst x \<in> ndAddrs e) (hSent s i))) \<subseteq>#
      mset (map snd (filter (\<lambda>x. fst x = ndVip e) (hAsked s i)))"
    unfolding eq mset_map by (rule image_mset_subseteq_mono)
  show "mset (map snd (filter (\<lambda>x. fst x \<in> ndAddrs e) (hSent s i))) =
      mset (map snd (filter (\<lambda>x. fst x = ndVip e) (hAsked s i)))" if "fst (hTun s ! i) = TunRead"
    unfolding eq using tunLine_order [OF line] that by simp
qed

lemma senders:
  assumes "mesh ds" and "\<forall>k<length ds. nodeReach (ds ! k) (ss ! k)" and "e \<in> set ds"
  shows "netSent ds ss (ndAddrs e) \<subseteq># netAsked ds ss (ndVip e)"
    and "\<forall>k<length ds. txRest (ds ! k) (ss ! k) \<Longrightarrow> netSent ds ss (ndAddrs e) = netAsked ds ss (ndVip e)"
    and "x \<in># netAsked ds ss v \<Longrightarrow> 20 \<le> length x"
proof -
  have one: "nodeOk (ds ! k)" "nodeReach (ds ! k) (ss ! k)" "agrees (ds ! k) e" if "k < length ds" for k
    using assms that by (auto simp: mesh_def)
  note send = sender [OF one]
  show "netSent ds ss (ndAddrs e) \<subseteq># netAsked ds ss (ndVip e)"
    unfolding netSent_def netAsked_def by (intro sum_subset send(1))
  show "netSent ds ss (ndAddrs e) = netAsked ds ss (ndVip e)" if "\<forall>k<length ds. txRest (ds ! k) (ss ! k)"
    unfolding netSent_def netAsked_def using that by (intro sum.cong [OF refl] send(2)) (auto simp: txRest_def)
  show "20 \<le> length x" if "x \<in># netAsked ds ss v"
    using that send(3) by (fastforce simp: netAsked_def set_mset_sum)
qed

section \<open>One receiver\<close>

lemma receiver:
  assumes "nodeOk d" and "nodeReach d s" and j: "j < length (ndSrc d)"
    and c: "carries (hGiven s j) ds" "\<forall>x\<in>set ds. 20 \<le> length x"
  shows "mset (hWrote s j) \<subseteq># image_mset ((@) zeros) (mset ds)"
    and "fst (hUdp s ! j) = UdpRecv \<Longrightarrow> mset (hWrote s j) = image_mset ((@) zeros) (mset ds)"
proof -
  have "j < length (ndTun d)" using assms(1) j by (simp add: nodeOk_def)
  then have line: "udpLine (hUdp s ! j) (hGiven s j) (hWrote s j)"
    using hostOkD(3) [OF nodeReach_ok [OF assms(1,2)]] by blast
  obtain past rest where l: "hGiven s j = past @ rest" "hWrote s j = written past"
      "fst (hUdp s ! j) = UdpRecv \<longrightarrow> rest = []"
    using udpLine_order [OF line] by blast
  have all: "image_mset ((@) zeros) (mset ds) = mset (written (past @ rest))"
    using carries_packets [OF c] by (simp add: written_def l(1))
  show "mset (hWrote s j) \<subseteq># image_mset ((@) zeros) (mset ds)" unfolding all l(2) by simp
  show "mset (hWrote s j) = image_mset ((@) zeros) (mset ds)" if "fst (hUdp s ! j) = UdpRecv"
    unfolding all l(2) using that l(3) by simp
qed

lemma receivers:
  assumes d: "nodeOk d" "nodeReach d s" and a: "arrived d s D" "\<forall>x\<in>#D. 20 \<le> length x"
  shows "netWrote d s \<subseteq># image_mset ((@) zeros) D"
    and "rxRest d s \<Longrightarrow> netWrote d s = image_mset ((@) zeros) D"
proof -
  obtain dss where dss: "\<forall>j<length (ndSrc d). carries (hGiven s j) (dss j)" "D = (\<Sum>j<length (ndSrc d). mset (dss j))"
    using a(1) by (auto simp: arrived_def)
  have long: "\<forall>x\<in>set (dss j). 20 \<le> length x" if "j < length (ndSrc d)" for j
    using a(2) that unfolding dss(2) by (auto simp: set_mset_sum)
  have carry: "carries (hGiven s j) (dss j)" if "j < length (ndSrc d)" for j using dss(1) that by blast
  note recv = receiver [OF d _ carry long]
  show "netWrote d s \<subseteq># image_mset ((@) zeros) D"
    unfolding netWrote_def dss(2) image_mset_sum by (intro sum_subset recv(1))
  show "netWrote d s = image_mset ((@) zeros) D" if "rxRest d s"
    unfolding netWrote_def dss(2) image_mset_sum using that by (intro sum.cong [OF refl] recv(2)) (auto simp: rxRest_def)
qed

section \<open>The overlay\<close>

text \<open>
  Property C1. A mesh of hosts. In every state that the hosts reach, their threads interleaved
  in any way, and whatever datagrams the network has lost or reordered, each host has written
  to its TUN queues only packets that the kernels of the hosts asked to be sent to its overlay
  address, none of them more often than asked for, behind zero virtio headers. If the network has
  delivered all that was sent, and no reader has something at hand, all of them are written.
\<close>

theorem mesh_relays:
  assumes "mesh ds" and "\<forall>k<length ds. nodeReach (ds ! k) (ss ! k)" and "k < length ds"
    and "arrived (ds ! k) (ss ! k) D" and "D \<subseteq># netSent ds ss (ndAddrs (ds ! k))"
  shows "netWrote (ds ! k) (ss ! k) \<subseteq># image_mset (\<lambda>p. replicate 10 0 @ p) (netAsked ds ss (ndVip (ds ! k))) \<and>
    (D = netSent ds ss (ndAddrs (ds ! k)) \<and> (\<forall>j<length ds. txRest (ds ! j) (ss ! j)) \<and> rxRest (ds ! k) (ss ! k) \<longrightarrow>
     netWrote (ds ! k) (ss ! k) = image_mset (\<lambda>p. replicate 10 0 @ p) (netAsked ds ss (ndVip (ds ! k))))"
proof -
  have zero: "(\<lambda>p. replicate 10 0 @ p) = (@) zeros" by (simp add: zeros_def VIRTIO_NET_HDR_LEN_def fun_eq_iff)
  have k: "ds ! k \<in> set ds" "nodeOk (ds ! k)" "nodeReach (ds ! k) (ss ! k)"
    using assms(1-3) by (auto simp: mesh_def)
  note tx = senders [OF assms(1,2) k(1)]
  have sub: "D \<subseteq># netAsked ds ss (ndVip (ds ! k))" using assms(5) tx(1) by (rule subset_mset.order_trans)
  have "20 \<le> length x" if "x \<in># D" for x
    using senders(3) [OF assms(1,2) k(1) mset_subset_eqD [OF sub that]] .
  then have long: "\<forall>x\<in>#D. 20 \<le> length x" by simp
  note rx = receivers [OF k(2,3) assms(4) long]
  have "netWrote (ds ! k) (ss ! k) \<subseteq># image_mset ((@) zeros) (netAsked ds ss (ndVip (ds ! k)))"
    using rx(1) image_mset_subseteq_mono [OF sub] by (rule subset_mset.order_trans)
  moreover have "netWrote (ds ! k) (ss ! k) = image_mset ((@) zeros) (netAsked ds ss (ndVip (ds ! k)))"
    if "D = netSent ds ss (ndAddrs (ds ! k))" "\<forall>j<length ds. txRest (ds ! j) (ss ! j)" "rxRest (ds ! k) (ss ! k)"
    using rx(2) [OF that(3)] tx(2) [OF that(2)] that(1) by metis
  ultimately show ?thesis unfolding zero by blast
qed

section \<open>A concrete run\<close>

text \<open>
  The sender has read a super-packet and sent its segments; the receiver has received them
  coalesced, behind a probe, and written them.
\<close>

definition exNode :: "os \<Rightarrow> u32 \<Rightarrow> sockaddr \<Rightarrow> (u64 \<Rightarrow> nat option) node" where
  "exNode os v a = \<lparr>ndOs = os, ndOps = exMap, ndCfg = exCfg, ndTun = [7], ndSrc = [5], ndTable = exCt,
     ndVip = v, ndAddrs = {a}\<rparr>"

definition exMesh :: "(u64 \<Rightarrow> nat option) node list" where
  "exMesh = [exNode exBusy 0x0A000001 (Sin 7 1), exNode exPeer 0x0A000002 (Sin 7 2)]"

lemma exPeer_ok: "kernelOk exPeer"
proof -
  have "length (concat exSegs) = 139" using exSegs_length by (simp add: length_concat)
  then have "udpReceives exPeer h fd exBack" for h fd
    by (simp add: udpReceives_def exPeer_def exBack_def rxOk_def SOCKADDR_STORAGE_LEN_def CBUF_LEN_def
        SOL_UDP_def UDP_GRO_def rdBlk_def BATCH_def)
  moreover have "tunReads exPeer h fd sc []" for h fd sc
    by (simp add: tunReads_def Let_def exPeer_def exOs_def)
  moreover have "decodeVirtioNetHdr [] = None"
    by (simp add: decodeVirtioNetHdr_def rdBlk_def VIRTIO_NET_HDR_LEN_def)
  ultimately show ?thesis unfolding kernelOk_def by (metis option.distinct(1))
qed

lemma exMesh_ok: "mesh exMesh"
proof -
  have look: "v = 0x0A000002 \<and> a = Sin 7 2" if "ctLookup exMap exCt v = Some c" "a \<in> endpoints exCt c" for v c a
  proof -
    have "v = 0x0A000002" "c = 0"
      using that(1) ucast_u64_eq [of v "0x0A000002"] by (auto simp: ctLookup_def exCt_def exMap_def split: if_splits)
    then show ?thesis using that(2) by (auto simp: endpoints_def exCt_def)
  qed
  then have "agrees (exNode os w a) (exNode os' 0x0A000001 (Sin 7 1))"
      "agrees (exNode os w a) (exNode os' 0x0A000002 (Sin 7 2))" for os os' w a
    by (fastforce simp: agrees_def exNode_def)+
  then show ?thesis
    by (simp add: mesh_def exMesh_def nodeOk_def) (simp add: exNode_def exBusy_ok exPeer_ok connTableOk_exCt)
qed

lemma exReceiver:
  "\<exists>p s. hostReach exPeer exMap exCfg [7] [5] exCt [] s \<and> atRest [0] p s \<and> length (prUdp p) = 1 \<and> length (prTun p) = 1 \<and>
     asksOf s = (\<lambda>_. [], (\<lambda>_. [])(0 := exBack))"
proof -
  obtain us where us: "makeUdpReaderScratch = Some us" "udpScratchOk us" using makeUdp_ok by blast
  let ?s = "hostInit exCt 1 us []" and ?p = "procInit exCt 1 us []"
  have slots: "collectSlots exCt = [0]" by (simp add: collectSlots_eq exCt_def)
  have s0: "hostReach exPeer exMap exCfg [7] [5] exCt [] ?s"
    using hostReach.host_start [OF us(1)] by (metis One_nat_def length_Cons list.size(3))
  have "sharedOk exPeer exMap 1 exCt"
    by (simp add: sharedOk_def exPeer_ok connTableOk_exCt) (simp add: exCt_def)
  from udpStep_keeps [OF this us(2), of 5 7 0 "[]"]
  obtain ct' us' h' where "udpStep exPeer exMap ([5] ! 0) ([7] ! 0) (of_nat 0) (prTable ?p, prUdp ?p ! 0, prHist ?p) = Some (ct', us', h')"
    by (auto simp: procInit_def)
  note move = udp_move [OF procInit_rest _ _ this, of exCfg]
  have given: "udpGiven exPeer 5 [] = exBack" by (simp add: udpGiven_def exPeer_def exBack_def)
  from move obtain s' where s': "(hostStep exPeer exMap exCfg [7] [5] (collectSlots exCt))\<^sup>*\<^sup>* ?s s'"
      "atRest [0] (?p\<lparr>prTable := ct', prUdp := (prUdp ?p)[0 := us'], prHist := h'\<rparr>) s'"
      "asksOf s' = (\<lambda>_. [], (\<lambda>_. [])(0 := exBack))"
    by (auto simp: procInit_def hostInit_def given slots)
  with hostReach_steps [OF s'(1) s0] show ?thesis by (fastforce simp: procInit_def)
qed

theorem mesh_relays_witness:
  "\<exists>s t. nodeReach (exMesh ! 0) s \<and> nodeReach (exMesh ! 1) t \<and> arrived (exMesh ! 1) t (mset exSegs) \<and>
     netWrote (exMesh ! 1) t = image_mset (\<lambda>p. replicate 10 0 @ p) (mset exSegs)"
proof -
  obtain p s where s: "hostReach exBusy exMap exCfg [7] [5] exCt [] s" "atRest [0] p s" "length (prTun p) = 1"
      "hAsked s = (\<lambda>_. [])(0 := map (\<lambda>d. (0x0A000002, d)) exSegs)"
    using exHost by (auto simp: asksOf_def)
  obtain q t where t: "hostReach exPeer exMap exCfg [7] [5] exCt [] t" "atRest [0] q t" "length (prUdp q) = 1" "length (prTun q) = 1"
      "hAsked t = (\<lambda>_. [])" "hGiven t = (\<lambda>_. [])(0 := exBack)"
    using exReceiver by (auto simp: asksOf_def)
  have reach: "\<forall>k<length exMesh. nodeReach (exMesh ! k) ([s, t] ! k)"
    using s(1) t(1) by (auto simp: exMesh_def exNode_def nodeReach_def less_Suc_eq)
  have one: "1 < length exMesh" by (simp add: exMesh_def)
  have arr: "arrived (exMesh ! 1) ([s, t] ! 1) (mset exSegs)"
    using exBack_carries t(6) by (auto simp: arrived_def exMesh_def exNode_def intro!: exI [of _ "\<lambda>_. exSegs"])
  have asked: "netAsked exMesh [s, t] (ndVip (exMesh ! 1)) = mset exSegs"
  proof -
    have "map snd (filter (\<lambda>x. fst x = v) (map (\<lambda>d. (v, d)) xs)) = xs" for v :: u32 and xs :: "bytes list"
      by (simp add: filter_map comp_def)
    then show ?thesis
      using s(4) t(5) by (simp add: netAsked_def exMesh_def exNode_def lessThan_Suc del: mset_map mset_filter)
  qed
  have "txRest (exMesh ! j) ([s, t] ! j)" if "j < length exMesh" for j
    using that s(2,3) t(2,4) by (auto simp: txRest_def exMesh_def exNode_def atRest_def less_Suc_eq)
  then have rest: "\<forall>j<length exMesh. txRest (exMesh ! j) ([s, t] ! j)" by blast
  have rx: "rxRest (exMesh ! 1) ([s, t] ! 1)" using t(2,3) by (simp add: rxRest_def exMesh_def exNode_def atRest_def)
  have sent: "netSent exMesh [s, t] (ndAddrs (exMesh ! 1)) = mset exSegs"
    using senders(2) [OF exMesh_ok reach _ rest, of "exMesh ! 1"] asked by (simp add: exMesh_def)
  from mesh_relays [OF exMesh_ok reach one arr] have "netWrote (exMesh ! 1) ([s, t] ! 1) =
      image_mset (\<lambda>p. replicate 10 0 @ p) (mset exSegs)"
    using sent rest rx asked by simp
  moreover have "nodeReach (exMesh ! 0) s" "nodeReach (exMesh ! 1) t"
    using reach [rule_format, of 0] reach [rule_format, of 1] by (simp_all add: exMesh_def)
  ultimately show ?thesis using arr by auto
qed

section \<open>Hosts with the same peers\<close>

text \<open>Host number \<open>k\<close> of the peers: it has built its connection table from them, with itself as own peer.\<close>

definition overlayHost :: "'i int_ops \<Rightarrow> peer list \<Rightarrow> nat \<Rightarrow> 'i node \<Rightarrow> bool" where
  "overlayHost I rows k d \<longleftrightarrow> k < length rows \<and> ndOps d = I \<and> kernelOk (ndOs d) \<and> length (ndTun d) = length (ndSrc d) \<and>
     ndVip d = peerVip (rows ! k) \<and> ndAddrs d = set (peerDsts (rows ! k)) \<and>
     (\<exists>L t rb sb tm os h h'. tabPeers t = rows \<and> tableOk I t \<and>
        createConnTable L I t k rb sb tm os h = Some (Inr (ndTable d), h'))"

text \<open>No two peers share the overlay address or an endpoint.\<close>

definition rowsDistinct :: "peer list \<Rightarrow> bool" where
  "rowsDistinct rows \<longleftrightarrow> (\<forall>i<length rows. \<forall>j<length rows. i \<noteq> j \<longrightarrow>
     peerVip (rows ! i) \<noteq> peerVip (rows ! j) \<and> set (peerDsts (rows ! i)) \<inter> set (peerDsts (rows ! j)) = {})"

lemma slotsOf_dsts: "slotDstAddr ` set (slotsOf me fds p startMs) \<subseteq> set (peerDsts p)"
  by (auto simp: slotsOf_def slotOf_def dstCount_def)

text \<open>What \<open>lookup\<close> finds in a new table leads to a peer with that address.\<close>

lemma built_lookup:
  assumes "mapOk I" and "tableOk I t" and self: "self < peersSize t"
    and ct: "createConnTable L I t self rb sb tm os h = Some (Inr ct, h')"
    and v: "ctLookup I ct v = Some c"
  shows "connTableOk I ct \<and> (\<exists>k<peersSize t. peerVip (tabPeers t ! k) = v \<and>
    endpoints ct c \<subseteq> set (peerDsts (tabPeers t ! k)))"
proof -
  have me: "peersAt t self = Some (tabPeers t ! self)" using self by (simp add: peersAt_def peersSize_def)
  obtain fds startMs where b: "connTableOk I ct"
      "list_all2 (connFor (ctSlots ct) (tabPeers t ! self) fds tm startMs) (otherPeers t self) (ctConns ct)"
    using createConnTable_facts [OF assms(1,2) me] ct by blast
  have c: "c < length (ctConns ct)" "connVip (ctConns ct ! c) = v"
    using b(1) v lastIndex_Some [of "\<lambda>c. connVip c = v" "ctConns ct" c]
    by (simp_all add: connTableOk_def vipsOk_def)
  let ?p = "otherPeers t self ! c"
  have len: "c < length (otherPeers t self)" using c(1) list_all2_lengthD [OF b(2)] by simp
  have "connFor (ctSlots ct) (tabPeers t ! self) fds tm startMs ?p (ctConns ct ! c)"
    using list_all2_nthD2 [OF b(2) c(1)] .
  then have fr: "connVip (ctConns ct ! c) = peerVip ?p"
      "map ((!) (ctSlots ct)) (connSlots (ctConns ct ! c)) = slotsOf (tabPeers t ! self) fds ?p startMs"
    by (simp_all add: connFor_def)
  have "endpoints ct c = slotDstAddr ` set (map ((!) (ctSlots ct)) (connSlots (ctConns ct ! c)))"
    by (simp add: endpoints_def image_image)
  then have "endpoints ct c \<subseteq> set (peerDsts ?p)" unfolding fr(2) using slotsOf_dsts by metis
  moreover have "?p \<in> set (otherPeers t self)" using len by simp
  then obtain k where "k < peersSize t" "?p = tabPeers t ! k" by (auto simp: otherPeers_def)
  ultimately show ?thesis using b(1) c(2) fr(1) by metis
qed

text \<open>
  Hosts that run with the same peers form a mesh: if no two of them share the overlay address
  or an endpoint, then every host sends what is for the address of another to endpoints of
  that host, and to no others.
\<close>

lemma overlay_mesh:
  assumes I: "mapOk I" and rows: "rowsDistinct rows" and hosts: "\<forall>d\<in>set ds. \<exists>k. overlayHost I rows k d"
  shows "mesh ds"
proof -
  have own: "connTableOk I (ndTable d) \<and> (\<forall>v c. ctLookup I (ndTable d) v = Some c \<longrightarrow>
      (\<exists>q<length rows. peerVip (rows ! q) = v \<and> endpoints (ndTable d) c \<subseteq> set (peerDsts (rows ! q))))"
    if d: "overlayHost I rows k d" for d k
  proof -
    obtain L t rb sb tm os h h' where t: "tabPeers t = rows" "tableOk I t" "k < peersSize t"
        "createConnTable L I t k rb sb tm os h = Some (Inr (ndTable d), h')"
      using d by (auto simp: overlayHost_def peersSize_def)
    have "peersAt t k = Some (tabPeers t ! k)" using t(3) by (simp add: peersAt_def peersSize_def)
    then have "connTableOk I (ndTable d)" using createConnTable_facts [OF I t(2)] t(4) by blast
    then show ?thesis using built_lookup [OF I t(2-4)] t(1) by (auto simp: peersSize_def)
  qed
  have "agrees d e" if d: "overlayHost I rows k d" and e: "overlayHost I rows j e" for d e k j
    unfolding agrees_def
  proof (intro allI impI)
    fix v c a assume v: "ctLookup (ndOps d) (ndTable d) v = Some c" and a: "a \<in> endpoints (ndTable d) c"
    have "ctLookup I (ndTable d) v = Some c" using v d by (simp add: overlayHost_def)
    from own [OF d] this obtain q where q: "q < length rows" "peerVip (rows ! q) = v" "a \<in> set (peerDsts (rows ! q))"
      using a by blast
    have "q = j \<longleftrightarrow> a \<in> ndAddrs e" "q = j \<longleftrightarrow> v = ndVip e"
      using rows e q by (auto simp: rowsDistinct_def overlayHost_def)
    then show "a \<in> ndAddrs e \<longleftrightarrow> v = ndVip e" by blast
  qed
  moreover have "nodeOk d" if "overlayHost I rows k d" for d k
    using own [OF that] that by (simp add: nodeOk_def overlayHost_def)
  ultimately show ?thesis using hosts unfolding mesh_def by metis
qed

end
