(* ===== verification/Overlay.thy ===== *)
theory Overlay
  imports Program Network
begin

text \<open>
  The program on several hosts. \<open>started_threads\<close>: what a start leaves, its table and its
  threads. \<open>hostOf\<close>: the host that a run of \<^verbatim>\<open>main\<close> becomes. The property \<open>program_mesh\<close>: from
  the configuration files of all hosts, over their command lines, tables and threads, to a mesh.
\<close>

section \<open>What a start leaves\<close>

lemma kernelOk_idle:
  assumes "\<And>h fd n. osRes os h (ReadFd fd n) = 0" and "\<And>h fd. osRes os h (RecvMMsg fd BATCH) = 0"
    and "\<And>h. osRead os h = []" and "\<And>h. osRecv os h = []"
  shows "kernelOk os"
proof -
  have "tunReads os h fd sc []" for h fd sc using assms(1,3) by (simp add: tunReads_def Let_def)
  moreover have "decodeVirtioNetHdr [] = None"
    by (simp add: decodeVirtioNetHdr_def rdBlk_def VIRTIO_NET_HDR_LEN_def)
  moreover have "udpReceives os h fd []" for h fd using assms(2,4) by (simp add: udpReceives_def)
  ultimately show ?thesis unfolding kernelOk_def by (metis option.distinct(1))
qed

lemma started_threads:
  assumes "started L I os cfg me h es"
  shows "\<exists>conns tunFds. connTableOk I conns \<and> builtFor L I cfg os h conns \<and>
    length tunFds = length (ctSrcFds conns) \<and> length tunFds = dstCount me \<and>
    filter (\<lambda>e. \<not> notSpawn e) es = map Spawn (allThreads cfg tunFds (ctSrcFds conns))"
proof -
  obtain conns names tunFds s idx pid ids where c: "connTableOk I conns" "ctSrcCount conns = dstCount me"
      "length tunFds = dstCount me" "builtFor L I cfg os h conns"
      and es: "es = startCalls cfg me (ctSrcFds conns) names tunFds s idx pid ids (startLine cfg conns)"
    using assms unfolding started_def by blast
  have no: "filter (\<lambda>e. \<not> notSpawn e) xs = []" if "list_all notSpawn xs" for xs
    using that by (auto simp: filter_empty_conv list_all_iff)
  have clock: "notSpawn Clock" "notSpawn (LogLine l)" for l by (simp_all add: notSpawn_def)
  have "list_all notSpawn (privCalls (cfgUser cfg) ids @ [LogLine l])" for l
    by (simp add: privCalls_def notSpawn_def split: option.split)
  note quiet = no [OF before_privileges] no [OF this]
  have "filter (\<lambda>e. \<not> notSpawn e) (map Spawn ts @ map Join ts) = map Spawn ts" for ts
    by (simp add: filter_map comp_def notSpawn_def)
  then have "filter (\<lambda>e. \<not> notSpawn e) es = map Spawn (allThreads cfg tunFds (ctSrcFds conns))"
    using quiet clock unfolding es startCalls_def by simp
  moreover have "length tunFds = length (ctSrcFds conns)" using c(2,3) by (simp add: ctSrcCount_def)
  ultimately show ?thesis using c(1,3,4) by blast
qed

section \<open>From the configuration files to a mesh\<close>

text \<open>
  The host that a run of \<^verbatim>\<open>main\<close> with the calls \<open>es\<close> becomes: it has loaded its configuration
  from the file given, built the connection table from it and started the threads on it; the
  overlay address and the endpoints are those of the configuration.
\<close>

definition hostOf ::
  "lib \<Rightarrow> 'm sec_ops \<Rightarrow> 'c cfg_ops \<Rightarrow> 'i int_ops \<Rightarrow> (string \<Rightarrow> error + string) \<Rightarrow> string list \<Rightarrow> os \<Rightarrow>
    ev list \<Rightarrow> ev list \<Rightarrow> 'i node \<Rightarrow> bool"
where
  "hostOf L M C I readFile argv os h es d \<longleftrightarrow>
     ndOs d = os \<and> ndOps d = I \<and> builtFor L I (ndCfg d) os (h @ [IgnoreSigPipe]) (ndTable d) \<and> ndSrc d = ctSrcFds (ndTable d) \<and>
     filter (\<lambda>e. \<not> notSpawn e) es = map Spawn (allThreads (ndCfg d) (ndTun d) (ndSrc d)) \<and>
     (\<exists>path. accepted argv path \<and> loadConfig L M C I readFile path = Some (Inr (ndCfg d))) \<and>
     ndVip d = tunVip (ndCfg d) \<and>
     (\<exists>t i p. cfgPeers (ndCfg d) = Some t \<and> cfgSelf (ndCfg d) = Some i \<and> peersAt t i = Some p \<and>
        ndAddrs d = set (peerDsts p))"

text \<open>Every file that the command line gives has the peers \<open>rows\<close>.\<close>

definition filesList :: "lib \<Rightarrow> (string \<Rightarrow> error + string) \<Rightarrow> string list \<Rightarrow> peer list \<Rightarrow> bool" where
  "filesList L readFile argv rows \<longleftrightarrow> (\<forall>path src. accepted argv path \<longrightarrow> readFile path = Inr src \<longrightarrow>
     filePeers L src = Inr rows)"

lemma loaded_peers:
  assumes laws: "splitOk L" "stripOk L" "affixOk L" "mapOk M" "mapOk C" "mapOk I"
    and run: "loadConfig L M C I readFile path = Some (Inr cfg)"
    and rows: "filesList L readFile argv rows" "accepted argv path"
    and t: "cfgPeers cfg = Some t"
  shows "tabPeers t = rows"
proof -
  obtain src where rd: "readFile path = Inr src"
    using run by (auto simp: loadConfig_def split: sum.splits)
  obtain ps c where c: "(fileConfig L src :: error + (peer list \<times> 'c config)) = Inr (ps, c)"
    using loadConfig_reads [OF laws, where readFile = readFile and path = path, OF rd] run by (auto split: sum.splits)
  then have "tabPeers t = ps"
    using loadConfig_reads [OF laws, where readFile = readFile and path = path, OF rd] run t by auto
  moreover have "filePeers L src = Inr ps"
    using c by (auto simp: fileConfig_def ebind_Inr_iff split: option.splits if_splits prod.splits)
  ultimately show ?thesis using rows rd by (auto simp: filesList_def)
qed

lemma main_host:
  assumes laws: "splitOk L" "stripOk L" "affixOk L" "mapOk M" "mapOk C" "mapOk I"
    and run: "gofraMain stdText L M C I readFile argv os h = Some (0, h @ es)" and os: "kernelOk os"
    and rows: "filesList L readFile argv rows"
  shows "\<exists>d k. hostOf L M C I readFile argv os h es d \<and> overlayHost I rows k d"
proof -
  obtain path where acc: "accepted argv path"
    using gofraMain_usage [of argv stdText L M C I readFile os h] run by auto
  obtain loaded where ld: "loadConfig L M C I readFile path = Some loaded" "mainRun stdText L I os h loaded 0 es"
    using gofraMain_run [OF laws acc, of readFile stdText os h] run by auto
  then obtain cfg me es' where cfg: "loaded = Inr cfg" "es = IgnoreSigPipe # es'" "started L I os cfg me (h @ [IgnoreSigPipe]) es'"
    by (auto simp: mainRun_def split: sum.splits)
  obtain conns tunFds where st: "connTableOk I conns" "builtFor L I cfg os (h @ [IgnoreSigPipe]) conns" "length tunFds = length (ctSrcFds conns)"
      "filter (\<lambda>e. \<not> notSpawn e) es' = map Spawn (allThreads cfg tunFds (ctSrcFds conns))"
    using started_threads [OF cfg(3)] by (elim exE conjE) (rule that)
  have load: "loadConfig L M C I readFile path = Some (Inr cfg)" using ld(1) cfg(1) by simp
  obtain t i p where t: "cfgPeers cfg = Some t" "tableOk I t" "cfgSelf cfg = Some i" "peersAt t i = Some p"
      "peerVip p = tunVip cfg"
    using loadConfig_usable [OF laws load] by (elim exE conjE) (rule that)
  have tp: "tabPeers t = rows" using loaded_peers [OF laws load rows acc t(1)] .
  have i: "i < length rows" "p = rows ! i"
    using t(4) tp by (auto simp: peersAt_def deref_def split: if_splits)
  let ?d = "\<lparr>ndOs = os, ndOps = I, ndCfg = cfg, ndTun = tunFds, ndSrc = ctSrcFds conns, ndTable = conns,
    ndVip = tunVip cfg, ndAddrs = set (peerDsts p)\<rparr>"
  have "filter (\<lambda>e. \<not> notSpawn e) es = filter (\<lambda>e. \<not> notSpawn e) es'"
    by (simp add: cfg(2) notSpawn_def)
  then have "hostOf L M C I readFile argv os h es ?d"
    using st(2,4) acc load t(1,3,4) by (auto simp: hostOf_def)
  moreover obtain h2 where "createConnTable L I t i (udpRecvBuf cfg) (udpSendBuf cfg)
      (probeTimeoutMs cfg) os (h @ [IgnoreSigPipe]) = Some (Inr conns, h2)"
    using st(2) t(1,3) by (auto simp: builtFor_def)
  then have "overlayHost I rows i ?d"
    using os st(3) t(2,5) i tp unfolding overlayHost_def
    by (intro conjI exI [of _ L] exI [of _ t] exI [of _ "udpRecvBuf cfg"] exI [of _ "udpSendBuf cfg"]
        exI [of _ "probeTimeoutMs cfg"] exI [of _ os] exI [of _ "h @ [IgnoreSigPipe]"] exI [of _ h2]) simp_all
  ultimately show ?thesis by blast
qed

text \<open>
  Property C3. The programs of an overlay. \<open>N\<close> hosts run \<^verbatim>\<open>main\<close>, each with its own command
  line, files and kernel, and the peers in all of their configuration files are the same, no
  two of them with a common overlay address or endpoint. When every host has started, they form
  a mesh: each has started its threads on a connection table that is well formed, and what it
  sends for the overlay address of another host goes to endpoints of that host, and only that
  does. This is what the passage of packets between hosts rests on.
\<close>

theorem program_mesh:
  assumes laws: "splitOk L" "stripOk L" "affixOk L" "mapOk M" "mapOk C" "mapOk I"
    and rows: "rowsDistinct rows"
    and hosts: "\<forall>k<N. kernelOk (os k) \<and> filesList L (files k) (argv k) rows \<and>
      gofraMain stdText L M C I (files k) (argv k) (os k) (h k) = Some (0, h k @ es k)"
  shows "\<exists>ds. length ds = N \<and> mesh ds \<and>
    (\<forall>k<N. hostOf L M C I (files k) (argv k) (os k) (h k) (es k) (ds ! k))"
proof -
  have "\<forall>k<N. \<exists>d. hostOf L M C I (files k) (argv k) (os k) (h k) (es k) d \<and> (\<exists>j. overlayHost I rows j d)"
    using hosts main_host [OF laws] by metis
  then obtain f where f: "\<forall>k<N. hostOf L M C I (files k) (argv k) (os k) (h k) (es k) (f k) \<and>
      (\<exists>j. overlayHost I rows j (f k))"
    by metis
  then have "mesh (map f [0..<N])"
    by (intro overlay_mesh [OF laws(6) rows]) auto
  then show ?thesis using f by (intro exI [of _ "map f [0..<N]"]) auto
qed

section \<open>Two hosts\<close>

text \<open>The configuration file and the kernel of host 10.9.0.\<open>c\<close>, with the endpoint 10.0.0.\<open>c\<close>.\<close>

definition exFile :: "char \<Rightarrow> string" where
  "exFile c = ''[me]'' @ [CHR 0x0A] @ ''vip = 10.9.0.'' @ [c] @ ''/24'' @ [CHR 0x0A] @ ''[peers]'' @ [CHR 0x0A]
     @ ''10.9.0.1 = 10.0.0.1:7'' @ [CHR 0x0A] @ ''10.9.0.2 = 10.0.0.2:7''"

definition exRows :: "peer list" where
  "exRows = [\<lparr>peerVip = 0x0A090001, peerDsts = [Sin 7 (exAddr 10 0 0 1)]\<rparr>,
             \<lparr>peerVip = 0x0A090002, peerDsts = [Sin 7 (exAddr 10 0 0 2)]\<rparr>]"

definition exHostOs :: "u8 \<Rightarrow> os" where
  "exHostOs b = exOs\<lparr>osIfAddrs := (\<lambda>_. [(''eth0'', Some (Sin 0 (exAddr 10 0 0 b)))])\<rparr>"

lemma exFile_items:
  assumes "c = CHR ''1'' \<or> c = CHR ''2''"
  shows "fileItems exLib (exFile c) = [Head ''me'', Pair ''vip'' (''10.9.0.'' @ [c] @ ''/24''), Head ''peers'',
     Pair ''10.9.0.1'' ''10.0.0.1:7'', Pair ''10.9.0.2'' ''10.0.0.2:7'']"
  using assms by (elim disjE) (simp_all add: fileItems_def exFile_def classify_def exLib_def exSplit_def isSpace_def)

lemma exFile_setting:
  assumes "c = CHR ''1'' \<or> c = CHR ''2''"
  shows "setting exLib (exFile c) n k =
     (if n = ''me'' \<and> k = ''vip'' then Some (''10.9.0.'' @ [c] @ ''/24'')
      else if n = ''peers'' \<and> k = ''10.9.0.1'' then Some ''10.0.0.1:7''
      else if n = ''peers'' \<and> k = ''10.9.0.2'' then Some ''10.0.0.2:7'' else None)"
  using assms by (simp add: setting_def exFile_items entriesOf_def lastValue_def)

lemma exFile_peers:
  assumes c: "c = CHR ''1'' \<or> c = CHR ''2''"
  shows "filePeers exLib (exFile c) = Inr exRows"
proof -
  have keys: "peerKeys exLib (exFile c) = [''10.9.0.1'', ''10.9.0.2'']"
    by (simp add: peerKeys_def exFile_items [OF c] entriesOf_def firstKeys_def)
  have "ntohl (leWord [10, 9, 0, 1]) = 0x0A090001" "ntohl (leWord [10, 9, 0, 2]) = 0x0A090002"
    by (simp_all add: word_unat_eq_iff unat_ntohl del: leWord.simps)
  then have "rowOf exLib f ''10.9.0.1'' = Inr (exRows ! 0)" "rowOf exLib f ''10.9.0.2'' = Inr (exRows ! 1)"
    if "f ''10.9.0.1'' = Some ''10.0.0.1:7''" "f ''10.9.0.2'' = Some ''10.0.0.2:7''" for f
    using that by (simp_all add: rowOf_def parseCIDR_def parseIPv4_eq exLib_def
        exSplit_def exInet_def isDigit_def cstr_def Let_def items_def isSpace_def parseSockAddr_def
        splitHostPort_def toCStr_def INET6_ADDRSTRLEN_def exAddr_def exRows_def del: leWord.simps)
  then show ?thesis by (simp add: filePeers_def keys exFile_setting [OF c]) (simp add: exRows_def)
qed

definition exHostCfg :: "nat \<Rightarrow> (u64 \<Rightarrow> nat option) peer_table option \<Rightarrow> (u64 \<Rightarrow> nat option) config" where
  "exHostCfg i t = \<lparr>tunVip = peerVip (exRows ! i), tunPrefixLen = 24, tunMtu = 1400, tunDev = ''gofra0'' @ [CHR 0x00],
     cfgPeers = t, cfgSelf = Some i, udpRecvBuf = 16777216, udpSendBuf = 16777216,
     probeIntervalMs = 200, probeTimeoutMs = 1000, statsIntervalSec = 10, cfgUser = None\<rparr>"

definition exDigit :: "nat \<Rightarrow> char" where
  "exDigit i = (if i = 0 then CHR ''1'' else CHR ''2'')"

lemma exDigit: "exDigit i = CHR ''1'' \<or> exDigit i = CHR ''2''"
  by (simp add: exDigit_def)

lemma exFile_config:
  assumes "i < 2"
  shows "fileConfig exLib (exFile (exDigit i)) = Inr (exRows, exHostCfg i None)"
proof -
  have i: "i = 0 \<or> i = 1" using assms by auto
  have ok: "firstFault (fileItems exLib (exFile (exDigit i))) = None" "hasSection exLib (exFile (exDigit i)) ''me''"
    using exDigit [of i] by (simp_all add: exFile_items hasSection_def)
  have "ntohl (leWord [10, 9, 0, 1]) = 0x0A090001" "ntohl (leWord [10, 9, 0, 2]) = 0x0A090002"
    by (simp_all add: word_unat_eq_iff unat_ntohl del: leWord.simps)
  then have vip: "parseCIDR exLib (''10.9.0.'' @ [exDigit i] @ ''/24'') = Inr (peerVip (exRows ! i), 24)"
    using i by (elim disjE) (simp_all add: parseCIDR_def parseIPv4_eq exLib_def exSplit_def exInet_def cstr_def
        isDigit_def Let_def exDigit_def exRows_def del: leWord.simps)
  have "lastIndex (\<lambda>p. peerVip p = peerVip (exRows ! i)) exRows = Some i" "peerVip (exRows ! i) \<noteq> 0"
    using i by (auto simp: exRows_def lastIndex_def)
  then show ?thesis
    using ok vip by (simp add: fileConfig_def exFile_setting [OF exDigit] exFile_peers [OF exDigit] numOr_def exHostCfg_def)
qed

lemma exFile_loaded:
  assumes "i < 2"
  shows "\<exists>t. loadConfig exLib exMap exMap (exMap :: (u64 \<Rightarrow> nat option) int_ops) (\<lambda>_. Inr (exFile (exDigit i))) ''x'' =
     Some (Inr (exHostCfg i (Some t))) \<and> tabPeers t = exRows"
  using loadConfig_reads [of exLib "exMap :: (string \<Rightarrow> string option) sec_ops"
      "exMap :: (string \<Rightarrow> nat option) cfg_ops" "exMap :: (u64 \<Rightarrow> nat option) int_ops"
      "\<lambda>_. Inr (exFile (exDigit i))" "''x''" "exFile (exDigit i)"]
  by (auto simp: exFile_config [OF assms] exHostCfg_def)

definition exGofra :: "nat \<Rightarrow> (int \<times> ev list) option" where
  "exGofra i = gofraMain (\<lambda>_. ''err'') exLib exMap exMap (exMap :: (u64 \<Rightarrow> nat option) int_ops)
     (\<lambda>_. Inr (exFile (exDigit i))) [''gofra'', ''--config'', ''x''] (exHostOs (of_nat i + 1)) []"

lemma exGofra_run:
  assumes "i < 2"
  shows "\<exists>es. exGofra i = Some (0, es)"
proof -
  have i: "i = 0 \<or> i = 1" using assms by auto
  let ?os = "exHostOs (of_nat i + 1)"
  obtain t where cfg: "loadConfig exLib exMap exMap (exMap :: (u64 \<Rightarrow> nat option) int_ops)
      (\<lambda>_. Inr (exFile (exDigit i))) ''x'' = Some (Inr (exHostCfg i (Some t)))" "tabPeers t = exRows"
    using exFile_loaded [OF assms] by blast
  have table: "\<exists>ct es. createConnTable exLib exMap t i 16777216 16777216 1000 ?os h = Some (Inr ct, es) \<and>
      ctSrcFds ct = [5]" for h
    using i cfg(2)
    by (elim disjE) (simp_all add: createConnTable_def io_simps peersAt_def peersSize_def dst_def dstCount_def
        openUdpSocket_def ifaceFor_def setBufForce_def findIface_find exHostOs_def exOs_def
        exLib_def owns_def AF_INET_def exMap_def exRows_def pushSlot_def Let_def upt_rec)
  have tun: "openTun (''gofra0'' @ [CHR 0x00]) ?os h = Some (Inr 7, h @ openTunCalls 7 (''gofra0'' @ [CHR 0x00]))" for h
    by (simp add: openTun_def io_simps copyIfName_def TUN_IFNAMSIZ_def openTunCalls_def cstr_def
        exHostOs_def exOs_def)
  have conf: "\<exists>nl es. configureTun (''gofra0'' @ [CHR 0x00]) 1400 v 24 ?os h = Some (Inr nl, es)" for h v
    by (simp add: configureTun_def ifIndexFor_def netlinkOpen_def copyIfName_def TUN_IFNAMSIZ_def
        cstr_def setMtu_def addAddr_def linkUp_def nextSeq_def netlinkRun_def io_simps exHostOs_def exOs_def)
  obtain ct h1 where 1: "createConnTable exLib exMap t i 16777216 16777216 1000 ?os [IgnoreSigPipe] = Some (Inr ct, h1)"
      "ctSrcFds ct = [5]" using table by blast
  obtain nl h2 where 2: "configureTun (''gofra0'' @ [CHR 0x00]) 1400 (peerVip (exRows ! i)) 24 ?os
      (h1 @ openTunCalls 7 (''gofra0'' @ [CHR 0x00])) = Some (Inr nl, h2)" using conf by blast
  obtain us where "makeUdpReaderScratch = Some us" using makeUdp_Some by blast
  then have us: "lift (map_option Inr makeUdpReaderScratch) = ret us" by (rule lift_Some)
  show ?thesis
    using 1 2 tun
    by (simp add: exGofra_def gofraMain_def run_def cfg(1) runConfig_def andThen_run call_run lift_run exHostCfg_def
        ctSrcCount_def ask_run callZero_run ret_run Let_def spawnQueue_def us ctSrcFd_def)
qed

lemma exHostOs_ok: "kernelOk (exHostOs b)"
  by (rule kernelOk_idle) (simp_all add: exHostOs_def exOs_def)

lemma exRows_distinct: "rowsDistinct exRows"
proof -
  have "exAddr 10 0 0 1 \<noteq> exAddr 10 0 0 2" by (simp add: exAddr_def)
  then show ?thesis by (auto simp: rowsDistinct_def exRows_def less_Suc_eq)
qed

theorem program_mesh_witness:
  "\<exists>(ds :: (u64 \<Rightarrow> nat option) node list) es0 es1. exGofra 0 = Some (0, es0) \<and> exGofra 1 = Some (0, es1) \<and> length ds = 2 \<and> mesh ds \<and>
     ndVip (ds ! 0) = 0x0A090001 \<and> ndVip (ds ! 1) = 0x0A090002"
proof -
  obtain es where es: "exGofra k = Some (0, es k)" if "k < 2" for k
    using exGofra_run by metis
  have files: "filesList exLib (\<lambda>_. Inr (exFile (exDigit k))) argv exRows" for k argv
    by (simp add: filesList_def exFile_peers [OF exDigit])
  obtain ds where ds: "length ds = 2" "mesh ds" and host: "\<And>k. k < 2 \<Longrightarrow>
      hostOf exLib exMap exMap exMap (\<lambda>_. Inr (exFile (exDigit k))) [''gofra'', ''--config'', ''x'']
        (exHostOs (of_nat k + 1)) [] (es k) (ds ! k)"
    using program_mesh [OF splitOk_exLib stripOk_exLib affixOk_exLib mapOk_exMap mapOk_exMap mapOk_exMap
        exRows_distinct, where N = 2 and stdText = "\<lambda>_. ''err''" and files = "\<lambda>k _. Inr (exFile (exDigit k))"
        and argv = "\<lambda>_. [''gofra'', ''--config'', ''x'']" and os = "\<lambda>k. exHostOs (of_nat k + 1)"
        and h = "\<lambda>_. []" and es = es]
      exHostOs_ok files es unfolding exGofra_def by auto
  have vip: "ndVip (ds ! k) = peerVip (exRows ! k)" if "k < 2" for k
    using host [OF that] exFile_loaded [OF that] by (auto simp: hostOf_def accepted_eq exHostCfg_def)
  show ?thesis using ds es [of 0] es [of 1] vip [of 0] vip [of 1]
    by (intro exI [of _ ds]) (simp add: exRows_def)
qed

end
