(* ===== verification/Spec2Isabelle.thy ===== *)
theory Spec2Isabelle
  imports Program Process Tunnel Threads IniPrint AddrPrint Types Progress Network Overlay
begin

text \<open>
  gofra, a multipath UDP encapsulator: IPv4 packets of a TUN device are sent to the peers of an
  overlay in UDP datagrams, over every pair of an own and a peer endpoint in turn, and what
  arrives is written back to the TUN device. This development models the C++ program under
  \<^verbatim>\<open>src/\<close> by executable definitions and proves what makes it correct.

  The program and its parts. \<^verbatim>\<open>main.cpp\<close> loads the configuration (\<^verbatim>\<open>config.cpp\<close>, on the text
  parsed by \<^verbatim>\<open>ini.cpp\<close>, with addresses from \<^verbatim>\<open>addr.cpp\<close> and the peers in \<^verbatim>\<open>peer.cpp\<close>), builds
  the connection table (\<^verbatim>\<open>conn.cpp\<close>, which opens the sockets of \<^verbatim>\<open>socks.cpp\<close>), opens and
  configures the device (\<^verbatim>\<open>tun.cpp\<close>), drops privileges and starts the threads of
  \<^verbatim>\<open>plane.cpp\<close>: per own endpoint a TUN reader and a UDP reader, one prober and one reporter.
  The TUN reader cuts TCP super-packets with \<^verbatim>\<open>gso.cpp\<close>, which computes its checksums with
  \<^verbatim>\<open>csum.cpp\<close>, and asks the connection of the peer for a slot, a pair of endpoints; the UDP
  reader cuts coalesced messages, and marks the slot of the sender as seen. The threads share
  the table: the round-robin counter of a connection and the time of every slot.

  Theories.

  \<^item> Prelude: options and sums as error monads, bytes and blocks with bounds checks,
    little-endian loads, loops over indices. Platform: what is taken from outside \<^verbatim>\<open>src/\<close>:
    the record \<open>lib\<close> (string and address functions of \<^verbatim>\<open>std\<close> and libc) and the maps
    \<open>map_ops\<close>, with the laws used. Os: system calls as events \<open>ev\<close>, their results as
    the record \<open>os\<close>, functions of all calls so far, and the monad \<open>io\<close>.

  \<^item> Csum (\<^verbatim>\<open>csum.cpp\<close>): \<open>checksum\<close> on words of 64, 32 and 16 bits with their carries, shown
    equal to the sum of RFC 1071.

  \<^item> Gso (\<^verbatim>\<open>gso.cpp\<close>, definitions) and GsoSegments (properties): \<open>gsoSplit\<close> with every
    access to a buffer checked. \<open>gsoSeg inb inLen hdr j\<close> is the specification of segment
    \<open>j\<close>; lengths, payload, IP and TCP header, flags and checksums follow from it.

  \<^item> Addr, Ini, Peer, Config (\<^verbatim>\<open>addr.cpp\<close>, \<^verbatim>\<open>ini.cpp\<close>, \<^verbatim>\<open>peer.cpp\<close>, \<^verbatim>\<open>config.cpp\<close>): an
    exception is a value \<open>Inl\<close>. Each parser has a declarative reading (\<open>fileItems\<close>,
    \<open>filePeers\<close>, \<open>fileConfig\<close>) that it is shown to agree with, errors included. IniPrint: a
    printer of configurations, which the program has not, and that the parser inverts it.
    AddrPrint: the same for addresses and overlay networks.

  \<^item> Socks, Tun (\<^verbatim>\<open>socks.cpp\<close>, \<^verbatim>\<open>tun.cpp\<close>): the calls, in order, of opening a socket, a queue
    and configuring the device; destructors of local objects are \<open>scoped\<close> calls, on every
    path; what the pool owns stays open (\<open>PoolFd\<close>, \<open>PoolIfAddrs\<close>).

  \<^item> Conn (\<^verbatim>\<open>conn.cpp\<close>): slots and connections are lists, a pointer to one is its index. The
    invariant is \<open>connTableOk\<close>. \<open>connNext\<close> is \<^verbatim>\<open>next\<close> as one operation.

  \<^item> Threads (\<^verbatim>\<open>next\<close> of \<^verbatim>\<open>conn.cpp\<close> again): its atomic operations one by one, as a step relation
    \<open>sysStep\<close> of any number of readers with the stores of other threads in between. Tickets
    are distinct, and the result is that of \<open>connNext\<close> on a table of contents the slots
    really had; slots stamped behind the clock of the reader are taken for dead.

  \<^item> Plane (\<^verbatim>\<open>plane.cpp\<close>, definitions): a round of each endless loop is a function
    (\<open>tunStep\<close>, \<open>udpStep\<close>, \<open>probeStep\<close>, \<open>statStep\<close>). PlaneTx: what a round of the TUN reader
    puts on the wire (\<open>wireOf\<close>). PlaneRx: what a round of the UDP reader writes
    (\<open>tunWrites\<close>) and which slots it stamps. Health: probes, failover, reports. Tunnel: both
    ends together, with the network in between (\<open>carries\<close>).

  \<^item> Steps (\<^verbatim>\<open>plane.cpp\<close> again): the loops in small steps, with a program counter
    (\<open>tunMicro\<close>, \<open>udpMicro\<close>, \<open>probeMicro\<close>, \<open>statMicro\<close>), between which other threads run; a
    thread alone makes exactly the rounds of Plane. StepSafety: what a step of a thread among
    others relies on and keeps; of the table only counters and times change (\<open>frozen\<close>).

  \<^item> Program (\<^verbatim>\<open>main.cpp\<close>): \<open>gofraMain\<close>, from the command line to the exit status; \<open>startCalls\<close>
    gives all calls of a start. Process: the threads of a start, interleaved round by round
    (\<open>procStep\<close>), with the invariant \<open>procOk\<close>. Hosts: the same threads, interleaved step by
    step (\<open>hostStep\<close>), with the history of every thread and the invariant \<open>hostOk\<close>, from which
    follows in which order packets pass. HostRounds: the rounds are runs of the host. Types:
    what holds of a host even on a kernel that breaks its promises. Progress: under a fair
    schedule nothing is left behind. A start leaves what all this needs: a table with
    \<open>connTableOk\<close> and as many queues as sockets (\<open>started\<close>); the property at the end of this
    theory puts the two together.

  \<^item> Network: any number of hosts, with a network between them that may lose and reorder:
    what the TUN queues of a host get is what the kernels of the others asked for. Tables built
    from the same peers (\<open>overlayHost\<close>) fit together. Overlay: programs that start with the
    same peers in their configuration files become such hosts (\<open>hostOf\<close>).

  Interfaces. Where a part relies on another, the laws are a locale with the client's lemmas:
  \<open>inet_checksum\<close> (interpreted by Csum, used by GsoSegments), \<open>peer_view\<close> (Peer, used by
  Config), \<open>conn_view\<close> (Conn, used by PlaneTx and PlaneRx), \<open>thread_round\<close>, what the process
  relies on of a thread (interpreted in Process for the rounds of both readers), and
  \<open>thread_view\<close>, a thread that moves in a host while the others rest (interpreted in HostRounds
  for all four kinds of threads).

  Conventions. Machine integers keep their width; sizes and indices are \<open>nat\<close>, lengths being
  below the address space. The outer \<open>option\<close> of a definition is memory safety: \<open>None\<close> is an
  access outside a buffer or through a null pointer, or a division by zero, and every property
  says that it does not occur, or when. Loops whose end is to be proved are partial functions
  (\<open>forEachItem\<close>, \<open>parseLoop\<close>, \<open>gsoLoop\<close>, \<open>usoLoop\<close>, \<open>splitLoop\<close>), for which not returning is
  also \<open>None\<close>; no fuel is used. The endless loops are their first \<open>n\<close> rounds, for every
  \<open>n\<close>. Memory that the program does not initialise is zero.

  Assumed, as named hypotheses. \<open>splitOk\<close>, \<open>stripOk\<close>, \<open>affixOk\<close>: the string functions of
  \<^verbatim>\<open>std\<close> split and strip. \<open>mapOk\<close>: a lookup gives the last value inserted under a key.
  \<open>tunReads\<close>, \<open>hdrOk\<close>: the kernel writes no more than was asked for, and its virtio headers
  describe the packet; that segments fit the scratch memory is a demand on the MTU.
  \<open>udpReceives\<close>: messages fit the buffers given. \<open>carries\<close>: the messages received are
  datagrams sent, coalesced as \<^verbatim>\<open>UDP_GRO\<close> does. All of them hold in the concrete runs that go
  with the properties.

  Not modelled. The header files beyond the data types and templates in them: they declare
  interfaces. Allocation and object pools: that an object is handed to the pool is an event
  (\<open>PoolFd\<close>, \<open>PoolIfAddrs\<close>), but not what the pool, code of \<^verbatim>\<open>std\<close>, releases when
  \<^verbatim>\<open>run\<close> is left. Output streams, but for the
  lines they print. The stacks of the threads, and their scheduling, but for the order of their
  steps: \<^verbatim>\<open>next\<close> is one step in Hosts, and its single accesses are interleaved in Threads only.
  Weak memory: every access to a shared counter or time takes effect at once. The
  \<^verbatim>\<open>catch (...)\<close> branch of \<^verbatim>\<open>main\<close>: the exceptions of the model are all of class
  \<^verbatim>\<open>Exception\<close>. The build scripts, the style checker and the development tools are not part
  of the program.
\<close>

section \<open>From the command line to the running threads\<close>

text \<open>
  Property C2. The whole program. When \<^verbatim>\<open>main\<close> comes to its regular end, some file on its
  command line describes a configuration, from whose peers, as the own peer, the connection
  table was built before anything but ignoring a signal was done. The threads that run are those
  of this configuration, on the sockets of this table and as many TUN queues. On exactly this
  table they never fail: in every state that they reach, however interleaved, access by access or
  round by round, the invariants hold and the next step of each of them is memory safe.
\<close>

theorem main_process_safe:
  assumes "splitOk L" "stripOk L" "affixOk L" "mapOk M" "mapOk C" "mapOk I"
    and "gofraMain stdText L M C I readFile argv os h = Some (0, h @ es)" and "kernelOk os"
  shows "\<exists>path cfg t self calls conns tunFds. accepted argv path \<and>
    loadConfig L M C I readFile path = Some (Inr cfg) \<and> cfgPeers cfg = Some t \<and> cfgSelf cfg = Some self \<and>
    createConnTable L I t self (udpRecvBuf cfg) (udpSendBuf cfg) (probeTimeoutMs cfg) os (h @ [IgnoreSigPipe]) =
      Some (Inr conns, h @ [IgnoreSigPipe] @ calls) \<and>
    filter (\<lambda>e. \<not> notSpawn e) es = map Spawn (allThreads cfg tunFds (ctSrcFds conns)) \<and>
    (\<forall>h0 s. hostReach os I cfg tunFds (ctSrcFds conns) conns h0 s \<longrightarrow>
      hostOk os I (length tunFds) conns s \<and>
      stepsOk os I cfg tunFds (ctSrcFds conns) (collectSlots conns) s) \<and>
    (\<forall>h0 p. procReach os I cfg tunFds (ctSrcFds conns) conns h0 p \<longrightarrow>
      procOk I (length tunFds) (length (ctSlots conns)) p \<and>
      roundsOk os I cfg tunFds (ctSrcFds conns) (collectSlots conns) p)"
proof -
  obtain path where acc: "accepted argv path"
    using gofraMain_usage [of argv stdText L M C I readFile os h] assms(7) by auto
  obtain loaded where ld: "loadConfig L M C I readFile path = Some loaded" "mainRun stdText L I os h loaded 0 es"
    using gofraMain_run [OF assms(1-6) acc, of readFile stdText os h] assms(7) by auto
  then obtain cfg me es' where cfg: "loaded = Inr cfg" "es = IgnoreSigPipe # es'"
      "started L I os cfg me (h @ [IgnoreSigPipe]) es'"
    by (auto simp: mainRun_def split: sum.splits)
  obtain conns tunFds where st: "connTableOk I conns" "builtFor L I cfg os (h @ [IgnoreSigPipe]) conns"
      "length tunFds = length (ctSrcFds conns)"
      "filter (\<lambda>e. \<not> notSpawn e) es' = map Spawn (allThreads cfg tunFds (ctSrcFds conns))"
    using started_threads [OF cfg(3)] by (elim exE conjE) (rule that)
  moreover have "filter (\<lambda>e. \<not> notSpawn e) es = filter (\<lambda>e. \<not> notSpawn e) es'"
    by (simp add: cfg(2) notSpawn_def)
  ultimately show ?thesis
    using acc ld(1) cfg(1) host_safe_run [OF assms(8) st(1,3)] process_safe [OF assms(8) st(1,3)]
    unfolding builtFor_def append_assoc by metis
qed

text \<open>The first of two hosts, whose table has one connection.\<close>

theorem main_process_safe_witness:
  "\<exists>es cfg conns tunFds. exGofra 0 = Some (0, es) \<and> length (ctConns conns) = 1 \<and>
     filter (\<lambda>e. \<not> notSpawn e) es = map Spawn (allThreads cfg tunFds (ctSrcFds conns)) \<and>
     (\<forall>us. makeUdpReaderScratch = Some us \<longrightarrow>
        stepsOk (exHostOs 1) exMap cfg tunFds (ctSrcFds conns) (collectSlots conns)
          (hostInit conns (length tunFds) us []))"
proof -
  obtain es where es: "exGofra 0 = Some (0, es)" using exGofra_run [of 0] by auto
  from main_process_safe [OF splitOk_exLib stripOk_exLib affixOk_exLib mapOk_exMap mapOk_exMap mapOk_exMap _ exHostOs_ok [of 1],
      where stdText = "\<lambda>_. ''err''" and readFile = "\<lambda>_. Inr (exFile (exDigit 0))" and h = "[]" and es = es
      and argv = "[''gofra'', ''--config'', ''x'']"]
  obtain path cfg t self calls conns tunFds where
      acc: "accepted [''gofra'', ''--config'', ''x''] path"
      and ld: "loadConfig exLib exMap exMap exMap (\<lambda>_. Inr (exFile (exDigit 0))) path = Some (Inr cfg)"
      and p: "cfgPeers cfg = Some t" "cfgSelf cfg = Some self"
      and ct: "createConnTable exLib exMap t self (udpRecvBuf cfg) (udpSendBuf cfg) (probeTimeoutMs cfg) (exHostOs 1)
        [IgnoreSigPipe] = Some (Inr conns, IgnoreSigPipe # calls)"
      and sp: "filter (\<lambda>e. \<not> notSpawn e) es = map Spawn (allThreads cfg tunFds (ctSrcFds conns))"
      and safe: "\<And>h0 s. hostReach (exHostOs 1) exMap cfg tunFds (ctSrcFds conns) conns h0 s \<Longrightarrow>
        stepsOk (exHostOs 1) exMap cfg tunFds (ctSrcFds conns) (collectSlots conns) s"
    using es unfolding exGofra_def by auto
  have path: "path = ''x''" using acc by (simp add: accepted_eq)
  have t: "tabPeers t = exRows" "self = 0"
    using exFile_loaded [of 0] ld p unfolding path by (auto simp: exHostCfg_def)
  have "tableOk exMap t"
    using loadConfig_usable [OF splitOk_exLib stripOk_exLib affixOk_exLib mapOk_exMap mapOk_exMap mapOk_exMap ld] p by auto
  moreover have "peersAt t self = Some (exRows ! 0)" by (simp add: peersAt_def t exRows_def)
  ultimately obtain f where "list_all2 f (otherPeers t self) (ctConns conns)"
    using createConnTable_facts [OF mapOk_exMap] ct by blast
  then have "length (ctConns conns) = length (otherPeers t self)" by (simp add: list_all2_lengthD)
  then have "length (ctConns conns) = 1" by (simp add: otherPeers_def peersSize_def t exRows_def upt_rec)
  with es sp safe show ?thesis using hostReach.host_start by blast
qed

end
